(* ===== verification/Prelude.thy ===== *)
theory Prelude
  imports Main "HOL-Library.Word"
begin

text \<open>
  Shared vocabulary of the development: the C integer types as machine words, the C shift
  operators, little-endian byte access as in \<^verbatim>\<open>src/util/mem_ops.h\<close>, the lemma collections
  that the component theories feed, and generic facts on words and lists.

  C conventions.  \<^verbatim>\<open>uintN_t\<close> and \<^verbatim>\<open>intN_t\<close> are both \<open>N word\<close>; a signed reading is written
  with \<open>sint\<close> at the place where the source casts to a signed type.  A cast to a wider
  unsigned type is \<open>ucast\<close>, to a wider signed type \<open>scast\<close>, to a narrower type \<open>ucast\<close>.
\<close>

unbundle bit_operations_syntax

type_synonym u8 = "8 word"
type_synonym u16 = "16 word"
type_synonym u32 = "32 word"
type_synonym u64 = "64 word"

named_theorems bitfield_simps \<open>reading and replacing bit fields\<close>
named_theorems hart_frame \<open>fields of the hart that an operation leaves alone\<close>
named_theorems irq_simps \<open>raising and clearing interrupt lines\<close>

text \<open>The C operators \<^verbatim>\<open><<\<close>, \<^verbatim>\<open>>>\<close> on unsigned and \<^verbatim>\<open>>>\<close> on signed operands.\<close>

abbreviation shl :: "'a::len word \<Rightarrow> nat \<Rightarrow> 'a word" where
  "shl x n \<equiv> push_bit n x"

abbreviation shr :: "'a::len word \<Rightarrow> nat \<Rightarrow> 'a word" where
  "shr x n \<equiv> drop_bit n x"

abbreviation sar :: "'a::len word \<Rightarrow> nat \<Rightarrow> 'a word" where
  "sar x n \<equiv> signed_drop_bit n x"

text \<open>A C \<^verbatim>\<open>bool\<close> or comparison result used as an integer.\<close>

definition of_cbool :: "bool \<Rightarrow> 'a::len word" where
  "of_cbool b = (if b then 1 else 0)"

section \<open>Case analysis on small indices\<close>

lemma list_all_uptD: "list_all P [0..<m] \<Longrightarrow> n < m \<Longrightarrow> P n"
  by (simp add: list_all_iff)

lemma all_less_32:
  assumes "list_all P
      [0, 1, 2, 3, 4, 5, 6, 7, 8, 9, 10, 11, 12, 13, 14, 15, 16, 17, 18, 19, 20, 21,
       22, 23, 24, 25, 26, 27, 28, 29, 30, 31]"
    and "n < (32 :: nat)"
  shows "P n"
proof -
  have L: "[0..<32] =
      [0, 1, 2, 3, 4, 5, 6, 7, 8, 9, 10, 11, 12, 13, 14, 15, 16, 17, 18, 19, 20, 21,
       22, 23, 24, 25, 26, 27, 28, 29, 30, 31]"
    by (simp add: upt_rec)
  have "list_all P [0..<32]" unfolding L by (rule assms)
  with assms(2) show ?thesis by (simp add: list_all_iff)
qed

lemma word_eqI_32:
  fixes x y :: u32
  assumes "list_all (\<lambda>n. bit x n = bit y n)
      [0, 1, 2, 3, 4, 5, 6, 7, 8, 9, 10, 11, 12, 13, 14, 15, 16, 17, 18, 19, 20, 21,
       22, 23, 24, 25, 26, 27, 28, 29, 30, 31]"
  shows "x = y"
  by (rule bit_word_eqI) (rule all_less_32 [OF assms], simp)

lemma all_less_64:
  assumes "list_all P
      [0, 1, 2, 3, 4, 5, 6, 7, 8, 9, 10, 11, 12, 13, 14, 15, 16, 17, 18, 19, 20, 21,
       22, 23, 24, 25, 26, 27, 28, 29, 30, 31, 32, 33, 34, 35, 36, 37, 38, 39, 40, 41,
       42, 43, 44, 45, 46, 47, 48, 49, 50, 51, 52, 53, 54, 55, 56, 57, 58, 59, 60, 61,
       62, 63]"
    and "n < (64 :: nat)"
  shows "P n"
proof -
  have L: "[0..<64] =
      [0, 1, 2, 3, 4, 5, 6, 7, 8, 9, 10, 11, 12, 13, 14, 15, 16, 17, 18, 19, 20, 21,
       22, 23, 24, 25, 26, 27, 28, 29, 30, 31, 32, 33, 34, 35, 36, 37, 38, 39, 40, 41,
       42, 43, 44, 45, 46, 47, 48, 49, 50, 51, 52, 53, 54, 55, 56, 57, 58, 59, 60, 61,
       62, 63]"
    by (simp add: upt_rec)
  have "list_all P [0..<64]" unfolding L by (rule assms)
  with assms(2) show ?thesis by (simp add: list_all_iff)
qed

lemma word_eqI_64:
  fixes x y :: u64
  assumes "list_all (\<lambda>n. bit x n = bit y n)
      [0, 1, 2, 3, 4, 5, 6, 7, 8, 9, 10, 11, 12, 13, 14, 15, 16, 17, 18, 19, 20, 21,
       22, 23, 24, 25, 26, 27, 28, 29, 30, 31, 32, 33, 34, 35, 36, 37, 38, 39, 40, 41,
       42, 43, 44, 45, 46, 47, 48, 49, 50, 51, 52, 53, 54, 55, 56, 57, 58, 59, 60, 61,
       62, 63]"
  shows "x = y"
  by (rule bit_word_eqI) (rule all_less_64 [OF assms], simp)

section \<open>Words below a power of two\<close>

lemma and_one_bit: "x AND 1 \<noteq> 0 \<longleftrightarrow> bit (x :: 'a::len word) 0"
  by (auto simp: and_one_eq bit_0 even_iff_mod_2_eq_zero)

lemma word_nonzero_bit: "x \<noteq> 0 \<longleftrightarrow> (\<exists>n. bit (x :: 'a::len word) n)"
proof
  assume "x \<noteq> 0"
  show "\<exists>n. bit x n"
  proof (rule ccontr)
    assume "\<nexists>n. bit x n"
    then have "x = 0" by (intro bit_word_eqI) simp
    with \<open>x \<noteq> 0\<close> show False ..
  qed
qed auto

lemma and_shl_one:
  fixes x :: "'a::len word"
  shows "x AND shl 1 n = (if bit x n then shl 1 n else 0)"
  by (rule bit_word_eqI) (auto simp: bit_and_iff push_bit_of_1 bit_exp_iff)

lemma word_and_mask_less:
  fixes x :: "'a::len word"
  shows "unat (x AND mask n) < 2 ^ n"
proof -
  have "unat (take_bit n x) < 2 ^ n"
    by (simp add: unsigned_take_bit_eq)
  then show ?thesis by (simp add: take_bit_eq_mask)
qed

lemma unat_drop_bit_less:
  fixes x :: "'a::len word"
  assumes "n \<le> LENGTH('a)"
  shows "unat (shr x n) < 2 ^ (LENGTH('a) - n)"
proof -
  have "unat x div 2 ^ n < 2 ^ (LENGTH('a) - n)"
    using assms unsigned_less [of x, where 'a = nat]
    by (simp add: less_mult_imp_div_less flip: power_add)
  then show ?thesis
    unfolding unat_drop_bit_eq by (simp add: drop_bit_eq_div)
qed

lemma word_minus_one_and_mask_neq:
  fixes v :: "'a::len word"
  assumes "0 < n" "n \<le> LENGTH('a)"
  shows "(v - 1) AND mask n \<noteq> v AND mask n"
proof
  assume eq: "(v - 1) AND mask n = v AND mask n"
  have "odd (v - 1) \<longleftrightarrow> \<not> odd v"
    by (metis diff_add_cancel odd_add odd_one)
  moreover have "even ((v - 1) AND mask n) = even (v AND mask n)"
    by (simp only: eq)
  moreover have "even (x AND mask n) = even x" for x :: "'a word"
    using assms by (simp add: even_and_iff even_mask_iff)
  ultimately show False by simp
qed

section \<open>Little-endian memory access\<close>

text \<open>
  Host memory is a function from addresses to bytes.  The readers and writers follow the
  byte-by-byte branches of \<^verbatim>\<open>mem_ops.h\<close>, which the \<^verbatim>\<open>memcpy\<close> branches equal on a little-endian
  host.
\<close>

type_synonym host_mem = "u64 \<Rightarrow> u8"

definition read_uint8 :: "host_mem \<Rightarrow> u64 \<Rightarrow> u8" where
  "read_uint8 h a = h a"

definition write_uint8 :: "host_mem \<Rightarrow> u64 \<Rightarrow> u8 \<Rightarrow> host_mem" where
  "write_uint8 h a v = h(a := v)"

definition read_uint16_le :: "host_mem \<Rightarrow> u64 \<Rightarrow> u16" where
  "read_uint16_le h a = ucast (h a) OR shl (ucast (h (a + 1))) 8"

definition write_uint16_le :: "host_mem \<Rightarrow> u64 \<Rightarrow> u16 \<Rightarrow> host_mem" where
  "write_uint16_le h a v = h(a := ucast v, a + 1 := ucast (shr v 8))"

definition read_uint32_le :: "host_mem \<Rightarrow> u64 \<Rightarrow> u32" where
  "read_uint32_le h a = ucast (h a) OR shl (ucast (h (a + 1))) 8
     OR shl (ucast (h (a + 2))) 16 OR shl (ucast (h (a + 3))) 24"

definition write_uint32_le :: "host_mem \<Rightarrow> u64 \<Rightarrow> u32 \<Rightarrow> host_mem" where
  "write_uint32_le h a v = h(a := ucast v, a + 1 := ucast (shr v 8),
     a + 2 := ucast (shr v 16), a + 3 := ucast (shr v 24))"

definition read_uint64_le :: "host_mem \<Rightarrow> u64 \<Rightarrow> u64" where
  "read_uint64_le h a = ucast (h a) OR shl (ucast (h (a + 1))) 8
     OR shl (ucast (h (a + 2))) 16 OR shl (ucast (h (a + 3))) 24
     OR shl (ucast (h (a + 4))) 32 OR shl (ucast (h (a + 5))) 40
     OR shl (ucast (h (a + 6))) 48 OR shl (ucast (h (a + 7))) 56"

definition write_uint64_le :: "host_mem \<Rightarrow> u64 \<Rightarrow> u64 \<Rightarrow> host_mem" where
  "write_uint64_le h a v = h(a := ucast v, a + 1 := ucast (shr v 8),
     a + 2 := ucast (shr v 16), a + 3 := ucast (shr v 24),
     a + 4 := ucast (shr v 32), a + 5 := ucast (shr v 40),
     a + 6 := ucast (shr v 48), a + 7 := ucast (shr v 56))"

lemma read_write_uint8 [simp]: "read_uint8 (write_uint8 h a v) a = v"
  by (simp add: read_uint8_def write_uint8_def)

lemma read_write_uint16 [simp]: "read_uint16_le (write_uint16_le h a v) a = v"
  by (rule bit_word_eqI) (auto simp: read_uint16_le_def write_uint16_le_def bit_simps)

lemma read_write_uint32 [simp]: "read_uint32_le (write_uint32_le h a v) a = v"
  by (rule word_eqI_32)
    (simp add: read_uint32_le_def write_uint32_le_def bit_simps)

lemma read_write_uint64 [simp]: "read_uint64_le (write_uint64_le h a v) a = v"
  by (rule word_eqI_64)
    (simp add: read_uint64_le_def write_uint64_le_def bit_simps)

lemma bit_u8_out: "8 \<le> n \<Longrightarrow> \<not> bit (w :: u8) n"
  using bit_imp_le_length [of w n] by auto

lemma byte_of_read:
  "ucast (read_uint16_le h a) = h a" "ucast (shr (read_uint16_le h a) 8) = h (a + 1)"
  "ucast (read_uint32_le h a) = h a" "ucast (shr (read_uint32_le h a) 8) = h (a + 1)"
  "ucast (shr (read_uint32_le h a) 16) = h (a + 2)" "ucast (shr (read_uint32_le h a) 24) = h (a + 3)"
  "ucast (read_uint64_le h a) = h a" "ucast (shr (read_uint64_le h a) 8) = h (a + 1)"
  "ucast (shr (read_uint64_le h a) 16) = h (a + 2)" "ucast (shr (read_uint64_le h a) 24) = h (a + 3)"
  "ucast (shr (read_uint64_le h a) 32) = h (a + 4)" "ucast (shr (read_uint64_le h a) 40) = h (a + 5)"
  "ucast (shr (read_uint64_le h a) 48) = h (a + 6)" "ucast (shr (read_uint64_le h a) 56) = h (a + 7)"
  by (rule bit_word_eqI; auto simp: read_uint16_le_def read_uint32_le_def read_uint64_le_def bit_simps bit_u8_out)+

lemma write_read_same [simp]:
  "write_uint8 h a (read_uint8 h a) = h" "write_uint16_le h a (read_uint16_le h a) = h"
  "write_uint32_le h a (read_uint32_le h a) = h" "write_uint64_le h a (read_uint64_le h a) = h"
  by (simp_all add: write_uint8_def read_uint8_def write_uint16_le_def write_uint32_le_def write_uint64_le_def byte_of_read)

end
