(* ===== verification/Ringbuf.thy ===== *)
theory Ringbuf
  imports Prelude
begin

text \<open>
  The FIFO ring buffer of \<^verbatim>\<open>src/util/ringbuf.c\<close>: its state, every operation of it, the
  representation invariant, and the refinement of the buffer to the list of bytes it holds.
  The fields of type \<^verbatim>\<open>size_t\<close> are natural numbers: under the invariant no subtraction of the
  source goes below zero and no sum leaves the buffer's size, so the two agree.
  A destination buffer of the source is the returned byte list.
\<close>

record ringbuf =
  rb_data :: "u8 list"
  rb_size :: nat
  rb_start :: nat
  rb_consumed :: nat

text \<open>\<^verbatim>\<open>memcpy\<close> into an array at an offset, and out of one.\<close>

definition copy_in :: "'a list \<Rightarrow> nat \<Rightarrow> 'a list \<Rightarrow> 'a list" where
  "copy_in dst off src = take off dst @ src @ drop (off + length src) dst"

definition copy_out :: "'a list \<Rightarrow> nat \<Rightarrow> nat \<Rightarrow> 'a list" where
  "copy_out src off len = take len (drop off src)"

definition ringbuf_create :: "nat \<Rightarrow> ringbuf" where
  "ringbuf_create sz = \<lparr>rb_data = replicate sz 0, rb_size = sz, rb_start = 0, rb_consumed = 0\<rparr>"

definition ringbuf_destroy :: "ringbuf \<Rightarrow> ringbuf" where
  "ringbuf_destroy rb = rb\<lparr>rb_size := 0, rb_start := 0, rb_consumed := 0, rb_data := []\<rparr>"

definition ringbuf_space :: "ringbuf \<Rightarrow> nat" where
  "ringbuf_space rb = rb_size rb - rb_consumed rb"

definition ringbuf_avail :: "ringbuf \<Rightarrow> nat" where
  "ringbuf_avail rb = rb_consumed rb"

definition ringbuf_skip :: "ringbuf \<Rightarrow> nat \<Rightarrow> nat \<times> ringbuf" where
  "ringbuf_skip rb len =
     (let skip = min len (rb_consumed rb)
      in (skip, rb\<lparr>rb_consumed := rb_consumed rb - skip\<rparr>))"

definition ringbuf_get_read_start :: "ringbuf \<Rightarrow> nat" where
  "ringbuf_get_read_start rb =
     (if rb_consumed rb > rb_start rb then rb_size rb - rb_consumed rb + rb_start rb
      else rb_start rb - rb_consumed rb)"

definition ringbuf_peek :: "ringbuf \<Rightarrow> nat \<Rightarrow> nat \<times> u8 list" where
  "ringbuf_peek rb len =
     (let start = ringbuf_get_read_start rb;
          ret = min (rb_consumed rb) len;
          lhalf_len = min (rb_size rb - start) ret;
          data = copy_out (rb_data rb) start lhalf_len
      in if ret > lhalf_len
         then (ret, data @ copy_out (rb_data rb) 0 (ret - lhalf_len))
         else (ret, data))"

definition ringbuf_read :: "ringbuf \<Rightarrow> nat \<Rightarrow> nat \<times> u8 list \<times> ringbuf" where
  "ringbuf_read rb len =
     (let (ret, data) = ringbuf_peek rb len;
          (_, rb') = ringbuf_skip rb ret
      in (ret, data, rb'))"

definition ringbuf_write :: "ringbuf \<Rightarrow> u8 list \<Rightarrow> nat \<times> ringbuf" where
  "ringbuf_write rb data =
     (let ret = min (rb_size rb - rb_consumed rb) (length data);
          lhalf_len = min (rb_size rb - rb_start rb) ret;
          rb1 = rb\<lparr>rb_data := copy_in (rb_data rb) (rb_start rb) (copy_out data 0 lhalf_len)\<rparr>;
          rb2 = (if ret > lhalf_len
                 then let rhalf_len = ret - lhalf_len
                      in rb1\<lparr>rb_data := copy_in (rb_data rb1) 0 (copy_out data lhalf_len rhalf_len),
                             rb_start := rhalf_len\<rparr>
                 else rb1\<lparr>rb_start := rb_start rb1 + ret\<rparr>)
      in (ret, rb2\<lparr>rb_consumed := rb_consumed rb2 + ret\<rparr>))"

definition ringbuf_get :: "ringbuf \<Rightarrow> nat \<Rightarrow> (u8 list \<times> ringbuf) option" where
  "ringbuf_get rb len =
     (if len \<le> ringbuf_avail rb
      then let (_, data, rb') = ringbuf_read rb len in Some (data, rb')
      else None)"

definition ringbuf_put :: "ringbuf \<Rightarrow> u8 list \<Rightarrow> ringbuf option" where
  "ringbuf_put rb data =
     (if length data \<le> ringbuf_space rb
      then Some (snd (ringbuf_write rb data))
      else None)"

section \<open>Invariant and abstraction\<close>

definition rb_inv :: "ringbuf \<Rightarrow> bool" where
  "rb_inv rb \<longleftrightarrow> length (rb_data rb) = rb_size rb \<and> rb_start rb \<le> rb_size rb
     \<and> rb_consumed rb \<le> rb_size rb"

text \<open>The bytes in the buffer, oldest first: \<open>rb_consumed\<close> cells from the read position on.\<close>

definition rb_abs :: "ringbuf \<Rightarrow> u8 list" where
  "rb_abs rb = map (\<lambda>i. rb_data rb ! ((ringbuf_get_read_start rb + i) mod rb_size rb)) [0..<rb_consumed rb]"

lemma rb_inv_create: "rb_inv (ringbuf_create n)"
  by (simp add: rb_inv_def ringbuf_create_def)

lemma rb_abs_create [simp]: "rb_abs (ringbuf_create n) = []"
  by (simp add: rb_abs_def ringbuf_create_def)

lemma length_rb_abs [simp]: "length (rb_abs rb) = rb_consumed rb"
  by (simp add: rb_abs_def)

text \<open>The read position, modulo the size, is the write position less the fill count.\<close>

lemma read_start_le:
  assumes "rb_inv rb" shows "ringbuf_get_read_start rb \<le> rb_size rb"
  using assms by (auto simp: rb_inv_def ringbuf_get_read_start_def)

lemma read_start_mod:
  assumes "rb_inv rb"
  shows "(ringbuf_get_read_start rb + (rb_consumed rb + k)) mod rb_size rb = (rb_start rb + k) mod rb_size rb"
proof (cases "rb_consumed rb > rb_start rb")
  case True
  then have "ringbuf_get_read_start rb + (rb_consumed rb + k) = rb_size rb + (rb_start rb + k)"
    using assms by (auto simp: rb_inv_def ringbuf_get_read_start_def)
  then show ?thesis by (simp only: mod_add_self1)
next
  case False
  then show ?thesis using assms by (auto simp: rb_inv_def ringbuf_get_read_start_def)
qed

section \<open>Peeking, skipping and reading\<close>

lemma nth_copy_out: "i < len \<Longrightarrow> off + len \<le> length xs \<Longrightarrow> copy_out xs off len ! i = xs ! (off + i)"
  by (simp add: copy_out_def)

lemma length_copy_out [simp]: "length (copy_out xs off len) = min len (length xs - off)"
  by (simp add: copy_out_def min.commute)

lemma ringbuf_peek_spec:
  assumes inv: "rb_inv rb"
  shows "ringbuf_peek rb len = (min (rb_consumed rb) len, take len (rb_abs rb))"
proof -
  define s where "s = ringbuf_get_read_start rb"
  define ret where "ret = min (rb_consumed rb) len"
  define lh where "lh = min (rb_size rb - s) ret"
  have s: "s \<le> rb_size rb" using read_start_le [OF inv] by (simp add: s_def)
  have len: "length (rb_data rb) = rb_size rb" and c: "rb_consumed rb \<le> rb_size rb"
    using inv by (simp_all add: rb_inv_def)
  define out where "out = copy_out (rb_data rb) s lh @ copy_out (rb_data rb) 0 (ret - lh)"
  have "out = take len (rb_abs rb)"
  proof (rule nth_equalityI)
    show "length out = length (take len (rb_abs rb))"
      using s len c by (auto simp: out_def lh_def ret_def)
    fix i assume "i < length out"
    then have i: "i < ret" using s len c by (auto simp: out_def lh_def ret_def)
    have rhs: "take len (rb_abs rb) ! i = rb_data rb ! ((s + i) mod rb_size rb)"
      using i by (simp add: rb_abs_def s_def ret_def)
    show "out ! i = take len (rb_abs rb) ! i"
    proof (cases "i < lh")
      case True
      then have "s + i < rb_size rb" by (auto simp: lh_def)
      with True show ?thesis
        unfolding rhs using s len by (simp add: out_def nth_append nth_copy_out lh_def)
    next
      case False
      then have "lh = rb_size rb - s" using i by (auto simp: lh_def)
      then have "(s + i) mod rb_size rb = i - lh"
        using False i s c by (auto simp: ret_def mod_if)
      moreover have "copy_out (rb_data rb) 0 (ret - lh) ! (i - lh) = rb_data rb ! (i - lh)"
        using False i s len c by (subst nth_copy_out) (auto simp: ret_def)
      ultimately show ?thesis
        unfolding rhs using False len s \<open>lh = rb_size rb - s\<close> by (simp add: out_def nth_append)
    qed
  qed
  moreover have "ringbuf_peek rb len = (ret, out)"
    using s len by (auto simp: ringbuf_peek_def Let_def out_def lh_def ret_def s_def copy_out_def)
  ultimately show ?thesis by (simp add: ret_def)
qed

lemma ringbuf_skip_inv: "rb_inv rb \<Longrightarrow> rb_inv (snd (ringbuf_skip rb len))"
  by (auto simp: rb_inv_def ringbuf_skip_def Let_def)

lemma ringbuf_skip_abs:
  assumes inv: "rb_inv rb"
  shows "rb_abs (snd (ringbuf_skip rb len)) = drop len (rb_abs rb)"
proof (rule nth_equalityI)
  show "length (rb_abs (snd (ringbuf_skip rb len))) = length (drop len (rb_abs rb))"
    by (auto simp: ringbuf_skip_def Let_def)
  fix i assume "i < length (rb_abs (snd (ringbuf_skip rb len)))"
  then have i: "len + i < rb_consumed rb"
    by (auto simp: ringbuf_skip_def Let_def min_def split: if_splits)
  define rb' where "rb' = snd (ringbuf_skip rb len)"
  have sk: "rb_data rb' = rb_data rb" "rb_size rb' = rb_size rb" "rb_start rb' = rb_start rb"
      "rb_consumed rb' = rb_consumed rb - len"
    using i by (auto simp: rb'_def ringbuf_skip_def Let_def)
  have "(ringbuf_get_read_start rb' + i) mod rb_size rb = (ringbuf_get_read_start rb + (len + i)) mod rb_size rb"
  proof (cases "rb_consumed rb > rb_start rb \<and> \<not> rb_consumed rb' > rb_start rb'")
    case True
    then have "ringbuf_get_read_start rb + (len + i) = rb_size rb + (ringbuf_get_read_start rb' + i)"
      using inv i by (auto simp: rb_inv_def ringbuf_get_read_start_def sk)
    then show ?thesis by (simp only: mod_add_self1)
  next
    case False
    then have "ringbuf_get_read_start rb + (len + i) = ringbuf_get_read_start rb' + i"
      using inv i by (auto simp: rb_inv_def ringbuf_get_read_start_def sk)
    then show ?thesis by (simp only:)
  qed
  moreover have "i < rb_consumed rb - len" using i by arith
  ultimately show "rb_abs (snd (ringbuf_skip rb len)) ! i = drop len (rb_abs rb) ! i"
    using i by (simp add: rb_abs_def sk rb'_def [symmetric])
qed

lemma ringbuf_read_spec:
  assumes "rb_inv rb" and "ringbuf_read rb len = (n, data, rb')"
  shows "n = min (rb_consumed rb) len" and "data = take len (rb_abs rb)"
    and "rb_abs rb' = drop len (rb_abs rb)" and "rb_inv rb'" and "rb_size rb' = rb_size rb"
proof -
  have eq: "n = min (rb_consumed rb) len" "data = take len (rb_abs rb)"
      "rb' = snd (ringbuf_skip rb n)"
    using assms(2)
    by (auto simp: ringbuf_read_def ringbuf_peek_spec [OF assms(1)] split_beta)
  then show "n = min (rb_consumed rb) len" "data = take len (rb_abs rb)" by simp_all
  show "rb_abs rb' = drop len (rb_abs rb)"
    using eq by (simp add: ringbuf_skip_abs [OF assms(1)] min_def)
  show "rb_inv rb'" using eq ringbuf_skip_inv [OF assms(1)] by simp
  show "rb_size rb' = rb_size rb" using eq by (simp add: ringbuf_skip_def Let_def)
qed

section \<open>Writing\<close>

lemma nth_copy_in:
  assumes "off + length src \<le> length dst" and "j < length dst"
  shows "copy_in dst off src ! j = (if off \<le> j \<and> j < off + length src then src ! (j - off) else dst ! j)"
  using assms by (auto simp: copy_in_def nth_append)

lemma length_copy_in [simp]: "off + length src \<le> length dst \<Longrightarrow> length (copy_in dst off src) = length dst"
  by (simp add: copy_in_def)

text \<open>The two halves of a write, as one array of the buffer's size.\<close>

lemma ringbuf_write_eq:
  assumes inv: "rb_inv rb"
  defines "n \<equiv> \<lambda>data. min (rb_size rb - rb_consumed rb) (length data)"
  shows "ringbuf_write rb data = (n data,
    (if rb_start rb + n data \<le> rb_size rb
     then rb\<lparr>rb_data := copy_in (rb_data rb) (rb_start rb) (take (n data) data),
            rb_start := rb_start rb + n data, rb_consumed := rb_consumed rb + n data\<rparr>
     else let l = rb_size rb - rb_start rb in
       rb\<lparr>rb_data := copy_in (copy_in (rb_data rb) (rb_start rb) (take l data)) 0
                       (take (n data - l) (drop l data)),
          rb_start := n data - l, rb_consumed := rb_consumed rb + n data\<rparr>))"
proof -
  define m where "m = min (rb_size rb - rb_consumed rb) (length data)"
  have start: "rb_start rb \<le> rb_size rb" using inv by (simp add: rb_inv_def)
  show ?thesis
  proof (cases "rb_start rb + m \<le> rb_size rb")
    case True
    then have "min (rb_size rb - rb_start rb) m = m" by simp
    then show ?thesis
      using True unfolding n_def ringbuf_write_def m_def [symmetric] Let_def copy_out_def by simp
  next
    case False
    then have "min (rb_size rb - rb_start rb) m = rb_size rb - rb_start rb"
        and "rb_size rb - rb_start rb < m" using start by linarith+
    then show ?thesis
      using False unfolding n_def ringbuf_write_def m_def [symmetric] Let_def copy_out_def by simp
  qed
qed

lemma ringbuf_write_fields:
  assumes inv: "rb_inv rb" and w: "ringbuf_write rb data = (n, rb')"
  shows "n = min (rb_size rb - rb_consumed rb) (length data)"
    and "rb_size rb' = rb_size rb" and "rb_consumed rb' = rb_consumed rb + n"
    and "rb_start rb' = (if rb_start rb + n \<le> rb_size rb then rb_start rb + n
                         else rb_start rb + n - rb_size rb)"
    and "length (rb_data rb') = rb_size rb"
    and "j < rb_size rb \<Longrightarrow> rb_data rb' ! j =
           (if rb_start rb \<le> j \<and> j < rb_start rb + n then data ! (j - rb_start rb)
            else if j + rb_size rb < rb_start rb + n then data ! (j + rb_size rb - rb_start rb)
            else rb_data rb ! j)"
proof -
  note w' = w [unfolded ringbuf_write_eq [OF inv] Let_def]
  note i = inv [unfolded rb_inv_def]
  show n: "n = min (rb_size rb - rb_consumed rb) (length data)" using w' by simp
  show "rb_size rb' = rb_size rb" "rb_consumed rb' = rb_consumed rb + n"
    using w' by (auto split: if_splits)
  define l where "l = rb_size rb - rb_start rb"
  have rb': "rb' = (if rb_start rb + n \<le> rb_size rb
     then rb\<lparr>rb_data := copy_in (rb_data rb) (rb_start rb) (take n data),
            rb_start := rb_start rb + n, rb_consumed := rb_consumed rb + n\<rparr>
     else rb\<lparr>rb_data := copy_in (copy_in (rb_data rb) (rb_start rb) (take l data)) 0
                       (take (n - l) (drop l data)),
          rb_start := n - l, rb_consumed := rb_consumed rb + n\<rparr>)"
    using w' unfolding l_def n by simp
  have nl: "n \<le> rb_size rb" "n \<le> length data" using n by simp_all
  show "rb_start rb' = (if rb_start rb + n \<le> rb_size rb then rb_start rb + n
                         else rb_start rb + n - rb_size rb)"
    unfolding rb' using i by (simp add: l_def add.commute)
  show "length (rb_data rb') = rb_size rb"
    unfolding rb' using i nl by (auto simp: l_def copy_in_def)
  assume j: "j < rb_size rb"
  show "rb_data rb' ! j =
           (if rb_start rb \<le> j \<and> j < rb_start rb + n then data ! (j - rb_start rb)
            else if j + rb_size rb < rb_start rb + n then data ! (j + rb_size rb - rb_start rb)
            else rb_data rb ! j)"
  proof (cases "rb_start rb + n \<le> rb_size rb")
    case True
    with j i nl show ?thesis unfolding rb' by (auto simp: nth_copy_in)
  next
    case False
    with i nl have ll: "l < n" "rb_start rb + l = rb_size rb" "l \<le> length data" "n - l \<le> rb_size rb"
      by (auto simp: l_def)
    have inner: "copy_in (rb_data rb) (rb_start rb) (take l data) ! j =
        (if rb_start rb \<le> j then data ! (j - rb_start rb) else rb_data rb ! j)"
      using j i ll by (auto simp: nth_copy_in)
    have outer: "rb_data rb' ! j = (if j < n - l then data ! (l + j)
        else copy_in (rb_data rb) (rb_start rb) (take l data) ! j)"
      unfolding rb' using False j i ll nl by (auto simp: nth_copy_in)
    have "l + j = j + rb_size rb - rb_start rb" "j < n - l \<longleftrightarrow> j + rb_size rb < rb_start rb + n"
        "j < n - l \<Longrightarrow> j < rb_start rb"
      using i ll nl by (auto simp: l_def)
    then show ?thesis unfolding outer inner using False j by auto
  qed
qed

lemma ringbuf_write_inv:
  assumes "rb_inv rb" and "ringbuf_write rb data = (n, rb')"
  shows "rb_inv rb'"
proof -
  note f = ringbuf_write_fields [OF assms]
  have "n \<le> rb_size rb - rb_consumed rb" using f(1) by simp
  with assms(1) show ?thesis unfolding rb_inv_def f(2-5) by auto
qed

lemma ringbuf_write_read_start:
  assumes "rb_inv rb" and "ringbuf_write rb data = (n, rb')" and "0 < rb_size rb"
  shows "(ringbuf_get_read_start rb' + i) mod rb_size rb = (ringbuf_get_read_start rb + i) mod rb_size rb"
proof -
  note f = ringbuf_write_fields(2-4) [OF assms(1,2)]
  have nle: "n \<le> rb_size rb - rb_consumed rb"
    using ringbuf_write_fields(1) [OF assms(1,2)] by simp
  have "ringbuf_get_read_start rb' = ringbuf_get_read_start rb \<or>
      ringbuf_get_read_start rb = rb_size rb + ringbuf_get_read_start rb'"
    using assms(1,3) nle unfolding rb_inv_def ringbuf_get_read_start_def f by auto
  then show ?thesis
    by (metis add.assoc mod_add_self1)
qed

lemma ringbuf_write_abs:
  assumes inv: "rb_inv rb" and w: "ringbuf_write rb data = (n, rb')"
  shows "rb_abs rb' = rb_abs rb @ take n data"
proof (rule nth_equalityI)
  note f = ringbuf_write_fields [OF inv w]
  show "length (rb_abs rb') = length (rb_abs rb @ take n data)"
    using f by auto
  fix i assume "i < length (rb_abs rb')"
  then have i: "i < rb_consumed rb + n" using f(3) by simp
  have "n \<le> rb_size rb - rb_consumed rb" using f(1) by simp
  moreover have "rb_consumed rb \<le> rb_size rb" using inv by (simp add: rb_inv_def)
  ultimately have sz: "0 < rb_size rb" "rb_consumed rb + n \<le> rb_size rb"
    using i by linarith+
  define cell where "cell = (ringbuf_get_read_start rb + i) mod rb_size rb"
  have cell: "cell < rb_size rb" using sz by (simp add: cell_def)
  have lhs: "rb_abs rb' ! i = rb_data rb' ! cell"
    using i f(2,3) ringbuf_write_read_start [OF inv w sz(1)] by (simp add: rb_abs_def cell_def)
  show "rb_abs rb' ! i = (rb_abs rb @ take n data) ! i"
  proof (cases "i < rb_consumed rb")
    case True
    then have "cell = (if rb_consumed rb \<le> rb_start rb + i then rb_start rb + i - rb_consumed rb
                       else rb_size rb + rb_start rb + i - rb_consumed rb)"
      using inv sz by (auto simp: cell_def ringbuf_get_read_start_def rb_inv_def mod_if)
    then have "rb_data rb' ! cell = rb_data rb ! cell"
      using True f(6) [OF cell] sz inv by (auto simp: rb_inv_def split: if_splits)
    with True show ?thesis unfolding lhs by (simp add: nth_append rb_abs_def cell_def)
  next
    case False
    define k where "k = i - rb_consumed rb"
    have k: "i = rb_consumed rb + k" "k < n" using False i by (auto simp: k_def)
    have "cell = (rb_start rb + k) mod rb_size rb"
      unfolding cell_def k(1) by (rule read_start_mod [OF inv])
    then have "cell = (if rb_start rb + k < rb_size rb then rb_start rb + k
                       else rb_start rb + k - rb_size rb)"
      using inv sz k by (auto simp: rb_inv_def mod_if)
    then have "rb_data rb' ! cell = data ! k"
      using f(6) [OF cell] k sz inv by (auto simp: rb_inv_def split: if_splits)
    with k f(1) show ?thesis unfolding lhs by (simp add: nth_append)
  qed
qed

section \<open>The FIFO contract\<close>

text \<open>
  A client's run of a queue: each \<open>Inl d\<close> asks to put \<open>d\<close>, each \<open>Inr n\<close> asks to get \<open>n\<close> bytes.
  The run returns the bytes accepted so far, the bytes delivered so far, and the queue.
\<close>

fun fifo_run :: "('q \<Rightarrow> u8 list \<Rightarrow> 'q option) \<Rightarrow> ('q \<Rightarrow> nat \<Rightarrow> (u8 list \<times> 'q) option)
    \<Rightarrow> (u8 list + nat) list \<Rightarrow> u8 list \<Rightarrow> u8 list \<Rightarrow> 'q \<Rightarrow> u8 list \<times> u8 list \<times> 'q" where
  "fifo_run put get [] acc out q = (acc, out, q)"
| "fifo_run put get (Inl d # ops) acc out q =
     (case put q d of Some q' \<Rightarrow> fifo_run put get ops (acc @ d) out q'
      | None \<Rightarrow> fifo_run put get ops acc out q)"
| "fifo_run put get (Inr n # ops) acc out q =
     (case get q n of Some (d, q') \<Rightarrow> fifo_run put get ops acc (out @ d) q'
      | None \<Rightarrow> fifo_run put get ops acc out q)"

text \<open>
  What a client of a bounded byte queue relies on: an accepted \<open>put\<close> appends, a granted \<open>get\<close>
  takes from the front, each is refused exactly when the bytes or the room are missing, and a
  refusal has no effect.
\<close>

locale byte_fifo =
  fixes abs :: "'q \<Rightarrow> u8 list" and inv :: "'q \<Rightarrow> bool" and cap :: "'q \<Rightarrow> nat"
    and put :: "'q \<Rightarrow> u8 list \<Rightarrow> 'q option" and get :: "'q \<Rightarrow> nat \<Rightarrow> (u8 list \<times> 'q) option"
  assumes put_some: "inv q \<Longrightarrow> length (abs q) + length d \<le> cap q \<Longrightarrow>
      \<exists>q'. put q d = Some q' \<and> inv q' \<and> abs q' = abs q @ d \<and> cap q' = cap q"
    and put_none: "inv q \<Longrightarrow> cap q < length (abs q) + length d \<Longrightarrow> put q d = None"
    and get_some: "inv q \<Longrightarrow> n \<le> length (abs q) \<Longrightarrow>
      \<exists>q'. get q n = Some (take n (abs q), q') \<and> inv q' \<and> abs q' = drop n (abs q) \<and> cap q' = cap q"
    and get_none: "inv q \<Longrightarrow> length (abs q) < n \<Longrightarrow> get q n = None"
begin

lemma fifo_run_stream:
  assumes "inv q" and "acc = out @ abs q" and "fifo_run put get ops acc out q = (acc', out', q')"
  shows "acc' = out' @ abs q' \<and> inv q' \<and> cap q' = cap q"
  using assms
proof (induction ops arbitrary: acc out q)
  case Nil
  then show ?case by auto
next
  case (Cons op ops)
  show ?case
  proof (cases op)
    case (Inl d)
    show ?thesis
    proof (cases "length (abs q) + length d \<le> cap q")
      case True
      from put_some [OF Cons.prems(1) this] obtain q1
        where q1: "put q d = Some q1" "inv q1" "abs q1 = abs q @ d" "cap q1 = cap q" by blast
      with Cons.IH [OF q1(2), of "acc @ d" out] Cons.prems Inl show ?thesis by simp
    next
      case False
      with put_none [OF Cons.prems(1)] have "put q d = None" by simp
      with Cons.IH [OF Cons.prems(1,2)] Cons.prems Inl show ?thesis by simp
    qed
  next
    case (Inr n)
    show ?thesis
    proof (cases "n \<le> length (abs q)")
      case True
      from get_some [OF Cons.prems(1) this] obtain q1
        where q1: "get q n = Some (take n (abs q), q1)" "inv q1" "abs q1 = drop n (abs q)" "cap q1 = cap q"
        by blast
      with Cons.IH [OF q1(2), of acc "out @ take n (abs q)"] Cons.prems Inr show ?thesis by simp
    next
      case False
      with get_none [OF Cons.prems(1)] have "get q n = None" by simp
      with Cons.IH [OF Cons.prems(1,2)] Cons.prems Inr show ?thesis by simp
    qed
  qed
qed

end

interpretation ringbuf_fifo: byte_fifo rb_abs rb_inv rb_size ringbuf_put ringbuf_get
proof unfold_locales
  fix q :: ringbuf and d :: "u8 list" assume q: "rb_inv q" and "length (rb_abs q) + length d \<le> rb_size q"
  then have fits: "length d \<le> rb_size q - rb_consumed q" and c: "length d \<le> ringbuf_space q"
    by (auto simp: rb_inv_def ringbuf_space_def)
  obtain n q' where w: "ringbuf_write q d = (n, q')" by fastforce
  with q have "rb_inv q'" "rb_abs q' = rb_abs q @ take n d" "rb_size q' = rb_size q"
    and n: "n = min (rb_size q - rb_consumed q) (length d)"
    using ringbuf_write_inv ringbuf_write_abs ringbuf_write_fields(1,2) by blast+
  with fits w c show "\<exists>q'. ringbuf_put q d = Some q' \<and> rb_inv q' \<and> rb_abs q' = rb_abs q @ d \<and> rb_size q' = rb_size q"
    by (simp add: ringbuf_put_def)
next
  fix q :: ringbuf and d :: "u8 list" assume "rb_inv q" and "rb_size q < length (rb_abs q) + length d"
  then show "ringbuf_put q d = None"
    by (auto simp: rb_inv_def ringbuf_put_def ringbuf_space_def)
next
  fix q :: ringbuf and n :: nat assume q: "rb_inv q" and n: "n \<le> length (rb_abs q)"
  obtain k d q' where r: "ringbuf_read q n = (k, d, q')" by (metis prod_cases3)
  from ringbuf_read_spec [OF q r] n r
  show "\<exists>q'. ringbuf_get q n = Some (take n (rb_abs q), q') \<and> rb_inv q'
      \<and> rb_abs q' = drop n (rb_abs q) \<and> rb_size q' = rb_size q"
    by (auto simp: ringbuf_get_def ringbuf_avail_def)
next
  fix q :: ringbuf and n :: nat assume "rb_inv q" and "length (rb_abs q) < n"
  then show "ringbuf_get q n = None" by (simp add: ringbuf_get_def ringbuf_avail_def)
qed

section \<open>Properties\<close>

text \<open>
  C33. The ring buffer is a FIFO: whatever sequence of puts and gets a client issues on a fresh
  buffer of \<open>n\<close> bytes, the bytes of the accepted puts are exactly the bytes the gets delivered
  followed by the bytes still held, in order; the buffer's size never changes and its fields
  stay in range.
\<close>

theorem ringbuf_stream:
  "case fifo_run ringbuf_put ringbuf_get ops [] [] (ringbuf_create n) of (accepted, delivered, rb) \<Rightarrow>
     accepted = delivered @ rb_abs rb \<and> rb_inv rb \<and> rb_size rb = n"
proof -
  obtain acc out rb where r: "fifo_run ringbuf_put ringbuf_get ops [] [] (ringbuf_create n) = (acc, out, rb)"
    using prod_cases3 by blast
  from ringbuf_fifo.fifo_run_stream [OF rb_inv_create _ this] show ?thesis
    by (simp add: r) (simp add: ringbuf_create_def)
qed

text \<open>
  Partial transfers: a write stores the longest prefix that fits and reports its length, and a
  read hands out the longest prefix of the held bytes that was asked for and removes it.
\<close>

theorem ringbuf_write_read_prefix:
  assumes "rb_inv rb"
  shows "(case ringbuf_write rb data of (n, rb') \<Rightarrow>
            n = min (rb_size rb - length (rb_abs rb)) (length data)
            \<and> rb_abs rb' = rb_abs rb @ take n data \<and> rb_inv rb')
       \<and> (case ringbuf_read rb len of (k, bytes, rb') \<Rightarrow>
            k = min (length (rb_abs rb)) len
            \<and> bytes = take k (rb_abs rb) \<and> rb_abs rb' = drop k (rb_abs rb) \<and> rb_inv rb')"
proof
  obtain n rb' where w: "ringbuf_write rb data = (n, rb')" by fastforce
  from ringbuf_write_fields(1) [OF assms w] ringbuf_write_abs [OF assms w] ringbuf_write_inv [OF assms w]
  show "case ringbuf_write rb data of (n, rb') \<Rightarrow>
            n = min (rb_size rb - length (rb_abs rb)) (length data)
            \<and> rb_abs rb' = rb_abs rb @ take n data \<and> rb_inv rb'" by (simp add: w)
next
  obtain k bytes rb' where r: "ringbuf_read rb len = (k, bytes, rb')" by (metis prod_cases3)
  from ringbuf_read_spec [OF assms r]
  have "k = min (length (rb_abs rb)) len" "bytes = take len (rb_abs rb)"
    "rb_abs rb' = drop len (rb_abs rb)" "rb_inv rb'" by simp_all
  then show "case ringbuf_read rb len of (k, bytes, rb') \<Rightarrow>
            k = min (length (rb_abs rb)) len
            \<and> bytes = take k (rb_abs rb) \<and> rb_abs rb' = drop k (rb_abs rb) \<and> rb_inv rb'"
    by (simp add: r min_def)
qed

theorem ringbuf_write_read_prefix_witness:
  "rb_abs (snd (ringbuf_write \<lparr>rb_data = [7, 8, 9], rb_size = 3, rb_start = 3, rb_consumed = 1\<rparr> [1, 2, 4])) = [9, 1, 2]
   \<and> fst (snd (ringbuf_read \<lparr>rb_data = [7, 8, 9], rb_size = 3, rb_start = 1, rb_consumed = 2\<rparr> 5)) = [9, 7]"
  using ringbuf_write_read_prefix [of "\<lparr>rb_data = [7, 8, 9], rb_size = 3, rb_start = 3, rb_consumed = 1\<rparr>" "[1, 2, 4]" 0]
    ringbuf_write_read_prefix [of "\<lparr>rb_data = [7, 8, 9], rb_size = 3, rb_start = 1, rb_consumed = 2\<rparr>" "[]" 5]
  by (simp add: split_beta rb_inv_def rb_abs_def ringbuf_get_read_start_def
      upt_conv_Cons numeral_2_eq_2 [symmetric] numeral_3_eq_3 [symmetric])

end
