(* ===== verification/BitOps.thy ===== *)
theory BitOps
  imports Prelude
begin

text \<open>
  The bit operations of \<^verbatim>\<open>src/util/bit_ops.h\<close>.  Where the header chooses between a compiler
  builtin and portable C, both are modelled: the plain name is the builtin branch, the suffix
  \<open>_portable\<close> the fallback.  Bit positions and field widths are naturals; the amounts of the
  rotations and of the safe bit checks, which the source masks, stay 32-bit words.
\<close>

section \<open>Bit fields\<close>

definition bit_mask :: "nat \<Rightarrow> u64" where
  "bit_mask count = (if count < 64 then shl 1 count - 1 else NOT 0)"

definition bit_ext_u32 :: "u32 \<Rightarrow> nat \<Rightarrow> nat \<Rightarrow> u32" where
  "bit_ext_u32 val pos bits = shr (shl val (32 - bits - pos)) (32 - bits)"

definition bit_ext_i32 :: "u32 \<Rightarrow> nat \<Rightarrow> nat \<Rightarrow> u32" where
  "bit_ext_i32 val pos bits = sar (shl val (32 - bits - pos)) (32 - bits)"

definition bit_ext_u64 :: "u64 \<Rightarrow> nat \<Rightarrow> nat \<Rightarrow> u64" where
  "bit_ext_u64 val pos bits = shr (shl val (64 - bits - pos)) (64 - bits)"

definition bit_ext_i64 :: "u64 \<Rightarrow> nat \<Rightarrow> nat \<Rightarrow> u64" where
  "bit_ext_i64 val pos bits = sar (shl val (64 - bits - pos)) (64 - bits)"

definition bit_replace32 :: "u32 \<Rightarrow> nat \<Rightarrow> nat \<Rightarrow> u32 \<Rightarrow> u32" where
  "bit_replace32 val pos bits field =
     ucast ((ucast val AND NOT (shl (bit_mask bits) pos)) OR shl (ucast field AND bit_mask bits) pos)"

definition bit_replace64 :: "u64 \<Rightarrow> nat \<Rightarrow> nat \<Rightarrow> u64 \<Rightarrow> u64" where
  "bit_replace64 val pos bits field =
     (val AND NOT (shl (bit_mask bits) pos)) OR shl (field AND bit_mask bits) pos"

abbreviation sign_extend :: "u64 \<Rightarrow> nat \<Rightarrow> u64" where
  "sign_extend val bits \<equiv> bit_ext_i64 val 0 bits"

abbreviation bit_cut :: "u64 \<Rightarrow> nat \<Rightarrow> nat \<Rightarrow> u64" where
  "bit_cut val pos bits \<equiv> bit_ext_u64 val pos bits"

abbreviation bit_replace :: "u64 \<Rightarrow> nat \<Rightarrow> nat \<Rightarrow> u64 \<Rightarrow> u64" where
  "bit_replace val pos bits field \<equiv> bit_replace64 val pos bits field"

section \<open>Bit checks and rotations\<close>

definition bit_set32 :: "u32 \<Rightarrow> u32" where
  "bit_set32 pos = shl 1 (unat (pos AND 0x1F))"

definition bit_set64 :: "u32 \<Rightarrow> u64" where
  "bit_set64 pos = shl 1 (unat (pos AND 0x3F))"

definition bit_check32 :: "u32 \<Rightarrow> u32 \<Rightarrow> bool" where
  "bit_check32 val pos \<longleftrightarrow> shr val (unat (pos AND 0x1F)) AND 1 \<noteq> 0"

definition bit_check64 :: "u64 \<Rightarrow> u32 \<Rightarrow> bool" where
  "bit_check64 val pos \<longleftrightarrow> shr val (unat (pos AND 0x3F)) AND 1 \<noteq> 0"

definition bit_rotl32 :: "u32 \<Rightarrow> u32 \<Rightarrow> u32" where
  "bit_rotl32 val bits = shl val (unat (bits AND 0x1F)) OR shr val (unat ((32 - bits) AND 0x1F))"

definition bit_rotl64 :: "u64 \<Rightarrow> u32 \<Rightarrow> u64" where
  "bit_rotl64 val bits = shl val (unat (bits AND 0x3F)) OR shr val (unat ((64 - bits) AND 0x3F))"

definition bit_rotr32 :: "u32 \<Rightarrow> u32 \<Rightarrow> u32" where
  "bit_rotr32 val bits = shr val (unat (bits AND 0x1F)) OR shl val (unat ((32 - bits) AND 0x1F))"

definition bit_rotr64 :: "u64 \<Rightarrow> u32 \<Rightarrow> u64" where
  "bit_rotr64 val bits = shr val (unat (bits AND 0x3F)) OR shl val (unat ((64 - bits) AND 0x3F))"

section \<open>Counting zeroes and ones\<close>

text \<open>
  The compiler builtins by their documented results: zero bits above the highest set bit of the
  lowest \<open>n\<close>, zero bits below the lowest set bit, and the number of set bits.
\<close>

primrec lead_zeros :: "nat \<Rightarrow> 'a::len word \<Rightarrow> nat" where
  "lead_zeros 0 x = 0"
| "lead_zeros (Suc n) x = (if bit x n then 0 else Suc (lead_zeros n x))"

primrec trail_zeros :: "nat \<Rightarrow> 'a::len word \<Rightarrow> nat" where
  "trail_zeros 0 x = 0"
| "trail_zeros (Suc n) x = (if bit x 0 then 0 else Suc (trail_zeros n (shr x 1)))"

primrec set_bits_below :: "nat \<Rightarrow> 'a::len word \<Rightarrow> nat" where
  "set_bits_below 0 x = 0"
| "set_bits_below (Suc n) x = (if bit x n then 1 else 0) + set_bits_below n x"

definition clz_lut :: "u32 list" where
  "clz_lut =
    [0, 31, 4, 30, 3, 18, 8, 29, 2, 10, 12, 17, 7, 15, 28, 24,
     1, 5, 19, 9, 11, 13, 16, 25, 6, 20, 14, 26, 21, 27, 22, 23]"

definition ctz_lut :: "u32 list" where
  "ctz_lut =
    [0, 1, 28, 2, 29, 14, 24, 3, 30, 22, 20, 15, 25, 17, 4, 8,
     31, 27, 13, 23, 21, 19, 16, 7, 26, 12, 18, 6, 11, 5, 10, 9]"

definition bit_clz32 :: "u32 \<Rightarrow> u32" where
  "bit_clz32 val = (if val \<noteq> 0 then of_nat (lead_zeros 32 val) else 32)"

definition bit_clz32_portable :: "u32 \<Rightarrow> u32" where
  "bit_clz32_portable val =
     (if val \<noteq> 0
      then let val = val OR shr val 1;
               val = val OR shr val 2;
               val = val OR shr val 4;
               val = val OR shr val 8;
               val = val OR shr val 16
           in clz_lut ! unat (shr ((val + 1) * 0x077CB531) 27)
      else 32)"

definition bit_clz64 :: "u64 \<Rightarrow> u32" where
  "bit_clz64 val = (if val \<noteq> 0 then of_nat (lead_zeros 64 val) else 64)"

definition bit_clz64_portable :: "u64 \<Rightarrow> u32" where
  "bit_clz64_portable val =
     (if val \<noteq> 0
      then (if shr val 32 \<noteq> 0 then bit_clz32_portable (ucast (shr val 32))
            else 32 + bit_clz32_portable (ucast val))
      else 64)"

definition bit_ctz32 :: "u32 \<Rightarrow> u32" where
  "bit_ctz32 val = (if val \<noteq> 0 then of_nat (trail_zeros 32 val) else 32)"

definition bit_ctz32_portable :: "u32 \<Rightarrow> u32" where
  "bit_ctz32_portable val =
     (if val \<noteq> 0 then ctz_lut ! unat (shr ((val AND - val) * 0x077CB531) 27) else 32)"

definition bit_ctz64 :: "u64 \<Rightarrow> u32" where
  "bit_ctz64 val = (if val \<noteq> 0 then of_nat (trail_zeros 64 val) else 64)"

definition bit_ctz64_portable :: "u64 \<Rightarrow> u32" where
  "bit_ctz64_portable val =
     (if val \<noteq> 0
      then let tmp = shl (of_cbool ((ucast val :: u32) = 0)) 5
           in bit_ctz32_portable (ucast (shr val (unat (tmp :: u32)))) + tmp
      else 64)"

definition bit_bsr32 :: "u32 \<Rightarrow> u32" where
  "bit_bsr32 val = (if val \<noteq> 0 then 31 XOR bit_clz32 val else 32)"

definition bit_bsr64 :: "u64 \<Rightarrow> u32" where
  "bit_bsr64 val = (if val \<noteq> 0 then 63 XOR bit_clz64 val else 64)"

definition bit_next_pow2 :: "u64 \<Rightarrow> u64" where
  "bit_next_pow2 val =
     (if val AND (val - 1) = 0 then val else shl 1 (unat (bit_bsr64 val)))"

definition bit_next_pow2_portable :: "u64 \<Rightarrow> u64" where
  "bit_next_pow2_portable val =
     (if val AND (val - 1) = 0 then val
      else let val = val - 1;
               val = val OR shr val 1;
               val = val OR shr val 2;
               val = val OR shr val 4;
               val = val OR shr val 8;
               val = val OR shr val 16;
               val = val OR shr val 32
           in val + 1)"

definition bit_popcnt32 :: "u32 \<Rightarrow> u32" where
  "bit_popcnt32 val = of_nat (set_bits_below 32 val)"

definition bit_popcnt64 :: "u64 \<Rightarrow> u32" where
  "bit_popcnt64 val = of_nat (set_bits_below 64 val)"

section \<open>Byte and bit permutations\<close>

definition bit_orc_b :: "u64 \<Rightarrow> u64" where
  "bit_orc_b val =
     (let bytes_hi = 0x8080808080808080;
          bytes_lo = 0x0101010101010101;
          val = (((val OR bytes_hi) - bytes_lo) OR val) AND bytes_hi;
          val = shr val 7
      in shl val 8 - val)"

definition bit_brev8 :: "u64 \<Rightarrow> u64" where
  "bit_brev8 val =
     (let val = (shr val 1 AND 0x5555555555555555) OR shl (val AND 0x5555555555555555) 1;
          val = (shr val 2 AND 0x3333333333333333) OR shl (val AND 0x3333333333333333) 2
      in (shr val 4 AND 0x0F0F0F0F0F0F0F0F) OR shl (val AND 0x0F0F0F0F0F0F0F0F) 4)"

definition bit_interlace16 :: "u32 \<Rightarrow> u32" where
  "bit_interlace16 val =
     (let val = ucast (ucast val :: u16);
          val = (val OR shl val 8) AND 0x00FF00FF;
          val = (val OR shl val 4) AND 0x0F0F0F0F;
          val = (val OR shl val 2) AND 0x33333333
      in (val OR shl val 1) AND 0x55555555)"

definition bit_deinterlace16 :: "u32 \<Rightarrow> u32" where
  "bit_deinterlace16 val =
     (let val = val AND 0x55555555;
          val = (val OR shr val 1) AND 0x33333333;
          val = (val OR shr val 2) AND 0x0F0F0F0F;
          val = (val OR shr val 4) AND 0x00FF00FF
      in ucast (ucast (val OR shr val 8) :: u16))"

definition bit_zip32 :: "u32 \<Rightarrow> u32" where
  "bit_zip32 val = bit_interlace16 val OR shl (bit_interlace16 (shr val 16)) 1"

definition bit_unzip32 :: "u32 \<Rightarrow> u32" where
  "bit_unzip32 val = bit_deinterlace16 val OR shl (bit_deinterlace16 (shr val 1)) 16"

definition byteswap_uint32 :: "u32 \<Rightarrow> u32" where
  "byteswap_uint32 val =
     (let val = (shr val 8 AND 0x00FF00FF) OR shl (val AND 0x00FF00FF) 8
      in shr val 16 OR shl val 16)"

definition byteswap_uint64 :: "u64 \<Rightarrow> u64" where
  "byteswap_uint64 val =
     (let val = (shr val 8 AND 0x00FF00FF00FF00FF) OR shl (val AND 0x00FF00FF00FF00FF) 8;
          val = (shr val 16 AND 0x0000FFFF0000FFFF) OR shl (val AND 0x0000FFFF0000FFFF) 16
      in shr val 32 OR shl val 32)"

section \<open>Carry-less multiplication\<close>

text \<open>
  The loops of the \<^verbatim>\<open>clmul\<close> family, for any word width; the source has a 32-bit and a 64-bit
  copy of each.  The left loop runs until \<open>a\<close> has been shifted out, the right loops until \<open>b\<close> has.
\<close>

function clmul_loop :: "'a::len word \<Rightarrow> 'a word \<Rightarrow> 'a word \<Rightarrow> 'a word" where
  "clmul_loop a b ret =
     (let ret = (if b AND 1 \<noteq> 0 then ret XOR a else ret);
          b = shr b 1;
          a = shl a 1
      in if a \<noteq> 0 then clmul_loop a b ret else ret)"
  by pat_completeness auto

lemma shl_out: "\<exists>k. shl (a :: 'a::len word) k = 0"
  by (rule exI [of _ "LENGTH('a)"]) (simp add: push_bit_eq_mult)

lemma shl_steps_decrease:
  fixes a :: "'a::len word"
  assumes "shl a 1 \<noteq> 0"
  shows "(LEAST k. shl (shl a 1) k = 0) < (LEAST k. shl a k = 0)"
proof -
  let ?k = "LEAST k. shl a k = 0"
  have k: "shl a ?k = 0" by (rule LeastI_ex) (rule shl_out)
  have "?k \<noteq> 0"
  proof
    assume "?k = 0"
    with k have "a = 0" by simp
    with assms show False by simp
  qed
  then obtain m where m: "?k = Suc m" by (cases ?k) auto
  with k have "shl (shl a 1) m = 0" by (simp only: push_bit_push_bit Suc_eq_plus1)
  then have "(LEAST k. shl (shl a 1) k = 0) \<le> m" by (rule Least_le)
  with m show ?thesis by simp
qed

termination clmul_loop
  by (relation "measure (\<lambda>(a, b, ret). LEAST k. shl a k = 0)") (simp_all only: in_measure split_conv shl_steps_decrease wf_measure not_False_eq_True)

function clmulr_loop :: "'a::len word \<Rightarrow> 'a word \<Rightarrow> u32 \<Rightarrow> 'a word \<Rightarrow> 'a word" where
  "clmulr_loop a b i ret =
     (let ret = (if b AND 1 \<noteq> 0 then ret XOR shr a (unat i) else ret);
          b = shr b 1;
          i = i - 1
      in if b \<noteq> 0 then clmulr_loop a b i ret else ret)"
  by pat_completeness auto

function clmulh_loop :: "'a::len word \<Rightarrow> 'a word \<Rightarrow> u32 \<Rightarrow> 'a word \<Rightarrow> 'a word" where
  "clmulh_loop a b i ret =
     (let b = shr b 1;
          ret = (if b AND 1 \<noteq> 0 then ret XOR shr a (unat i) else ret);
          i = i - 1
      in if b \<noteq> 0 then clmulh_loop a b i ret else ret)"
  by pat_completeness auto

lemma shr_one_decrease: "shr (b :: 'a::len word) 1 \<noteq> 0 \<Longrightarrow> unat (shr b 1) < unat b"
proof -
  assume "shr b 1 \<noteq> 0"
  then have "b \<noteq> 0" by auto
  then have "0 < unat b" by (simp add: unat_gt_0)
  then have "unat b div 2 ^ 1 < unat b" by simp
  then show ?thesis unfolding unat_drop_bit_eq by (simp only: drop_bit_eq_div)
qed

termination clmulr_loop
  by (relation "measure (\<lambda>(a, b, i, ret). unat b)") (simp_all only: in_measure split_conv shr_one_decrease wf_measure not_False_eq_True)

termination clmulh_loop
  by (relation "measure (\<lambda>(a, b, i, ret). unat b)") (simp_all only: in_measure split_conv shr_one_decrease wf_measure not_False_eq_True)

declare clmul_loop.simps [simp del] clmulr_loop.simps [simp del] clmulh_loop.simps [simp del]

definition bit_clmul32 :: "u32 \<Rightarrow> u32 \<Rightarrow> u32" where
  "bit_clmul32 a b = clmul_loop a b 0"

definition bit_clmul64 :: "u64 \<Rightarrow> u64 \<Rightarrow> u64" where
  "bit_clmul64 a b = clmul_loop a b 0"

definition bit_clmulh32 :: "u32 \<Rightarrow> u32 \<Rightarrow> u32" where
  "bit_clmulh32 a b = clmulh_loop a b 31 0"

definition bit_clmulh64 :: "u64 \<Rightarrow> u64 \<Rightarrow> u64" where
  "bit_clmulh64 a b = clmulh_loop a b 63 0"

definition bit_clmulr32 :: "u32 \<Rightarrow> u32 \<Rightarrow> u32" where
  "bit_clmulr32 a b = clmulr_loop a b 31 0"

definition bit_clmulr64 :: "u64 \<Rightarrow> u64 \<Rightarrow> u64" where
  "bit_clmulr64 a b = clmulr_loop a b 63 0"

section \<open>High half of a 64-bit product\<close>

definition mulh_uint64 :: "u64 \<Rightarrow> u64 \<Rightarrow> u64" where
  "mulh_uint64 a b = ucast (shr (scast a * scast b :: 128 word) 64)"

definition mulhu_uint64 :: "u64 \<Rightarrow> u64 \<Rightarrow> u64" where
  "mulhu_uint64 a b = ucast (shr (ucast a * ucast b :: 128 word) 64)"

definition mulhsu_uint64 :: "u64 \<Rightarrow> u64 \<Rightarrow> u64" where
  "mulhsu_uint64 a b = mulhu_uint64 a b - (if sint a \<ge> 0 then 0 else b)"

definition lo32 :: "u64 \<Rightarrow> u64" where
  "lo32 x = ucast (ucast x :: u32)"

definition mulh_uint64_portable :: "u64 \<Rightarrow> u64 \<Rightarrow> u64" where
  "mulh_uint64_portable a b =
     (let lo_lo = lo32 a * lo32 b;
          hi_lo = sar a 32 * lo32 b;
          lo_hi = lo32 a * sar b 32;
          hi_hi = sar a 32 * sar b 32;
          cross = sar lo_lo 32 + lo32 hi_lo + lo_hi
      in sar hi_lo 32 + shr cross 32 + hi_hi)"

definition mulhu_uint64_portable :: "u64 \<Rightarrow> u64 \<Rightarrow> u64" where
  "mulhu_uint64_portable a b =
     (let lo_lo = lo32 a * lo32 b;
          hi_lo = shr a 32 * lo32 b;
          lo_hi = lo32 a * shr b 32;
          hi_hi = shr a 32 * shr b 32;
          cross = shr lo_lo 32 + lo32 hi_lo + lo_hi
      in shr hi_lo 32 + shr cross 32 + hi_hi)"

definition mulhsu_uint64_portable :: "u64 \<Rightarrow> u64 \<Rightarrow> u64" where
  "mulhsu_uint64_portable a b =
     (let lo_lo = lo32 a * lo32 b;
          hi_lo = sar a 32 * lo32 b;
          lo_hi = lo32 a * shr b 32;
          hi_hi = sar a 32 * shr b 32;
          cross = sar lo_lo 32 + lo32 hi_lo + lo_hi
      in sar hi_lo 32 + shr cross 32 + hi_hi)"

section \<open>Facts on bit fields\<close>

lemma bit_mask_eq: "bit_mask n = mask n"
  by (simp add: bit_mask_def mask_eq_exp_minus_1 push_bit_eq_mult)

lemma bit_bit_ext_u32 [bitfield_simps]:
  assumes "pos + bits \<le> 32" "0 < bits"
  shows "bit (bit_ext_u32 v pos bits) n \<longleftrightarrow> n < bits \<and> bit v (pos + n)"
  using assms by (auto simp: bit_ext_u32_def bit_simps add.commute)

lemma bit_bit_ext_u64 [bitfield_simps]:
  assumes "pos + bits \<le> 64" "0 < bits"
  shows "bit (bit_ext_u64 v pos bits) n \<longleftrightarrow> n < bits \<and> bit v (pos + n)"
  using assms by (auto simp: bit_ext_u64_def bit_simps add.commute)

lemma bit_bit_ext_i64 [bitfield_simps]:
  assumes "pos + bits \<le> 64" "0 < bits"
  shows "bit (bit_ext_i64 v pos bits) n \<longleftrightarrow> n < 64 \<and> bit v (pos + min n (bits - 1))"
  using assms by (auto simp: bit_ext_i64_def bit_simps min_def add.commute)

lemma bit_bit_ext_i32 [bitfield_simps]:
  assumes "pos + bits \<le> 32" "0 < bits"
  shows "bit (bit_ext_i32 v pos bits) n \<longleftrightarrow> n < 32 \<and> bit v (pos + min n (bits - 1))"
  using assms by (auto simp: bit_ext_i32_def bit_simps min_def add.commute)

lemma bit_bit_replace64 [bitfield_simps]:
  "bit (bit_replace64 v pos bits f) n \<longleftrightarrow>
     n < 64 \<and> (if pos \<le> n \<and> n < pos + bits then bit f (n - pos) else bit v n)"
  by (auto simp: bit_replace64_def bit_mask_eq bit_simps)

lemma bit_bit_replace32 [bitfield_simps]:
  "bit (bit_replace32 v pos bits f) n \<longleftrightarrow>
     n < 32 \<and> (if pos \<le> n \<and> n < pos + bits then bit f (n - pos) else bit v n)"
  by (auto simp: bit_replace32_def bit_mask_eq bit_simps)

lemma bit_cut_replace_same:
  assumes "pos + bits \<le> 64" "0 < bits"
  shows "bit_cut (bit_replace v pos bits f) pos bits = f AND mask bits"
  using assms by (auto intro!: bit_word_eqI simp: bitfield_simps bit_simps)

lemma bit_cut_replace_other:
  assumes "pos + bits \<le> 64" "0 < bits" "pos' + bits' \<le> 64" "0 < bits'"
    and "pos + bits \<le> pos' \<or> pos' + bits' \<le> pos"
  shows "bit_cut (bit_replace v pos bits f) pos' bits' = bit_cut v pos' bits'"
  using assms by (intro bit_word_eqI) (auto simp: bitfield_simps)

lemma bit_replace_cut:
  assumes "pos + bits \<le> 64" "0 < bits"
  shows "bit_replace v pos bits (bit_cut v pos bits) = v"
  using assms by (intro bit_word_eqI) (simp add: bitfield_simps, auto)

lemma bit_cut_eq: "pos + bits \<le> 64 \<Longrightarrow> 0 < bits \<Longrightarrow> bit_cut v pos bits = shr v pos AND mask bits"
  by (auto intro!: bit_word_eqI simp: bitfield_simps bit_simps)

lemma unat_bit_cut_less:
  assumes "pos + bits \<le> 64" "0 < bits"
  shows "unat (bit_cut v pos bits) < 2 ^ bits"
  by (simp add: bit_cut_eq assms word_and_mask_less)

lemma sign_extend_eq:
  assumes "0 < bits" "bits \<le> 64"
  shows "sign_extend v bits = word_of_int (signed_take_bit (bits - 1) (uint v))"
proof (rule bit_word_eqI)
  fix n assume n: "n < LENGTH(64)"
  have "bit (sign_extend v bits) n \<longleftrightarrow> bit v (min n (bits - 1))"
    using n assms by (simp add: bitfield_simps)
  moreover have "bit (word_of_int (signed_take_bit (bits - 1) (uint v)) :: u64) n \<longleftrightarrow> bit v (min n (bits - 1))"
    using n assms by (auto simp: bit_simps min_def)
  ultimately show "bit (sign_extend v bits) n
      = bit (word_of_int (signed_take_bit (bits - 1) (uint v)) :: u64) n" by blast
qed

section \<open>Facts on the counting operations\<close>

text \<open>The highest set bit of a nonzero word.\<close>

lemma highest_bit:
  fixes x :: "'a::len word"
  assumes "x \<noteq> 0"
  obtains h where "h < LENGTH('a)" "bit x h" "\<And>m. h < m \<Longrightarrow> \<not> bit x m"
proof -
  let ?S = "{n. bit x n}"
  have fin: "finite ?S" by (rule finite_subset [of _ "{..<LENGTH('a)}"]) (auto dest: bit_imp_le_length)
  have ne: "?S \<noteq> {}" using assms by (auto simp: bit_eq_iff)
  from Max_in [OF fin ne] have "bit x (Max ?S)" by simp
  moreover have "\<not> bit x m" if "Max ?S < m" for m
    using Max_ge [OF fin, of m] that by (metis mem_Collect_eq leD)
  ultimately show ?thesis using that bit_imp_le_length by blast
qed

lemma lead_zeros_highest:
  assumes "bit x h" "h < n" "\<And>m. h < m \<Longrightarrow> \<not> bit x m"
  shows "lead_zeros n x = n - 1 - h"
  using assms(2)
proof (induction n)
  case (Suc n)
  then show ?case using assms(1,3) by (cases "h = n") auto
qed simp

lemma highest_bit_bounds:
  fixes x :: "'a::len word"
  assumes "bit x h" "\<And>m. h < m \<Longrightarrow> \<not> bit x m"
  shows "2 ^ h \<le> unat x" "unat x < 2 ^ Suc h"
proof -
  have "odd (unat x div 2 ^ h)"
    using assms(1) by (simp add: bit_unsigned_iff flip: bit_iff_odd)
  then show "2 ^ h \<le> unat x" by (metis div_less even_zero leI)
  have "x = take_bit (Suc h) x"
    using assms(2) by (intro bit_word_eqI) (auto simp: bit_simps less_Suc_eq_le intro: leI)
  then have "unat x = take_bit (Suc h) (unat x)"
    by (metis unsigned_take_bit_eq)
  then show "unat x < 2 ^ Suc h" by (metis take_bit_nat_less_exp)
qed

text \<open>One doubling step of the smearing shifts, and the word they all end in.\<close>

lemma smear_step:
  assumes "\<And>n. bit y n \<longleftrightarrow> (\<exists>k<m. bit x (n + k))"
  shows "bit (y OR shr y m) n \<longleftrightarrow> (\<exists>k<m + m. bit x (n + k))"
proof -
  have "bit (y OR shr y m) n \<longleftrightarrow> (\<exists>k<m. bit x (n + k)) \<or> (\<exists>k<m. bit x (n + (m + k)))"
    by (simp add: bit_simps assms ac_simps)
  also have "\<dots> \<longleftrightarrow> (\<exists>k<m + m. bit x (n + k))"
    by (metis add_less_cancel_left le_add_diff_inverse linorder_not_less trans_less_add1)
  finally show ?thesis .
qed

lemma smeared_mask:
  fixes x y :: "'a::len word"
  assumes "\<And>n. bit y n \<longleftrightarrow> (\<exists>k<m. bit x (n + k))" "LENGTH('a) \<le> m"
    and "bit x h" "\<And>m. h < m \<Longrightarrow> \<not> bit x m"
  shows "y = mask (Suc h)"
proof (rule bit_word_eqI)
  fix n assume n: "n < LENGTH('a)"
  have "h < LENGTH('a)" using assms(3) by (rule bit_imp_le_length)
  then have "(\<exists>k<m. bit x (n + k)) \<longleftrightarrow> n \<le> h"
    using assms(2-4) n
    by (metis add.commute diff_less_mono2 le_add_diff_inverse2 le_add_same_cancel2 leI
        less_imp_diff_less order_less_le_trans trans_less_add1 zero_le)
  with n show "bit y n = bit (mask (Suc h) :: 'a word) n"
    by (simp add: assms(1) bit_simps less_Suc_eq_le)
qed

lemma mask_plus_one: "(mask n :: 'a::len word) + 1 = shl 1 n"
  by (simp add: mask_eq_exp_minus_1 push_bit_eq_mult)

lemma clz_lut_lookup:
  assumes "h < 32"
  shows "clz_lut ! unat (shr (shl 1 (Suc h) * 0x077CB531 :: u32) 27) = of_nat (31 - h)"
proof -
  have "list_all (\<lambda>h. clz_lut ! unat (shr (shl 1 (Suc h) * 0x077CB531 :: u32) 27) = of_nat (31 - h)) [0..<32]"
    by code_simp
  from list_all_uptD [OF this assms] show ?thesis .
qed

lemma ctz_lut_lookup:
  assumes "k < 32"
  shows "ctz_lut ! unat (shr (shl 1 k * 0x077CB531 :: u32) 27) = of_nat k"
proof -
  have "list_all (\<lambda>k. ctz_lut ! unat (shr (shl 1 k * 0x077CB531 :: u32) 27) = of_nat k) [0..<32]"
    by code_simp
  from list_all_uptD [OF this assms] show ?thesis .
qed

lemma bit_clz32_portable_eq: "bit_clz32_portable x = bit_clz32 x"
proof (cases "x = 0")
  case False
  then obtain h where h: "h < LENGTH(32)" "bit x h" "\<And>m. h < m \<Longrightarrow> \<not> bit x m"
    by (rule highest_bit) blast
  define y1 where "y1 = x OR shr x 1"
  define y2 where "y2 = y1 OR shr y1 2"
  define y3 where "y3 = y2 OR shr y2 4"
  define y4 where "y4 = y3 OR shr y3 8"
  define y5 where "y5 = y4 OR shr y4 16"
  have b0: "bit x n \<longleftrightarrow> (\<exists>k<1. bit x (n + k))" for n by simp
  have b1: "bit y1 n \<longleftrightarrow> (\<exists>k<2. bit x (n + k))" for n
    using smear_step [OF b0, of n] by (simp add: y1_def numeral_2_eq_2)
  have b2: "bit y2 n \<longleftrightarrow> (\<exists>k<4. bit x (n + k))" for n
    using smear_step [OF b1, of n] by (simp add: y2_def)
  have b3: "bit y3 n \<longleftrightarrow> (\<exists>k<8. bit x (n + k))" for n
    using smear_step [OF b2, of n] by (simp add: y3_def)
  have b4: "bit y4 n \<longleftrightarrow> (\<exists>k<16. bit x (n + k))" for n
    using smear_step [OF b3, of n] by (simp add: y4_def)
  have b5: "bit y5 n \<longleftrightarrow> (\<exists>k<32. bit x (n + k))" for n
    using smear_step [OF b4, of n] by (simp add: y5_def)
  have y5: "y5 = mask (Suc h)" by (rule smeared_mask [OF b5 _ h(2,3)]) auto
  have "clz_lut ! unat (shr ((y5 + 1) * 0x077CB531) 27) = of_nat (31 - h)"
    unfolding y5 mask_plus_one using h(1) by (intro clz_lut_lookup) simp
  then show ?thesis
    using False lead_zeros_highest [OF h(2) _ h(3), of 32] h(1)
    by (simp add: bit_clz32_portable_def bit_clz32_def y5_def y4_def y3_def y2_def y1_def Let_def)
qed (simp add: bit_clz32_portable_def bit_clz32_def)

text \<open>The lowest set bit: a nonzero word is an odd word shifted up by its trailing zeroes.\<close>

lemma trail_zeros_odd:
  fixes x :: "'a::len word"
  shows "\<lbrakk>bit x k; \<And>m. m < k \<Longrightarrow> \<not> bit x m; k < n\<rbrakk> \<Longrightarrow> trail_zeros n x = k"
proof (induction n arbitrary: x k)
  case (Suc n)
  show ?case
  proof (cases k)
    case 0
    with Suc.prems show ?thesis by simp
  next
    case (Suc j)
    have "trail_zeros n (shr x 1) = j"
      using Suc.prems Suc by (intro Suc.IH) (auto simp: bit_simps simp del: drop_bit_Suc drop_bit_0)
    moreover have "\<not> bit x 0" using Suc.prems(2) [of 0] Suc by simp
    ultimately show ?thesis using Suc by simp
  qed
qed simp

lemma lowest_bit:
  fixes x :: "'a::len word"
  assumes "x \<noteq> 0"
  obtains k where "k < LENGTH('a)" "bit x k" "\<And>m. m < k \<Longrightarrow> \<not> bit x m"
proof -
  have ex: "\<exists>n. bit x n" using assms by (auto simp: bit_eq_iff)
  then have "bit x (LEAST n. bit x n)" by (rule LeastI_ex)
  then show ?thesis using that not_less_Least bit_imp_le_length by blast
qed

lemma odd_and_minus: "odd (y :: 'a::len word) \<Longrightarrow> y AND - y = 1"
proof -
  assume "odd y"
  define w where "w = y - 1"
  have w: "even w" "y = w OR 1" using \<open>odd y\<close> by (simp_all add: w_def or_one_eq)
  have "bit ((w OR 1) AND NOT w) n \<longleftrightarrow> bit (1 :: 'a word) n" if "n < LENGTH('a)" for n
    using that w(1) by (cases n) (auto simp: bit_simps bit_0 even_and_iff even_or_iff even_not_iff)
  then have "(w OR 1) AND NOT w = 1" by (intro bit_word_eqI) blast
  then have "y AND NOT w = 1" unfolding w(2) .
  then show ?thesis by (simp only: minus_eq_not_minus_1 w_def)
qed

lemma and_minus_lowest:
  fixes x :: "'a::len word"
  assumes "bit x k" "\<And>m. m < k \<Longrightarrow> \<not> bit x m"
  shows "x AND - x = shl 1 k"
proof -
  have x: "x = shl (shr x k) k"
    using assms(2) by (intro bit_word_eqI) (simp add: bit_simps, metis le_add_diff_inverse leI)
  have "odd (shr x k)" using assms(1) by (simp add: bit_iff_odd_drop_bit)
  then have "shr x k AND - shr x k = 1" by (rule odd_and_minus)
  then have "shl (shr x k AND - shr x k) k = shl 1 k" by simp
  moreover have "shl (- shr x k) k = - x"
    by (metis x mult_minus_left push_bit_eq_mult)
  ultimately show ?thesis
    by (metis x push_bit_and)
qed

lemma bit_ctz32_portable_eq: "bit_ctz32_portable x = bit_ctz32 x"
proof (cases "x = 0")
  case False
  then obtain k where k: "k < LENGTH(32)" "bit x k" "\<And>m. m < k \<Longrightarrow> \<not> bit x m"
    by (rule lowest_bit) blast
  then show ?thesis
    using False trail_zeros_odd [OF k(2,3), of 32] ctz_lut_lookup [of k]
    by (simp add: bit_ctz32_portable_def bit_ctz32_def and_minus_lowest)
qed (simp add: bit_ctz32_portable_def bit_ctz32_def)

section \<open>Facts on carry-less products\<close>

text \<open>
  Coefficient \<open>n\<close> of the product of two polynomials over GF(2) whose coefficients are the bits
  of \<open>a\<close> and \<open>b\<close>.
\<close>

definition gf2_coeff :: "'a::len word \<Rightarrow> 'a word \<Rightarrow> nat \<Rightarrow> bool" where
  "gf2_coeff a b n \<longleftrightarrow> odd (card {i. i \<le> n \<and> bit b i \<and> bit a (n - i)})"

lemma odd_card_Suc:
  assumes "finite {i. Q i}"
  shows "odd (card {i. Q i}) \<longleftrightarrow> (Q 0 \<noteq> odd (card {i. Q (Suc i)}))"
proof -
  have S: "{i. Q i} = (if Q 0 then {0} else {}) \<union> Suc ` {i. Q (Suc i)}"
    by (auto split: if_splits) (metis imageI mem_Collect_eq not0_implies_Suc)+
  have "finite (Suc ` {i. Q (Suc i)})" by (rule finite_subset [OF _ assms]) auto
  then have "card {i. Q i} = (if Q 0 then 1 else 0) + card {i. Q (Suc i)}"
    by (subst S) (auto simp: card_image)
  then show ?thesis by auto
qed

lemma finite_bits: "finite {i. bit (b :: 'a::len word) i \<and> P i}"
  by (rule finite_subset [of _ "{..<LENGTH('a)}"]) (auto dest: bit_imp_le_length)

lemma clmul_loop_bit:
  fixes a b ret :: "'a::len word"
  assumes "n < LENGTH('a)"
  shows "bit (clmul_loop a b ret) n \<longleftrightarrow> (bit ret n \<noteq> gf2_coeff a b n)"
proof (induction a b ret rule: clmul_loop.induct)
  case (1 a b ret)
  define ret' where "ret' = (if b AND 1 \<noteq> 0 then ret XOR a else ret)"
  have step: "bit ret' n \<longleftrightarrow> (bit ret n \<noteq> (bit b 0 \<and> bit a n))"
    using assms by (auto simp: ret'_def bit_simps and_one_bit)
  have coeff: "gf2_coeff a b n \<longleftrightarrow> ((bit b 0 \<and> bit a n) \<noteq> gf2_coeff (shl a 1) (shr b 1) n)"
  proof -
    have "finite {i. i \<le> n \<and> bit b i \<and> bit a (n - i)}" by simp
    moreover have "{i. Suc i \<le> n \<and> bit b (Suc i) \<and> bit a (n - Suc i)} =
        {i. i \<le> n \<and> bit (shr b 1) i \<and> bit (shl a 1) (n - i)}"
      using assms by (auto simp: bit_simps simp del: drop_bit_Suc push_bit_Suc)
    ultimately show ?thesis unfolding gf2_coeff_def by (subst odd_card_Suc) auto
  qed
  show ?case
  proof (cases "shl a 1 = 0")
    case True
    have "clmul_loop a b ret = ret'"
      by (subst clmul_loop.simps) (simp only: True ret'_def Let_def if_False simp_thms)
    moreover have "\<not> gf2_coeff (shl a 1) (shr b 1) n" by (simp only: True) (simp add: gf2_coeff_def)
    ultimately show ?thesis using step coeff by blast
  next
    case False
    have eq: "clmul_loop a b ret = clmul_loop (shl a 1) (shr b 1) ret'"
      by (subst clmul_loop.simps) (simp only: False ret'_def Let_def not_False_eq_True if_True)
    have rec: "bit (clmul_loop (shl a 1) (shr b 1) ret') n \<longleftrightarrow>
        (bit ret' n \<noteq> gf2_coeff (shl a 1) (shr b 1) n)"
      unfolding ret'_def by (rule 1 [OF refl refl refl False])
    show ?thesis unfolding eq rec step coeff by blast
  qed
qed

lemma clmulr_loop_bit:
  fixes a b ret :: "'a::len word"
  assumes "\<And>j. bit b j \<Longrightarrow> j \<le> unat i"
  shows "bit (clmulr_loop a b i ret) n \<longleftrightarrow>
    (bit ret n \<noteq> odd (card {j. bit b j \<and> bit a (n + (unat i - j))}))"
  using assms
proof (induction a b i ret rule: clmulr_loop.induct)
  case (1 a b i ret)
  define ret' where "ret' = (if b AND 1 \<noteq> 0 then ret XOR shr a (unat i) else ret)"
  have step: "bit ret' n \<longleftrightarrow> (bit ret n \<noteq> (bit b 0 \<and> bit a (n + unat i)))"
    by (auto simp: ret'_def bit_simps and_one_bit add.commute)
  have card: "odd (card {j. bit b j \<and> bit a (n + (unat i - j))}) \<longleftrightarrow>
      ((bit b 0 \<and> bit a (n + unat i)) \<noteq> odd (card {j. bit b (Suc j) \<and> bit a (n + (unat i - Suc j))}))"
    by (subst odd_card_Suc [OF finite_bits]) simp
  show ?case
  proof (cases "shr b 1 = 0")
    case True
    have "clmulr_loop a b i ret = ret'"
      by (subst clmulr_loop.simps) (simp only: True ret'_def Let_def if_False simp_thms)
    moreover have "\<not> bit b (Suc j)" for j
      using arg_cong [OF True, of "\<lambda>w. bit w j"] by (simp add: bit_simps del: drop_bit_Suc)
    ultimately show ?thesis using step card by simp
  next
    case False
    have le: "Suc j \<le> unat i" if "bit b (Suc j)" for j using 1(2) [OF that] .
    obtain j where "bit (shr b 1) j" using False by (auto simp: bit_eq_iff)
    then have "bit b (Suc j)" by (simp add: bit_simps del: drop_bit_Suc)
    then have "i \<noteq> 0" using le by fastforce
    then have i1: "unat (i - 1) = unat i - 1" by (rule unat_minus_one)
    have rec: "bit (clmulr_loop a (shr b 1) (i - 1) ret') n \<longleftrightarrow>
        (bit ret' n \<noteq> odd (card {j. bit (shr b 1) j \<and> bit a (n + (unat (i - 1) - j))}))"
      unfolding ret'_def
      by (rule 1(1) [OF refl refl refl False]) (use le i1 in \<open>fastforce simp: bit_simps simp del: drop_bit_Suc\<close>)
    have "{j. bit (shr b 1) j \<and> bit a (n + (unat (i - 1) - j))} =
        {j. bit b (Suc j) \<and> bit a (n + (unat i - Suc j))}"
      by (auto simp: bit_simps i1 simp del: drop_bit_Suc)
    with rec have rec': "bit (clmulr_loop a (shr b 1) (i - 1) ret') n \<longleftrightarrow>
        (bit ret' n \<noteq> odd (card {j. bit b (Suc j) \<and> bit a (n + (unat i - Suc j))}))" by simp
    have eq: "clmulr_loop a b i ret = clmulr_loop a (shr b 1) (i - 1) ret'"
      by (subst clmulr_loop.simps) (simp only: False ret'_def Let_def not_False_eq_True if_True)
    show ?thesis unfolding eq rec' step card by blast
  qed
qed

lemma clmulh_loop_eq:
  "clmulh_loop a b i ret = (if shr b 1 = 0 then ret else clmulr_loop a (shr b 1) i ret)"
proof (induction a b i ret rule: clmulh_loop.induct)
  case (1 a b i ret)
  show ?case
  proof (cases "shr b 1 = 0")
    case True
    then show ?thesis by (subst clmulh_loop.simps) (simp only: Let_def and_zero_eq zero_and_eq simp_thms if_False if_True)
  next
    case False
    show ?thesis
      by (subst clmulh_loop.simps, subst clmulr_loop.simps)
        (simp only: Let_def False not_False_eq_True if_True if_False 1 [OF refl refl refl False],
          cases "shr (shr b 1) 1 = 0", simp_all only: if_True if_False simp_thms)
  qed
qed

section \<open>Wider counting operations\<close>

lemma lead_zeros_clz:
  fixes x :: "'a::len word"
  assumes "bit x h" "\<And>m. h < m \<Longrightarrow> \<not> bit x m"
  shows "lead_zeros (LENGTH('a)) x = LENGTH('a) - 1 - h"
  using assms by (intro lead_zeros_highest) (auto dest: bit_imp_le_length)

lemma bit_clz64_portable_eq: "bit_clz64_portable x = bit_clz64 x"
proof (cases "x = 0")
  case False
  then obtain h where h: "h < LENGTH(64)" "bit x h" "\<And>m. h < m \<Longrightarrow> \<not> bit x m"
    by (rule highest_bit) blast
  then have h64: "h < 64" by simp
  have clz: "bit_clz64 x = of_nat (63 - h)"
    using False lead_zeros_clz [OF h(2,3)] by (simp add: bit_clz64_def)
  have half: "bit_clz32 y = of_nat (31 - k)" if "bit y k" "\<And>m. k < m \<Longrightarrow> \<not> bit y m" for y k
    using lead_zeros_clz [OF that] that(1) by (auto simp: bit_clz32_def)
  show ?thesis
  proof (cases "h < 32")
    case True
    have "shr x 32 = 0" using h True by (intro bit_word_eqI) (auto simp: bit_simps)
    moreover have "bit_clz32 (ucast x) = of_nat (31 - h)"
      using h True by (intro half) (auto simp: bit_simps)
    moreover have "of_nat (63 - h) = 32 + (of_nat (31 - h) :: u32)"
      using True by (simp add: of_nat_diff)
    ultimately show ?thesis
      using False clz by (simp add: bit_clz64_portable_def bit_clz32_portable_eq)
  next
    case hi: False
    then have "bit (shr x 32) (h - 32)" using h by (simp add: bit_simps)
    then have "shr x 32 \<noteq> 0" by auto
    moreover have "bit_clz32 (ucast (shr x 32)) = of_nat (31 - (h - 32))"
      using h hi h64 by (intro half) (auto simp: bit_simps)
    moreover have "of_nat (63 - h) = (of_nat (31 - (h - 32)) :: u32)" using hi by simp
    ultimately show ?thesis
      using False clz by (simp add: bit_clz64_portable_def bit_clz32_portable_eq)
  qed
qed (simp add: bit_clz64_portable_def bit_clz64_def)

lemma bit_ctz64_portable_eq: "bit_ctz64_portable x = bit_ctz64 x"
proof (cases "x = 0")
  case False
  then obtain k where k: "k < LENGTH(64)" "bit x k" "\<And>m. m < k \<Longrightarrow> \<not> bit x m"
    by (rule lowest_bit) blast
  then have k64: "k < 64" by simp
  have ctz: "bit_ctz64 x = of_nat k"
    using False trail_zeros_odd [OF k(2,3), of 64] k64 by (simp add: bit_ctz64_def)
  have half: "bit_ctz32 y = of_nat j" if "bit y j" "\<And>m. m < j \<Longrightarrow> \<not> bit y m" for y j
    using trail_zeros_odd [OF that, of 32] that(1) by (auto simp: bit_ctz32_def dest: bit_imp_le_length)
  show ?thesis
  proof (cases "k < 32")
    case True
    then have "bit (ucast x :: u32) k" using k by (simp add: bit_simps)
    then have "(ucast x :: u32) \<noteq> 0" by auto
    moreover have "bit_ctz32 (ucast x) = of_nat k"
      using k True by (intro half) (auto simp: bit_simps)
    ultimately show ?thesis
      using False ctz by (simp add: bit_ctz64_portable_def bit_ctz32_portable_eq of_cbool_def)
  next
    case hi: False
    then have "(ucast x :: u32) = 0" using k by (intro bit_word_eqI) (auto simp: bit_simps)
    moreover have "bit_ctz32 (ucast (shr x 32)) = of_nat (k - 32)"
      using k hi k64 by (intro half) (auto simp: bit_simps)
    moreover have "of_nat (k - 32) + 32 = (of_nat k :: u32)" using hi
      by (metis le_add_diff_inverse2 linorder_not_less of_nat_add of_nat_numeral)
    ultimately show ?thesis
      using False ctz by (simp add: bit_ctz64_portable_def bit_ctz32_portable_eq of_cbool_def)
  qed
qed (simp add: bit_ctz64_portable_def bit_ctz64_def)

lemma bit_bsr64_highest:
  assumes "bit x h" "\<And>m. h < m \<Longrightarrow> \<not> bit x m"
  shows "unat (bit_bsr64 x) = h"
proof -
  have x: "x \<noteq> 0" and h: "h < 64" using assms(1) by (auto dest: bit_imp_le_length)
  have "list_all (\<lambda>h. unat ((63 :: u32) XOR of_nat (63 - h)) = h) [0..<64]" by code_simp
  from list_all_uptD [OF this h] show ?thesis
    using x lead_zeros_clz [OF assms] by (simp add: bit_bsr64_def bit_clz64_def)
qed

section \<open>Facts on high products\<close>

lemma high_half_128:
  "(ucast (shr (word_of_int i :: 128 word) 64) :: u64) = word_of_int (i div 2 ^ 64)"
proof -
  have "(ucast (shr (word_of_int i :: 128 word) 64) :: u64) = word_of_int (drop_bit 64 i)"
    by (intro bit_word_eqI) (simp add: bit_simps)
  then show ?thesis by (simp only: drop_bit_eq_div)
qed

lemma mulhu_uint64_eq: "mulhu_uint64 a b = word_of_int (uint a * uint b div 2 ^ 64)"
proof -
  have "(ucast a * ucast b :: 128 word) = word_of_int (uint a * uint b)"
    by simp
  then show ?thesis unfolding mulhu_uint64_def by (simp only: high_half_128)
qed

lemma mulh_uint64_eq: "mulh_uint64 a b = word_of_int (sint a * sint b div 2 ^ 64)"
proof -
  have "(scast a * scast b :: 128 word) = word_of_int (sint a * sint b)"
    by simp
  then show ?thesis unfolding mulh_uint64_def by (simp only: high_half_128)
qed

lemma sint_uint_64: "sint (a :: u64) = uint a - (if sint a \<ge> 0 then 0 else 2 ^ 64)"
proof -
  have u: "uint a = sint a mod 2 ^ 64" by (simp add: uint_sint take_bit_eq_mod)
  have b: "- (2 ^ 63) \<le> sint a" "sint a < 2 ^ 63"
    using sint_ge [of a] sint_lt [of a] by simp_all
  have "sint a mod 2 ^ 64 = (sint a + 2 ^ 64) mod 2 ^ 64" by simp
  also have "\<dots> = sint a + 2 ^ 64" if "sint a < 0" using that b by (intro mod_pos_pos_trivial) auto
  finally show ?thesis using u b by (auto simp: mod_pos_pos_trivial)
qed

lemma mulhsu_uint64_eq: "mulhsu_uint64 a b = word_of_int (sint a * uint b div 2 ^ 64)"
proof (cases "sint a \<ge> 0")
  case True
  then have "sint a = uint a" using sint_uint_64 [of a] by simp
  with True show ?thesis by (simp add: mulhsu_uint64_def mulhu_uint64_eq)
next
  case False
  then have "sint a * uint b = uint a * uint b + (- uint b) * 2 ^ 64"
    by (subst sint_uint_64) (simp add: left_diff_distrib)
  then have "sint a * uint b div 2 ^ 64 = uint a * uint b div 2 ^ 64 - uint b"
    using div_mult_self1 [of "2 ^ 64 :: int" "uint a * uint b" "- uint b"] by simp
  with False show ?thesis by (simp add: mulhsu_uint64_def mulhu_uint64_eq)
qed

text \<open>The schoolbook product on 32-bit halves has no overflow and yields the high half.\<close>

lemma schoolbook_high:
  fixes ah al bh bl B :: nat
  assumes "0 < B"
  shows "(ah * B + al) * (bh * B + bl) div (B * B) =
    ah * bl div B + (al * bl div B + ah * bl mod B + al * bh) div B + ah * bh"
proof -
  have "(ah * B + al) * (bh * B + bl) = al * bl + (ah * bl + al * bh + ah * bh * B) * B"
    by (simp add: algebra_simps)
  then have "(ah * B + al) * (bh * B + bl) div (B * B) =
      (al * bl div B + (ah * bl + al * bh + ah * bh * B)) div B"
    using assms by (simp add: div_mult2_eq add.commute)
  also have "al * bl div B + (ah * bl + al * bh + ah * bh * B) =
      (al * bl div B + ah * bl mod B + al * bh) + (ah * bl div B + ah * bh) * B"
    by (simp add: algebra_simps)
  finally show ?thesis using assms by simp
qed

lemma unat_lo32: "unat (lo32 x) = unat x mod 2 ^ 32"
proof -
  have "lo32 x = take_bit 32 x" unfolding lo32_def by (intro bit_word_eqI) (auto simp: bit_simps)
  then have "unat (lo32 x) = take_bit 32 (unat x)" by (simp only: unsigned_take_bit_eq)
  then show ?thesis by (simp only: take_bit_eq_mod)
qed

lemma unat_shr32: "unat (shr (x :: u64) 32) = unat x div 2 ^ 32"
  unfolding unat_drop_bit_eq by (simp only: drop_bit_eq_div)

lemma unat_mult_64: "unat (x :: u64) * unat y < 2 ^ 64 \<Longrightarrow> unat (x * y) = unat x * unat y"
  by (simp add: unat_word_ariths)

lemma unat_add_64: "unat (x :: u64) + unat y < 2 ^ 64 \<Longrightarrow> unat (x + y) = unat x + unat y"
  by (simp add: unat_word_ariths)

lemma mult_32_bound:
  fixes x y :: nat
  assumes "x < 2 ^ 32" "y < 2 ^ 32"
  shows "x * y \<le> (2 ^ 32 - 1) * (2 ^ 32 - 1)"
  using assms by (intro mult_le_mono) simp_all

lemma div32_bound: "x \<le> (2 ^ 32 - 1) * (2 ^ 32 - 1) \<Longrightarrow> x div 2 ^ 32 < (2 :: nat) ^ 32 - 1"
  by (rule less_mult_imp_div_less) simp

lemma mulhu_uint64_portable_eq: "mulhu_uint64_portable a b = mulhu_uint64 a b"
proof -
  define al ah bl bh where "al = unat a mod 2 ^ 32" and "ah = unat a div 2 ^ 32"
    and "bl = unat b mod 2 ^ 32" and "bh = unat b div 2 ^ 32"
  have ab: "unat a = ah * 2 ^ 32 + al" "unat b = bh * 2 ^ 32 + bl"
    by (simp_all add: al_def ah_def bl_def bh_def)
  have "unat a < 2 ^ 64" "unat b < 2 ^ 64" using unsigned_less [of a] unsigned_less [of b] by simp_all
  then have lt: "al < 2 ^ 32" "ah < 2 ^ 32" "bl < 2 ^ 32" "bh < 2 ^ 32"
    by (simp_all add: al_def ah_def bl_def bh_def less_mult_imp_div_less)
  note bounds = mult_32_bound [OF lt(1) lt(3)] mult_32_bound [OF lt(2) lt(3)]
    mult_32_bound [OF lt(1) lt(4)] mult_32_bound [OF lt(2) lt(4)]
  have ll: "unat (lo32 a * lo32 b) = al * bl"
    using bounds(1) by (subst unat_mult_64) (simp_all add: unat_lo32 al_def bl_def)
  have hl: "unat (shr a 32 * lo32 b) = ah * bl"
    using bounds(2) by (subst unat_mult_64) (simp_all add: unat_lo32 unat_shr32 ah_def bl_def)
  have lh: "unat (lo32 a * shr b 32) = al * bh"
    using bounds(3) by (subst unat_mult_64) (simp_all add: unat_lo32 unat_shr32 al_def bh_def)
  have hh: "unat (shr a 32 * shr b 32) = ah * bh"
    using bounds(4) by (subst unat_mult_64) (simp_all add: unat_shr32 ah_def bh_def)
  define cross where "cross = shr (lo32 a * lo32 b) 32 + lo32 (shr a 32 * lo32 b) + lo32 a * shr b 32"
  have s1: "al * bl div 2 ^ 32 < 2 ^ 32 - 1" "ah * bl div 2 ^ 32 < 2 ^ 32 - 1"
    by (rule div32_bound bounds)+
  have s2: "ah * bl mod 2 ^ 32 < 2 ^ 32" by simp
  have c1: "unat (shr (lo32 a * lo32 b) 32 + lo32 (shr a 32 * lo32 b)) = al * bl div 2 ^ 32 + ah * bl mod 2 ^ 32"
    using s1 s2 by (subst unat_add_64) (simp_all add: unat_shr32 unat_lo32 ll hl)
  have c: "unat cross = al * bl div 2 ^ 32 + ah * bl mod 2 ^ 32 + al * bh"
    unfolding cross_def using s1 s2 bounds(3) by (subst unat_add_64) (simp_all add: c1 lh)
  have c3: "(al * bl div 2 ^ 32 + ah * bl mod 2 ^ 32 + al * bh) div 2 ^ 32 < 2 ^ 32"
    using s1(1) s2 bounds(3) by (intro less_mult_imp_div_less) simp
  have d1: "unat (shr (shr a 32 * lo32 b) 32 + shr cross 32) =
      ah * bl div 2 ^ 32 + (al * bl div 2 ^ 32 + ah * bl mod 2 ^ 32 + al * bh) div 2 ^ 32"
    using s1 c3 by (subst unat_add_64) (simp_all add: unat_shr32 hl c)
  have eq: "(ah * 2 ^ 32 + al) * (bh * 2 ^ 32 + bl) div (2 ^ 32 * 2 ^ 32) =
      ah * bl div 2 ^ 32 + (al * bl div 2 ^ 32 + ah * bl mod 2 ^ 32 + al * bh) div 2 ^ 32 + ah * bh"
    by (rule schoolbook_high) simp
  have "unat a * unat b < 2 ^ 64 * 2 ^ 64"
    using \<open>unat a < 2 ^ 64\<close> \<open>unat b < 2 ^ 64\<close> by (intro mult_strict_mono) simp_all
  then have top: "unat a * unat b div (2 ^ 32 * 2 ^ 32) < 2 ^ 64" by (simp add: less_mult_imp_div_less)
  have "unat (mulhu_uint64_portable a b) = unat a * unat b div (2 ^ 32 * 2 ^ 32)"
    unfolding mulhu_uint64_portable_def Let_def cross_def [symmetric]
    by (subst unat_add_64) (use top eq in \<open>simp_all only: d1 hh ab\<close>)
  moreover have "unat (mulhu_uint64 a b) = unat a * unat b div 2 ^ 64"
  proof -
    have "uint a * uint b div 2 ^ 64 = int (unat a * unat b div 2 ^ 64)"
      by (simp only: zdiv_int uint_nat of_nat_mult of_nat_power of_nat_numeral)
    then have "mulhu_uint64 a b = of_nat (unat a * unat b div 2 ^ 64)"
      unfolding mulhu_uint64_eq by simp
    then show ?thesis using top by (simp add: unsigned_of_nat take_bit_nat_eq_self)
  qed
  ultimately show ?thesis by (intro word_unat_eq_iff [THEN iffD2]) simp
qed

section \<open>Facts on rounding to a power of two\<close>

lemma bit_next_pow2_portable_eq:
  assumes "val AND (val - 1) \<noteq> 0" "bit (val - 1) h" "\<And>m. h < m \<Longrightarrow> \<not> bit (val - 1) m"
  shows "bit_next_pow2_portable val = shl 1 (Suc h)"
proof -
  define x where "x = val - 1"
  define y1 where "y1 = x OR shr x 1"
  define y2 where "y2 = y1 OR shr y1 2"
  define y3 where "y3 = y2 OR shr y2 4"
  define y4 where "y4 = y3 OR shr y3 8"
  define y5 where "y5 = y4 OR shr y4 16"
  define y6 where "y6 = y5 OR shr y5 32"
  have b0: "bit x n \<longleftrightarrow> (\<exists>k<1. bit x (n + k))" for n by simp
  have b1: "bit y1 n \<longleftrightarrow> (\<exists>k<2. bit x (n + k))" for n
    using smear_step [OF b0, of n] by (simp add: y1_def numeral_2_eq_2)
  have b2: "bit y2 n \<longleftrightarrow> (\<exists>k<4. bit x (n + k))" for n
    using smear_step [OF b1, of n] by (simp add: y2_def)
  have b3: "bit y3 n \<longleftrightarrow> (\<exists>k<8. bit x (n + k))" for n
    using smear_step [OF b2, of n] by (simp add: y3_def)
  have b4: "bit y4 n \<longleftrightarrow> (\<exists>k<16. bit x (n + k))" for n
    using smear_step [OF b3, of n] by (simp add: y4_def)
  have b5: "bit y5 n \<longleftrightarrow> (\<exists>k<32. bit x (n + k))" for n
    using smear_step [OF b4, of n] by (simp add: y5_def)
  have b6: "bit y6 n \<longleftrightarrow> (\<exists>k<64. bit x (n + k))" for n
    using smear_step [OF b5, of n] by (simp add: y6_def)
  have "y6 = mask (Suc h)" by (rule smeared_mask [OF b6]) (use assms(2,3) in \<open>auto simp: x_def\<close>)
  then have "y6 + 1 = shl 1 (Suc h)" by (simp only: mask_plus_one)
  then show ?thesis
    unfolding y6_def y5_def y4_def y3_def y2_def y1_def x_def bit_next_pow2_portable_def Let_def
    using assms(1) by (simp only: if_False)
qed

lemma exp_and_pred: "shl (1 :: u64) h AND (shl 1 h - 1) = 0"
  by (simp only: mask_plus_one [symmetric] add_diff_cancel) (auto intro!: bit_word_eqI simp: mask_plus_one bit_simps)

lemma unat_shl_one: "h < 64 \<Longrightarrow> unat (shl 1 h :: u64) = 2 ^ h"
  unfolding unsigned_push_bit_eq by (simp add: take_bit_nat_eq_self push_bit_eq_mult)

section \<open>Properties\<close>

text \<open>
  Bit-field access is a lens: for a field of at least one bit inside a 64-bit word, reading a
  replaced field gives the new value cut to the field's width, a disjoint field is not
  affected, and writing back what was read changes nothing.
\<close>

theorem bit_field_laws:
  assumes "pos + bits \<le> 64" "0 < bits" "pos' + bits' \<le> 64" "0 < bits'"
    and "pos + bits \<le> pos' \<or> pos' + bits' \<le> pos"
  shows "bit_ext_u64 (bit_replace64 v pos bits f) pos bits = f AND bit_mask bits
       \<and> bit_ext_u64 (bit_replace64 v pos bits f) pos' bits' = bit_ext_u64 v pos' bits'
       \<and> bit_replace64 v pos bits (bit_ext_u64 v pos bits) = v"
  using assms by (simp add: bit_cut_replace_same bit_cut_replace_other bit_replace_cut bit_mask_eq)

theorem bit_field_laws_witness:
  "bit_ext_u64 (bit_replace64 0xFFFF 11 2 1) 11 2 = 1
   \<and> bit_ext_u64 (bit_replace64 0xFFFF 11 2 1) 13 3 = 7"
  using bit_field_laws [of 11 2 13 3 "0xFFFF" 1] by (simp add: bit_mask_def bit_ext_u64_def)

text \<open>
  The portable zero counts agree with the compiler builtins on every input: the de Bruijn
  multiply-and-lookup of the 32-bit counts, and the 64-bit counts composed of them.
\<close>

theorem zero_counts_portable:
  "bit_clz32_portable x = bit_clz32 x \<and> bit_ctz32_portable x = bit_ctz32 x
   \<and> bit_clz64_portable y = bit_clz64 y \<and> bit_ctz64_portable y = bit_ctz64 y"
  by (simp add: bit_clz32_portable_eq bit_ctz32_portable_eq bit_clz64_portable_eq bit_ctz64_portable_eq)

text \<open>
  C35. The carry-less multiply loops terminate with the coefficients of the product of the
  operands as polynomials over GF(2): the low half, the high half, and the half from
  coefficient 63 on.
\<close>

theorem clmul_polynomial:
  "(bit (bit_clmul64 a b) n \<longleftrightarrow> n < 64 \<and> gf2_coeff a b n)
   \<and> (bit (bit_clmulh64 a b) n \<longleftrightarrow> gf2_coeff a b (n + 64))
   \<and> (bit (bit_clmulr64 a b) n \<longleftrightarrow> gf2_coeff a b (n + 63))"
proof (intro conjI)
  show "bit (bit_clmul64 a b) n \<longleftrightarrow> n < 64 \<and> gf2_coeff a b n"
    using clmul_loop_bit [of n a b 0] bit_imp_le_length [of "clmul_loop a b 0" n]
    by (auto simp: bit_clmul64_def)
next
  have lt: "j < 64" if "bit (w :: u64) j" for w j using bit_imp_le_length [OF that] by simp
  have "{j. bit b j \<and> bit a (n + (63 - j))} = {i. i \<le> n + 63 \<and> bit b i \<and> bit a (n + 63 - i)}"
    using lt by fastforce
  moreover have "bit (bit_clmulr64 a b) n \<longleftrightarrow> odd (card {j. bit b j \<and> bit a (n + (63 - j))})"
    using clmulr_loop_bit [of b 63 a 0 n] lt by (simp add: bit_clmulr64_def less_Suc_eq_le [symmetric])
  ultimately show "bit (bit_clmulr64 a b) n \<longleftrightarrow> gf2_coeff a b (n + 63)"
    by (simp add: gf2_coeff_def)
  let ?b = "shr b 1"
  have b': "bit ?b j \<longleftrightarrow> bit b (Suc j)" for j by (simp add: bit_simps del: drop_bit_Suc)
  have "\<not> bit a (n + 64)" using lt by fastforce
  then have "odd (card {i. i \<le> n + 64 \<and> bit b i \<and> bit a (n + 64 - i)}) \<longleftrightarrow>
      odd (card {j. Suc j \<le> n + 64 \<and> bit b (Suc j) \<and> bit a (n + 64 - Suc j)})"
    by (subst odd_card_Suc) auto
  moreover have "{j. Suc j \<le> n + 64 \<and> bit b (Suc j) \<and> bit a (n + 64 - Suc j)} =
      {j. bit ?b j \<and> bit a (n + (63 - j))}"
  proof (rule Collect_cong)
    fix j
    show "Suc j \<le> n + 64 \<and> bit b (Suc j) \<and> bit a (n + 64 - Suc j) \<longleftrightarrow> bit ?b j \<and> bit a (n + (63 - j))"
    proof (cases "bit b (Suc j)")
      case True
      from lt [OF this] have "n + 64 - Suc j = n + (63 - j)" "Suc j \<le> n + 64" by simp_all
      then show ?thesis unfolding b' by simp
    next
      case False
      then show ?thesis unfolding b' by simp
    qed
  qed
  moreover have "bit (bit_clmulh64 a b) n \<longleftrightarrow> odd (card {j. bit ?b j \<and> bit a (n + (63 - j))})"
  proof (cases "?b = 0")
    case True
    then show ?thesis unfolding bit_clmulh64_def clmulh_loop_eq by simp
  next
    case False
    then show ?thesis
      unfolding bit_clmulh64_def clmulh_loop_eq
      using clmulr_loop_bit [of ?b 63 a 0 n] lt by (simp add: less_Suc_eq_le [symmetric])
  qed
  ultimately show "bit (bit_clmulh64 a b) n \<longleftrightarrow> gf2_coeff a b (n + 64)"
    by (simp add: gf2_coeff_def)
qed

text \<open>
  The high-half multiplications of the build with 128-bit integers are the exact
  mathematical products shifted right by 64, for all three signedness combinations, and the
  portable unsigned one equals it.
\<close>

theorem high_products:
  "mulh_uint64 a b = word_of_int (sint a * sint b div 2 ^ 64)
   \<and> mulhsu_uint64 a b = word_of_int (sint a * uint b div 2 ^ 64)
   \<and> mulhu_uint64 a b = word_of_int (uint a * uint b div 2 ^ 64)
   \<and> mulhu_uint64_portable a b = mulhu_uint64 a b"
  by (simp add: mulh_uint64_eq mulhsu_uint64_eq mulhu_uint64_eq mulhu_uint64_portable_eq)

text \<open>
  The portable signed high products are not the product's high half: the carry out of the low
  product is shifted arithmetically and the cross sum logically, so that 1 times -1 has the
  high half \<open>0xFFFFFFFF\<close>, and the signed-unsigned product of two 32-bit operands is not zero.
\<close>

theorem mulh_portable_wrong:
  "mulh_uint64_portable 1 (- 1) = 0xFFFFFFFF \<and> mulh_uint64 1 (- 1) = - 1
   \<and> mulhsu_uint64_portable 0xFFFFFFFF 0xFFFFFFFF \<noteq> mulhsu_uint64 0xFFFFFFFF 0xFFFFFFFF"
  by code_simp

text \<open>
  On 64-bit hosts with a count-leading-zeroes builtin, rounding a value that is not a power
  of two goes to the power of two below it, half of what the portable branch returns.
\<close>

theorem bit_next_pow2_rounds_down:
  assumes "val AND (val - 1) \<noteq> 0" and "unat val \<le> 2 ^ 63"
  shows "unat (bit_next_pow2 val) < unat val \<and> unat val < unat (bit_next_pow2_portable val)
       \<and> unat (bit_next_pow2_portable val) = 2 * unat (bit_next_pow2 val)"
proof -
  have "val \<noteq> 0" "val - 1 \<noteq> 0" using assms(1) by auto
  obtain h where h: "bit val h" "\<And>m. h < m \<Longrightarrow> \<not> bit val m" using \<open>val \<noteq> 0\<close> by (rule highest_bit) blast
  obtain k where k: "bit (val - 1) k" "\<And>m. k < m \<Longrightarrow> \<not> bit (val - 1) m"
    using \<open>val - 1 \<noteq> 0\<close> by (rule highest_bit) blast
  have h64: "h < 64" using bit_imp_le_length [OF h(1)] by simp
  have pred: "unat (val - 1) = unat val - 1" using \<open>val \<noteq> 0\<close> by (rule unat_minus_one)
  note bh = highest_bit_bounds [OF h] and bk = highest_bit_bounds [OF k]
  have low: "bit_next_pow2 val = shl 1 h"
    using assms(1) by (simp add: bit_next_pow2_def bit_bsr64_highest [OF h])
  have "unat val \<noteq> 2 ^ h"
  proof
    assume "unat val = 2 ^ h"
    then have "val = shl 1 h" using unat_shl_one [OF h64] by (simp add: word_unat_eq_iff)
    with assms(1) exp_and_pred show False by metis
  qed
  with bh have lt: "2 ^ h < unat val" "unat val < 2 ^ Suc h" by simp_all
  then have "2 ^ h < (2 :: nat) ^ Suc k" "2 ^ k < (2 :: nat) ^ Suc h" using bk pred by linarith+
  then have "h < Suc k" "k < Suc h"
    by (simp_all only: power_strict_increasing_iff one_less_numeral_iff semiring_norm)
  then have "k = h" by simp
  then have up: "bit_next_pow2_portable val = shl 1 (Suc h)"
    using bit_next_pow2_portable_eq [OF assms(1) k] by simp
  have "(2 :: nat) ^ h < 2 ^ 63" using lt(1) assms(2) by linarith
  then have "h < 63" by (simp only: power_strict_increasing_iff one_less_numeral_iff semiring_norm)
  then have "Suc h < 64" by simp
  with lt show ?thesis by (simp only: low up unat_shl_one h64) simp
qed

theorem bit_next_pow2_rounds_down_witness: "bit_next_pow2 12 = 8 \<and> bit_next_pow2_portable 12 = 16
    \<and> unat (bit_next_pow2 12) < unat (12 :: u64)"
proof -
  have "bit_next_pow2 12 = 8 \<and> bit_next_pow2_portable 12 = 16" by code_simp
  then show ?thesis using bit_next_pow2_rounds_down [of 12] by simp
qed

end
