(* ===== verification/Hashmap.thy ===== *)
theory Hashmap
  imports BitOps
begin

text \<open>
  The open-addressing hash map of \<^verbatim>\<open>src/util/hashmap.c\<close> and \<^verbatim>\<open>src/util/hashmap.h\<close> on a 64-bit host.
  Keys are \<^verbatim>\<open>size_t\<close>, values are pointers, and the null pointer marks an empty cell.  Growing the map
  inserts its entries into a new one, which may grow again: the mutual recursion of the source takes
  fuel, and runs out of it only if the map would grow more often than that.
\<close>

section \<open>State\<close>

record hashmap_cell =
  hc_key :: u64
  hc_val :: u64

record hashmap =
  hm_data :: "hashmap_cell list option"
  hm_mask :: u64
  hm_count :: u64

abbreviation (input) HASHMAP_MAX_PROBES :: nat where "HASHMAP_MAX_PROBES \<equiv> 256"

definition hashmap_init :: hashmap where
  "hashmap_init = \<lparr>hm_data = None, hm_mask = 0, hm_count = 0\<rparr>"

definition hashmap_free :: "hashmap \<Rightarrow> hashmap" where
  "hashmap_free m = \<lparr>hm_data = None, hm_mask = 0, hm_count = 0\<rparr>"

definition hashmap_hash :: "u64 \<Rightarrow> u64" where
  "hashmap_hash k =
     (let k = k XOR shl k 21;
          k = k XOR shr k 17;
          k = k XOR shr k 35
      in k XOR shr k 51)"

definition hashmap_size :: "hashmap \<Rightarrow> u64" where
  "hashmap_size m = hm_count m"

definition hashmap_capacity :: "hashmap \<Rightarrow> u64" where
  "hashmap_capacity m = hm_mask m + 1"

section \<open>Lookup\<close>

text \<open>
  The loop over the probes: the cell at which it stops, which is empty or has the key, unless there
  is none among the cells that it may look at.
\<close>

primrec hashmap_probe :: "u64 \<Rightarrow> hashmap_cell list \<Rightarrow> u64 \<Rightarrow> u64 \<Rightarrow> nat \<Rightarrow> u64 \<Rightarrow> u64 option" where
  "hashmap_probe msk d hash key 0 i = None"
| "hashmap_probe msk d hash key (Suc n) i =
     (let index = (hash + i) AND msk in
      if hc_key (d ! unat index) = key \<or> hc_val (d ! unat index) = 0 then Some index
      else hashmap_probe msk d hash key n (i + 1))"

definition hashmap_get_internal :: "hashmap \<Rightarrow> u64 \<Rightarrow> u64 \<Rightarrow> u64" where
  "hashmap_get_internal m hash key =
     (case hm_data m of
        None \<Rightarrow> 0
      | Some d \<Rightarrow>
          (case hashmap_probe (hm_mask m) d hash key HASHMAP_MAX_PROBES 0 of
             None \<Rightarrow> 0
           | Some index \<Rightarrow> hc_val (d ! unat index)))"

definition hashmap_get_ptr :: "hashmap \<Rightarrow> u64 \<Rightarrow> u64" where
  "hashmap_get_ptr m key =
     (let hash = hashmap_hash key in
      case hm_data m of
        None \<Rightarrow> 0
      | Some d \<Rightarrow>
          (let index = unat (hash AND hm_mask m) in
           if hc_key (d ! index) = key then hc_val (d ! index)
           else if hc_val (d ! index) \<noteq> 0 then hashmap_get_internal m hash key
           else 0))"

section \<open>Deletion\<close>

text \<open>
  Closing the hole at \<open>index\<close> that a deletion leaves: the cells after it are moved back, unless their
  own probe sequence starts after the hole.  Both nested loops are one recursion, entered with the
  value of the hole cleared.
\<close>

partial_function (option) rebalance_loop :: "u64 \<Rightarrow> hashmap_cell list \<Rightarrow> u64 \<Rightarrow> u64 \<Rightarrow> hashmap_cell list option" where
  "rebalance_loop msk d index j =
     (let j = (j + 1) AND msk in
      if hc_val (d ! unat j) = 0 then Some d
      else
        (let k = hashmap_hash (hc_key (d ! unat j)) AND msk in
         if (if index \<le> j then index < k \<and> k \<le> j else index < k \<or> k \<le> j) then rebalance_loop msk d index j
         else
           (let d = d[unat index := d ! unat j]
            in rebalance_loop msk (d[unat j := (d ! unat j)\<lparr>hc_val := 0\<rparr>]) j j)))"

declare rebalance_loop.simps [code]

definition hashmap_rebalance_internal :: "hashmap \<Rightarrow> hashmap_cell list \<Rightarrow> u64 \<Rightarrow> hashmap option" where
  "hashmap_rebalance_internal m d index =
     (case rebalance_loop (hm_mask m) (d[unat index := (d ! unat index)\<lparr>hc_val := 0\<rparr>]) index index of
        None \<Rightarrow> None
      | Some d \<Rightarrow> Some (m\<lparr>hm_data := Some d\<rparr>))"

section \<open>Insertion\<close>

text \<open>
  The inlined fast path and the rebuilding of a map, both over the out-of-line insertion that they
  call.
\<close>

definition put_ptr_with :: "(hashmap \<Rightarrow> u64 \<Rightarrow> u64 \<Rightarrow> u64 \<Rightarrow> hashmap option) \<Rightarrow> hashmap \<Rightarrow> u64 \<Rightarrow> u64 \<Rightarrow> hashmap option" where
  "put_ptr_with put_internal m key val =
     (let hash = hashmap_hash key in
      case hm_data m of
        None \<Rightarrow> put_internal m hash key val
      | Some d \<Rightarrow>
          (let index = unat (hash AND hm_mask m) in
           if hc_val (d ! index) = 0
           then Some (if val \<noteq> 0 then m\<lparr>hm_data := Some (d[index := \<lparr>hc_key = key, hc_val = val\<rparr>]), hm_count := hm_count m + 1\<rparr> else m)
           else if hc_key (d ! index) = key \<and> val \<noteq> 0
           then Some (m\<lparr>hm_data := Some (d[index := (d ! index)\<lparr>hc_val := val\<rparr>])\<rparr>)
           else put_internal m hash key val))"

primrec put_cells :: "(hashmap \<Rightarrow> u64 \<Rightarrow> u64 \<Rightarrow> hashmap option) \<Rightarrow> hashmap_cell list \<Rightarrow> hashmap \<Rightarrow> hashmap option" where
  "put_cells put [] tmp = Some tmp"
| "put_cells put (c # cs) tmp =
     (if hc_val c \<noteq> 0
      then (case put tmp (hc_key c) (hc_val c) of None \<Rightarrow> None | Some tmp \<Rightarrow> put_cells put cs tmp)
      else put_cells put cs tmp)"

definition resize_with :: "(hashmap \<Rightarrow> u64 \<Rightarrow> u64 \<Rightarrow> hashmap option) \<Rightarrow> hashmap \<Rightarrow> u64 \<Rightarrow> hashmap option" where
  "resize_with put m sz =
     (let sz = bit_next_pow2 (max sz 16);
          tmp = \<lparr>hm_data = Some (replicate (unat sz) \<lparr>hc_key = 0, hc_val = 0\<rparr>), hm_mask = sz - 1, hm_count = 0\<rparr>
      in case hm_data m of None \<Rightarrow> Some tmp | Some d \<Rightarrow> put_cells put d tmp)"

primrec hashmap_put_internal :: "nat \<Rightarrow> hashmap \<Rightarrow> u64 \<Rightarrow> u64 \<Rightarrow> u64 \<Rightarrow> hashmap option" where
  "hashmap_put_internal 0 m hash key val = None"
| "hashmap_put_internal (Suc fuel) m hash key val =
     (let put = put_ptr_with (hashmap_put_internal fuel);
          grow = (case resize_with put m (shl (hashmap_capacity m) 1) of None \<Rightarrow> None | Some m \<Rightarrow> put m key val)
      in case hm_data m of
           None \<Rightarrow> grow
         | Some d \<Rightarrow>
             (case hashmap_probe (hm_mask m) d hash key HASHMAP_MAX_PROBES 0 of
                None \<Rightarrow> grow
              | Some index \<Rightarrow>
                  if hc_val (d ! unat index) = 0 then
                    Some (if val \<noteq> 0
                          then m\<lparr>hm_data := Some (d[unat index := \<lparr>hc_key = key, hc_val = val\<rparr>]), hm_count := hm_count m + 1\<rparr> else m)
                  else
                    (let d = d[unat index := (d ! unat index)\<lparr>hc_val := val\<rparr>];
                         m = m\<lparr>hm_data := Some d\<rparr>
                     in if val = 0 then
                          (let m = m\<lparr>hm_count := hm_count m - 1\<rparr> in
                           if hm_count m = 0 then Some (hashmap_free m)
                           else if hm_count m < shr (hashmap_capacity m) 2 then resize_with put m (shr (hashmap_capacity m) 1)
                           else hashmap_rebalance_internal m d index)
                        else Some m)))"

definition hashmap_put_ptr :: "nat \<Rightarrow> hashmap \<Rightarrow> u64 \<Rightarrow> u64 \<Rightarrow> hashmap option" where
  "hashmap_put_ptr fuel = put_ptr_with (hashmap_put_internal fuel)"

definition hashmap_resize :: "nat \<Rightarrow> hashmap \<Rightarrow> u64 \<Rightarrow> hashmap option" where
  "hashmap_resize fuel = resize_with (hashmap_put_ptr fuel)"

definition hashmap_erase :: "nat \<Rightarrow> hashmap \<Rightarrow> u64 \<Rightarrow> hashmap option" where
  "hashmap_erase fuel m key = hashmap_put_ptr fuel m key 0"

section \<open>Positions\<close>

text \<open>A table has a power of two of cells; probe \<open>i\<close> of a hash looks at a cell modulo that size.\<close>

definition home :: "nat \<Rightarrow> u64 \<Rightarrow> nat" where
  "home k key = unat (hashmap_hash key) mod 2 ^ k"

lemma home_less: "home k key < 2 ^ k"
  by (simp add: home_def)

lemma unat_and_mask: "unat (x AND mask k :: u64) = unat x mod 2 ^ k"
  unfolding take_bit_eq_mask [symmetric] unsigned_take_bit_eq by (simp add: take_bit_eq_mod)

lemma probe_index:
  assumes "k \<le> 64"
  shows "unat ((hashmap_hash key + of_nat i) AND mask k) = (home k key + i) mod 2 ^ k"
proof -
  have d: "(2 :: nat) ^ k dvd 2 ^ 64" using assms by (rule le_imp_power_dvd)
  have "unat (hashmap_hash key + of_nat i) mod 2 ^ k = (unat (hashmap_hash key) + i mod 2 ^ 64) mod 2 ^ 64 mod 2 ^ k"
    by (simp add: unat_word_ariths unat_of_nat)
  also have "\<dots> = (unat (hashmap_hash key) + i) mod 2 ^ k"
    using mod_mod_cancel [OF d] by (metis mod_add_right_eq)
  finally show ?thesis unfolding unat_and_mask home_def by (simp add: mod_add_left_eq)
qed

text \<open>The distance from one position to another, going up around the table.\<close>

definition dist :: "nat \<Rightarrow> nat \<Rightarrow> nat \<Rightarrow> nat" where
  "dist n a b = (b + n - a) mod n"

lemma dist_eq: "a < n \<Longrightarrow> b < n \<Longrightarrow> dist n a b = (if a \<le> b then b - a else b + n - a)"
proof -
  assume l: "a < n" "b < n"
  show ?thesis
  proof (cases "a \<le> b")
    case True
    then obtain c where "b = a + c" by (auto simp: le_iff_add)
    with l show ?thesis by (simp add: dist_def)
  qed (use l in \<open>simp add: dist_def\<close>)
qed

lemma dist_less: "0 < n \<Longrightarrow> dist n a b < n"
  by (simp add: dist_def)

lemma add_dist: "a < n \<Longrightarrow> b < n \<Longrightarrow> (a + dist n a b) mod n = b"
  by (auto simp: dist_eq)

lemma dist_add: "a < n \<Longrightarrow> i < n \<Longrightarrow> dist n a ((a + i) mod n) = i"
  by (cases "a + i < n") (auto simp: dist_eq mod_if)

text \<open>The test of the deletion loop: the position \<open>k\<close> lies after the hole, up to \<open>j\<close>.\<close>

lemma between_dist:
  assumes "h < n" "j < n" "k < n"
  shows "(if h \<le> j then h < k \<and> k \<le> j else h < k \<or> k \<le> j) \<longleftrightarrow> 0 < dist n h k \<and> dist n h k \<le> dist n h j"
  using assms by (auto simp: dist_eq)

lemma dist_through:
  assumes "a < n" "h < n" "j < n" "\<not> (0 < dist n h a \<and> dist n h a \<le> dist n h j)" "h \<noteq> j"
  shows "dist n a h < dist n a j" "dist n a j = dist n a h + dist n h j"
  using assms by (auto simp: dist_eq split: if_splits)

section \<open>Tables\<close>

definition occ :: "hashmap_cell list \<Rightarrow> nat \<Rightarrow> bool" where
  "occ d p \<longleftrightarrow> hc_val (d ! p) \<noteq> 0"

abbreviation (input) keyd :: "nat \<Rightarrow> hashmap_cell list \<Rightarrow> nat \<Rightarrow> nat" where
  "keyd k d p \<equiv> dist (2 ^ k) (home k (hc_key (d ! p))) p"

definition table_keys :: "hashmap_cell list \<Rightarrow> bool" where
  "table_keys d \<longleftrightarrow> (\<forall>p < length d. \<forall>q < length d. occ d p \<longrightarrow> occ d q \<longrightarrow> hc_key (d ! p) = hc_key (d ! q) \<longrightarrow> p = q)"

text \<open>Every entry lies within the probes of its key, behind occupied cells only.\<close>

definition table_ok :: "nat \<Rightarrow> hashmap_cell list \<Rightarrow> bool" where
  "table_ok k d \<longleftrightarrow> length d = 2 ^ k \<and> table_keys d
     \<and> (\<forall>p < 2 ^ k. occ d p \<longrightarrow> keyd k d p < HASHMAP_MAX_PROBES
          \<and> (\<forall>i < keyd k d p. occ d ((home k (hc_key (d ! p)) + i) mod 2 ^ k)))"

definition entries :: "hashmap_cell list \<Rightarrow> (u64 \<times> u64) list" where
  "entries d = map (\<lambda>c. (hc_key c, hc_val c)) (filter (\<lambda>c. hc_val c \<noteq> 0) d)"

lemma table_keys_distinct: "table_keys d \<longleftrightarrow> distinct (map fst (entries d))"
proof (induction d)
  case (Cons c d)
  have "table_keys (c # d) \<longleftrightarrow> table_keys d \<and> (hc_val c \<noteq> 0 \<longrightarrow> (\<forall>p < length d. occ d p \<longrightarrow> hc_key (d ! p) \<noteq> hc_key c))"
    unfolding table_keys_def by (auto simp: occ_def All_less_Suc2; metis)
  also have "(\<forall>p < length d. occ d p \<longrightarrow> hc_key (d ! p) \<noteq> hc_key c) \<longleftrightarrow> hc_key c \<notin> fst ` set (entries d)"
    by (auto simp: entries_def occ_def in_set_conv_nth image_iff)
  finally show ?case using Cons by (auto simp: entries_def image_iff)
qed (simp add: table_keys_def entries_def)

lemma map_of_entries:
  assumes "table_keys d"
  shows "map_of (entries d) x = Some v \<longleftrightarrow> (\<exists>p < length d. occ d p \<and> hc_key (d ! p) = x \<and> hc_val (d ! p) = v)"
proof -
  have "map_of (entries d) x = Some v \<longleftrightarrow> (x, v) \<in> set (entries d)"
    using assms by (simp add: table_keys_distinct map_of_eq_Some_iff)
  then show ?thesis by (auto simp: entries_def occ_def in_set_conv_nth image_iff)
qed

lemma map_of_entries_None:
  assumes "table_keys d"
  shows "map_of (entries d) x = None \<longleftrightarrow> (\<forall>p < length d. occ d p \<longrightarrow> hc_key (d ! p) \<noteq> x)"
  using map_of_entries [OF assms, of x] by (metis not_None_eq)

text \<open>The loop over the probes stops at the first cell that is empty or has the key.\<close>

definition stops :: "hashmap_cell list \<Rightarrow> u64 \<Rightarrow> nat \<Rightarrow> bool" where
  "stops d key p \<longleftrightarrow> hc_key (d ! p) = key \<or> \<not> occ d p"

lemma probe_spec:
  assumes "k \<le> 64"
  shows "case hashmap_probe (mask k) d (hashmap_hash x) x n (of_nat i) of
      Some index \<Rightarrow> (\<exists>j < n. unat index = (home k x + (i + j)) mod 2 ^ k \<and> stops d x (unat index)
        \<and> (\<forall>j' < j. \<not> stops d x ((home k x + (i + j')) mod 2 ^ k)))
    | None \<Rightarrow> (\<forall>j < n. \<not> stops d x ((home k x + (i + j)) mod 2 ^ k))"
proof (induction n arbitrary: i)
  case (Suc n)
  let ?index = "(hashmap_hash x + of_nat i) AND mask k"
  have u: "unat ?index = (home k x + i) mod 2 ^ k" by (rule probe_index [OF assms])
  have s: "stops d x (unat ?index) \<longleftrightarrow> hc_key (d ! unat ?index) = x \<or> hc_val (d ! unat ?index) = 0" by (simp add: stops_def occ_def)
  show ?case
  proof (cases "stops d x (unat ?index)")
    case True
    then show ?thesis using u s by (auto simp: Let_def)
  next
    case False
    have r: "hashmap_probe (mask k) d (hashmap_hash x) x (Suc n) (of_nat i) = hashmap_probe (mask k) d (hashmap_hash x) x n (of_nat (Suc i))"
      using False s by (simp add: Let_def add.commute)
    have first: "\<not> stops d x ((home k x + i) mod 2 ^ k)" using False u by simp
    show ?thesis
    proof (cases "hashmap_probe (mask k) d (hashmap_hash x) x n (of_nat (Suc i))")
      case None
      with Suc.IH [of "Suc i"] first show ?thesis unfolding r by (simp add: All_less_Suc2)
    next
      case (Some index)
      with Suc.IH [of "Suc i"] obtain j where j: "j < n" "unat index = (home k x + (Suc i + j)) mod 2 ^ k" "stops d x (unat index)"
        "\<forall>j' < j. \<not> stops d x ((home k x + (Suc i + j')) mod 2 ^ k)" by auto
      then show ?thesis unfolding r Some option.case using first by (intro exI [of _ "Suc j"]) (simp add: All_less_Suc2)
    qed
  qed
qed simp

lemma table_okD:
  assumes "table_ok k d"
  shows "length d = 2 ^ k" "table_keys d" "\<lbrakk>p < 2 ^ k; occ d p\<rbrakk> \<Longrightarrow> keyd k d p < 256"
    "\<lbrakk>p < 2 ^ k; occ d p; i < keyd k d p\<rbrakk> \<Longrightarrow> occ d ((home k (hc_key (d ! p)) + i) mod 2 ^ k)"
  using assms by (auto simp: table_ok_def)

lemma table_keysD: "\<lbrakk>table_keys d; p < length d; q < length d; occ d p; occ d q; hc_key (d ! p) = hc_key (d ! q)\<rbrakk> \<Longrightarrow> p = q"
  by (auto simp: table_keys_def)

text \<open>A key that is in the table is found, at its place.\<close>

lemma key_first_stop:
  assumes t: "table_ok k d" and p: "p < 2 ^ k" "occ d p" "hc_key (d ! p) = x"
  shows "stops d x p" "p = (home k x + keyd k d p) mod 2 ^ k" "j < keyd k d p \<Longrightarrow> \<not> stops d x ((home k x + j) mod 2 ^ k)"
proof -
  show "stops d x p" using p by (simp add: stops_def)
  show "p = (home k x + keyd k d p) mod 2 ^ k" using add_dist [OF home_less p(1)] p(3) by simp
  assume j: "j < keyd k d p"
  let ?q = "(home k x + j) mod 2 ^ k"
  have o: "occ d ?q" using table_okD(4) [OF t p(1,2) j] p(3) by simp
  have "dist (2 ^ k) (home k x) ?q = j"
    using j dist_less [of "2 ^ k" "home k x" p] p(3) by (intro dist_add home_less) simp
  then have "?q \<noteq> p" using j p(3) by auto
  moreover have "?q < 2 ^ k" by simp
  ultimately have "hc_key (d ! ?q) \<noteq> x"
    using table_keysD [OF table_okD(2) [OF t], of ?q p] o p table_okD(1) [OF t] by auto
  with o show "\<not> stops d x ?q" by (simp add: stops_def)
qed

lemma probe_lookup:
  assumes t: "table_ok k d" and k: "k \<le> 64"
  shows "case hashmap_probe (mask k) d (hashmap_hash x) x 256 0 of
      Some index \<Rightarrow> unat index < 2 ^ k \<and> stops d x (unat index) \<and> (occ d (unat index) \<or> map_of (entries d) x = None)
        \<and> (\<exists>j < 256. unat index = (home k x + j) mod 2 ^ k \<and> (\<forall>i < j. occ d ((home k x + i) mod 2 ^ k)))
    | None \<Rightarrow> map_of (entries d) x = None \<and> (\<forall>j < 256. occ d ((home k x + j) mod 2 ^ k))"
proof -
  note s = probe_spec [OF k, where d = d and x = x and n = 256 and i = 0, unfolded of_nat_0 add_0]
  have absent: "map_of (entries d) x = None" if "\<And>p. \<lbrakk>p < 2 ^ k; occ d p; hc_key (d ! p) = x\<rbrakk> \<Longrightarrow> False"
    using that map_of_entries_None [OF table_okD(2) [OF t]] table_okD(1) [OF t] by auto
  show ?thesis
  proof (cases "hashmap_probe (mask k) d (hashmap_hash x) x 256 0")
    case None
    then have n: "\<forall>j < 256. \<not> stops d x ((home k x + j) mod 2 ^ k)" using s by simp
    have "map_of (entries d) x = None"
    proof (rule absent)
      fix p assume p: "p < 2 ^ k" "occ d p" "hc_key (d ! p) = x"
      from key_first_stop [OF t p] table_okD(3) [OF t p(1,2)] n show False by metis
    qed
    with n None show ?thesis by (simp add: stops_def)
  next
    case (Some index)
    then obtain j where j: "j < 256" "unat index = (home k x + j) mod 2 ^ k" "stops d x (unat index)"
      "\<forall>j' < j. \<not> stops d x ((home k x + j') mod 2 ^ k)" using s by auto
    have "map_of (entries d) x = None" if e: "\<not> occ d (unat index)"
    proof (rule absent)
      fix p assume p: "p < 2 ^ k" "occ d p" "hc_key (d ! p) = x"
      note f = key_first_stop [OF t p]
      have "\<not> keyd k d p < j" using j(4) f(1,2) by metis
      moreover have "\<not> j < keyd k d p" using f(3) [of j] j(2,3) by metis
      ultimately have "unat index = p" using f(2) j(2) by (metis linorder_neqE_nat)
      with e p(2) show False by simp
    qed
    then have "occ d (unat index) \<or> map_of (entries d) x = None" by (cases "occ d (unat index)") (rule disjI1, assumption, rule disjI2, simp)
    moreover have "\<forall>i < j. occ d ((home k x + i) mod 2 ^ k)" using j(4) by (simp add: stops_def)
    moreover have "unat index < 2 ^ k" using j(2) by simp
    ultimately show ?thesis unfolding Some option.case using j(1-3) by blast
  qed
qed

lemma lookup_stop:
  assumes "table_ok k d" "p < 2 ^ k" "occ d p" "hc_key (d ! p) = x"
  shows "map_of (entries d) x = Some (hc_val (d ! p))"
  using assms map_of_entries [OF table_okD(2) [OF assms(1)]] table_okD(1) [OF assms(1)] by auto

text \<open>Writing cells.\<close>

lemma occ_update: "q < length d \<Longrightarrow> occ (d[p := c]) q \<longleftrightarrow> (if q = p then hc_val c \<noteq> 0 else occ d q)"
  by (simp add: occ_def nth_list_update)

lemma entries_update:
  assumes "table_keys d" "table_keys (d[p := c])" "p < length d"
  shows "map_of (entries (d[p := c])) y = Some w \<longleftrightarrow>
    hc_val c \<noteq> 0 \<and> hc_key c = y \<and> hc_val c = w \<or> (map_of (entries d) y = Some w \<and> \<not> (occ d p \<and> hc_key (d ! p) = y))"
proof -
  have "map_of (entries (d[p := c])) y = Some w \<longleftrightarrow>
      (\<exists>q < length d. occ (d[p := c]) q \<and> hc_key (d[p := c] ! q) = y \<and> hc_val (d[p := c] ! q) = w)"
    by (simp add: map_of_entries [OF assms(2)])
  also have "\<dots> \<longleftrightarrow> hc_val c \<noteq> 0 \<and> hc_key c = y \<and> hc_val c = w
      \<or> (\<exists>q < length d. q \<noteq> p \<and> occ d q \<and> hc_key (d ! q) = y \<and> hc_val (d ! q) = w)"
    using assms(3) by (auto simp: occ_def nth_list_update)
  also have "(\<exists>q < length d. q \<noteq> p \<and> occ d q \<and> hc_key (d ! q) = y \<and> hc_val (d ! q) = w)
      \<longleftrightarrow> (map_of (entries d) y = Some w \<and> \<not> (occ d p \<and> hc_key (d ! p) = y))"
    unfolding map_of_entries [OF assms(1)] using table_keysD [OF assms(1)] assms(3) by metis
  finally show ?thesis .
qed

lemma map_eqI: "(\<And>y w. f y = Some w \<longleftrightarrow> g y = Some w) \<Longrightarrow> f = g"
  by (rule ext) (metis not_None_eq)

lemma table_insert:
  assumes t: "table_ok k d" and p: "\<not> occ d p" "p = (home k x + j) mod 2 ^ k" "j < 256" "\<And>i. i < j \<Longrightarrow> occ d ((home k x + i) mod 2 ^ k)"
    and v: "v \<noteq> 0" and new: "map_of (entries d) x = None"
  shows "table_ok k (d[p := \<lparr>hc_key = x, hc_val = v\<rparr>])"
    "map_of (entries (d[p := \<lparr>hc_key = x, hc_val = v\<rparr>])) = (map_of (entries d))(x \<mapsto> v)"
proof -
  let ?d = "d[p := \<lparr>hc_key = x, hc_val = v\<rparr>]"
  note l = table_okD [OF t]
  have pl: "p < 2 ^ k" using p(2) by simp
  have o: "q < 2 ^ k \<Longrightarrow> occ ?d q \<longleftrightarrow> q = p \<or> occ d q" for q using l(1) v by (simp add: occ_update)
  have key: "q < 2 ^ k \<Longrightarrow> hc_key (?d ! q) = (if q = p then x else hc_key (d ! q))" for q using l(1) by (simp add: nth_list_update)
  have absent: "q < 2 ^ k \<Longrightarrow> occ d q \<Longrightarrow> hc_key (d ! q) \<noteq> x" for q using new map_of_entries_None [OF l(2)] l(1) by simp
  have keys: "table_keys ?d"
    unfolding table_keys_def length_list_update l(1) using o key absent l(2) [unfolded table_keys_def l(1)] by (auto split: if_splits)
  have dj: "dist (2 ^ k) (home k x) p \<le> j"
  proof (cases "j < 2 ^ k")
    case True
    then show ?thesis using dist_add [OF home_less True] p(2) by simp
  qed (use dist_less [of "2 ^ k" "home k x" p] in simp)
  have "keyd k ?d q < 256 \<and> (\<forall>i < keyd k ?d q. occ ?d ((home k (hc_key (?d ! q)) + i) mod 2 ^ k))" if q: "q < 2 ^ k" "occ ?d q" for q
  proof (cases "q = p")
    case True
    then show ?thesis using dj p(3,4) key [OF pl] o by auto
  next
    case False
    then show ?thesis using q o [OF q(1)] key [OF q(1)] l(3,4) [of q] o by auto
  qed
  with keys l(1) show ok: "table_ok k ?d" by (simp add: table_ok_def)
  show "map_of (entries ?d) = (map_of (entries d))(x \<mapsto> v)"
    by (rule map_eqI) (use entries_update [OF l(2) keys] pl l(1) p(1) v new in auto)
qed

text \<open>Changing the value of an entry.\<close>

lemma table_replace:
  assumes t: "table_ok k d" and p: "p < 2 ^ k" "occ d p" and v: "v \<noteq> 0"
  shows "table_ok k (d[p := (d ! p)\<lparr>hc_val := v\<rparr>])"
    "map_of (entries (d[p := (d ! p)\<lparr>hc_val := v\<rparr>])) = (map_of (entries d))(hc_key (d ! p) \<mapsto> v)"
proof -
  let ?d = "d[p := (d ! p)\<lparr>hc_val := v\<rparr>]"
  note l = table_okD [OF t]
  have o: "q < 2 ^ k \<Longrightarrow> occ ?d q \<longleftrightarrow> occ d q" for q using l(1) v p by (simp add: occ_update)
  have key: "hc_key (?d ! q) = hc_key (d ! q)" for q using l(1) p(1) by (cases "q = p") auto
  have keys: "table_keys ?d" using l(2) o by (simp add: table_keys_def l(1) key)
  show "table_ok k ?d" using t keys o by (simp add: table_ok_def key)
  show "map_of (entries ?d) = (map_of (entries d))(hc_key (d ! p) \<mapsto> v)"
    by (rule map_eqI) (use entries_update [OF l(2) keys] p l(1) v in auto)
qed

section \<open>Closing a hole\<close>

text \<open>
  The invariant of the deletion loop: probe sequences are unbroken but for the hole at \<open>h\<close>, and the
  \<open>s\<close> cells after the hole are occupied by entries whose sequences do not pass the hole.
\<close>

definition hole_inv :: "nat \<Rightarrow> hashmap_cell list \<Rightarrow> nat \<Rightarrow> nat \<Rightarrow> bool" where
  "hole_inv k d h s \<longleftrightarrow> length d = 2 ^ k \<and> table_keys d \<and> h < 2 ^ k \<and> \<not> occ d h \<and> s < 2 ^ k
     \<and> (\<forall>p < 2 ^ k. occ d p \<longrightarrow> keyd k d p < 256
          \<and> (\<forall>i < keyd k d p. occ d ((home k (hc_key (d ! p)) + i) mod 2 ^ k) \<or> (home k (hc_key (d ! p)) + i) mod 2 ^ k = h)
          \<and> (0 < dist (2 ^ k) h p \<longrightarrow> dist (2 ^ k) h p \<le> s \<longrightarrow> (\<forall>i < keyd k d p. (home k (hc_key (d ! p)) + i) mod 2 ^ k \<noteq> h)))"

lemma hole_invD:
  assumes "hole_inv k d h s"
  shows "length d = 2 ^ k" "table_keys d" "h < 2 ^ k" "\<not> occ d h" "s < 2 ^ k"
    "\<lbrakk>p < 2 ^ k; occ d p\<rbrakk> \<Longrightarrow> keyd k d p < 256"
    "\<lbrakk>p < 2 ^ k; occ d p; i < keyd k d p\<rbrakk> \<Longrightarrow> occ d ((home k (hc_key (d ! p)) + i) mod 2 ^ k) \<or> (home k (hc_key (d ! p)) + i) mod 2 ^ k = h"
    "\<lbrakk>p < 2 ^ k; occ d p; 0 < dist (2 ^ k) h p; dist (2 ^ k) h p \<le> s; i < keyd k d p\<rbrakk> \<Longrightarrow> (home k (hc_key (d ! p)) + i) mod 2 ^ k \<noteq> h"
  using assms by (auto simp: hole_inv_def)

lemma dist_zero: "a < n \<Longrightarrow> b < n \<Longrightarrow> dist n a b = 0 \<longleftrightarrow> a = b"
  by (auto simp: dist_eq)

text \<open>A cell passed on the way from \<open>a\<close> to \<open>p\<close> splits the distance.\<close>

lemma add_wrap: "a < n \<Longrightarrow> i < n \<Longrightarrow> (a + i) mod n = (if a + i < n then a + i else a + i - n)" for n :: nat
  by (simp add: mod_if [of "a + i"] mod_less)

lemma dist_split:
  assumes "a < n" "p < n" "i < dist n a p"
  shows "dist n ((a + i) mod n) p = dist n a p - i"
proof -
  have i: "i < n" using assms(3) dist_less [of n a p] assms(1) by simp
  show ?thesis unfolding add_wrap [OF assms(1) i]
    using assms i by (cases "a \<le> p"; cases "a + i < n") (simp_all add: dist_eq)
qed

lemma dist_inside:
  assumes "a < n" "h < n" "p < n" "0 < dist n h a" "dist n h a \<le> dist n h p" "i < dist n a p"
  shows "(a + i) mod n \<noteq> h"
proof -
  have i: "i < n" using assms(6) dist_less [of n a p] assms(1) by simp
  show ?thesis unfolding add_wrap [OF assms(1) i]
    using assms i by (cases "a \<le> p"; cases "h \<le> a"; cases "h \<le> p") (auto simp: dist_eq split: if_splits)
qed

lemma hole_done:
  assumes h: "hole_inv k d h s" and e: "\<not> occ d ((h + Suc s) mod 2 ^ k)"
  shows "table_ok k d"
proof -
  note l = hole_invD [OF h]
  let ?n = "2 ^ k :: nat"
  have "(home k (hc_key (d ! p)) + i) mod ?n \<noteq> h" if p: "p < ?n" "occ d p" "i < keyd k d p" for p i
  proof
    let ?a = "home k (hc_key (d ! p))"
    assume q: "(?a + i) mod ?n = h"
    have t: "dist ?n h p = keyd k d p - i" using dist_split [OF home_less p(1,3)] q by simp
    have "\<not> dist ?n h p \<le> s" using l(8) [OF p(1,2) _ _ p(3)] q t p(3) by auto
    then have big: "s < dist ?n h p" by simp
    have at: "(h + dist ?n h p) mod ?n = p" by (rule add_dist [OF l(3) p(1)])
    have "Suc s \<noteq> dist ?n h p" using at e p(2) by metis
    with big have lt: "Suc s < dist ?n h p" by simp
    have j: "(h + Suc s) mod ?n = (?a + (i + Suc s)) mod ?n" unfolding q [symmetric] mod_add_left_eq by (simp only: add.assoc)
    have "i + Suc s < keyd k d p" using lt t by simp
    from l(7) [OF p(1,2) this] e have "(h + Suc s) mod ?n = h" unfolding j by simp
    moreover have "dist ?n h ((h + Suc s) mod ?n) = Suc s"
      using lt dist_less [of ?n h p] by (intro dist_add l(3)) simp
    ultimately show False using dist_zero [OF l(3) l(3)] by simp
  qed
  with l show ?thesis unfolding table_ok_def by blast
qed

lemma hole_skip:
  assumes h: "hole_inv k d h s" and j: "j = (h + Suc s) mod 2 ^ k" "occ d j"
    and b: "0 < dist (2 ^ k) h (home k (hc_key (d ! j)))" "dist (2 ^ k) h (home k (hc_key (d ! j))) \<le> dist (2 ^ k) h j"
  shows "hole_inv k d h (Suc s)"
proof -
  note l = hole_invD [OF h]
  have jl: "j < 2 ^ k" using j(1) by simp
  have s: "Suc s < 2 ^ k"
  proof (rule ccontr)
    assume "\<not> ?thesis"
    then have "Suc s = 2 ^ k" using l(5) by simp
    with j(1) l(3,4) j(2) show False by simp
  qed
  have "(home k (hc_key (d ! p)) + i) mod 2 ^ k \<noteq> h"
    if p: "p < 2 ^ k" "occ d p" "0 < dist (2 ^ k) h p" "dist (2 ^ k) h p \<le> Suc s" "i < keyd k d p" for p i
  proof (cases "dist (2 ^ k) h p = Suc s")
    case True
    then have "p = j" using add_dist [OF l(3) p(1)] j(1) by simp
    then show ?thesis using dist_inside [OF home_less l(3) jl b] p(5) by simp
  next
    case False
    then show ?thesis using l(8) [OF p(1-3) _ p(5)] p(4) by simp
  qed
  with h s show ?thesis unfolding hole_inv_def by auto
qed

lemma table_keys_clear:
  assumes "table_keys d"
  shows "table_keys (d[p := (d ! p)\<lparr>hc_val := 0\<rparr>])"
proof (cases "p < length d")
  case True
  with assms show ?thesis unfolding table_keys_def length_list_update
    by (auto simp: occ_def nth_list_update split: if_splits)
next
  case False
  then show ?thesis using assms by (simp add: list_update_beyond)
qed

lemma entries_clear:
  assumes "table_keys d" "p < length d" "occ d p"
  shows "map_of (entries (d[p := (d ! p)\<lparr>hc_val := 0\<rparr>])) = (map_of (entries d))(hc_key (d ! p) := None)"
  using entries_update [OF assms(1) table_keys_clear [OF assms(1)] assms(2)] assms(3)
  by (intro map_eqI) auto

text \<open>Moving the entry at \<open>j\<close> into the hole, which leaves a hole at \<open>j\<close>.\<close>

abbreviation (input) moved :: "hashmap_cell list \<Rightarrow> nat \<Rightarrow> nat \<Rightarrow> hashmap_cell list" where
  "moved d h j \<equiv> d[h := d ! j, j := (d ! j)\<lparr>hc_val := 0\<rparr>]"

lemma moved_cells:
  assumes "length d = n" "h < n" "j < n" "h \<noteq> j" "occ d j"
  shows "q < n \<Longrightarrow> occ (moved d h j) q \<longleftrightarrow> q \<noteq> j \<and> (q = h \<or> occ d q)"
    "\<lbrakk>q < n; q \<noteq> j\<rbrakk> \<Longrightarrow> moved d h j ! q = d ! (if q = h then j else q)"
  using assms by (auto simp: occ_def nth_list_update)

lemma hole_move:
  assumes h: "hole_inv k d h s" and j: "j < 2 ^ k" "occ d j"
    and b: "\<not> (0 < dist (2 ^ k) h (home k (hc_key (d ! j))) \<and> dist (2 ^ k) h (home k (hc_key (d ! j))) \<le> dist (2 ^ k) h j)"
  shows "hole_inv k (moved d h j) j 0"
proof -
  note l = hole_invD [OF h]
  let ?n = "2 ^ k :: nat" and ?d = "moved d h j" and ?a = "home k (hc_key (d ! j))"
  have hj: "h \<noteq> j" using l(4) j(2) by auto
  note m = moved_cells [OF l(1,3) j(1) hj j(2)]
  note th = dist_through [OF home_less l(3) j(1) b hj]
  have keys: "table_keys ?d"
    unfolding table_keys_def length_list_update l(1)
    using m l(2) [unfolded table_keys_def l(1)] j hj l(3,4) by (auto split: if_splits)
  have chain: "keyd k ?d p < 256 \<and> (\<forall>i < keyd k ?d p. occ ?d ((home k (hc_key (?d ! p)) + i) mod ?n) \<or> (home k (hc_key (?d ! p)) + i) mod ?n = j)"
    if p: "p < ?n" "occ ?d p" for p
  proof (cases "p = h")
    case True
    have c: "?d ! h = d ! j" using m(2) [OF l(3) hj] by simp
    have "occ ?d ((?a + i) mod ?n)" if i: "i < dist ?n ?a h" for i
    proof -
      have ne: "(?a + i) mod ?n \<noteq> h" "(?a + i) mod ?n \<noteq> j"
        using dist_split [OF home_less l(3) i] dist_split [of ?a ?n j i, OF home_less j(1)] th i dist_zero [OF l(3) l(3)] dist_zero [OF j(1) j(1)] by auto
      with l(7) [OF j, of i] th i show ?thesis by (subst m(1)) auto
    qed
    with True c th(1) l(6) [OF j] show ?thesis by auto
  next
    case False
    then have o: "occ d p" "p \<noteq> j" using m(1) [OF p(1)] p(2) by auto
    then have c: "?d ! p = d ! p" using m(2) [OF p(1)] False by simp
    show ?thesis unfolding c using l(6,7) [OF p(1) o(1)] m(1) by auto
  qed
  have "\<not> occ ?d j" using m(1) [OF j(1)] by simp
  with chain keys l(1) j(1) show ?thesis unfolding hole_inv_def by auto
qed

lemma moved_map:
  assumes "hole_inv k d h s" "j < 2 ^ k" "occ d j" "table_keys (moved d h j)"
  shows "map_of (entries (moved d h j)) = map_of (entries d)"
proof -
  note l = hole_invD [OF assms(1)]
  have hj: "h \<noteq> j" using l(4) assms(3) by auto
  let ?e = "d[j := (d ! j)\<lparr>hc_val := 0\<rparr>]"
  have ke: "table_keys ?e"
    using l(2) by (rule table_keys_clear)
  have sw: "moved d h j = ?e[h := d ! j]" using hj by (rule list_update_swap)
  have e: "map_of (entries ?e) y = Some w \<longleftrightarrow> map_of (entries d) y = Some w \<and> hc_key (d ! j) \<noteq> y" for y w
    using entries_update [OF l(2) ke] assms(2,3) l(1) by auto
  have j: "map_of (entries d) (hc_key (d ! j)) = Some (hc_val (d ! j))"
    using map_of_entries [OF l(2)] assms(2,3) l(1) by auto
  have "\<not> occ ?e h" using l(3,4) hj l(1) by (simp add: occ_def)
  then show ?thesis
    using entries_update [OF ke assms(4) [unfolded sw]] l(1,3) assms(3) e j
    unfolding sw by (intro map_eqI) (auto simp: occ_def)
qed

text \<open>Every move brings an entry closer to its home.\<close>

definition total_dist :: "nat \<Rightarrow> hashmap_cell list \<Rightarrow> nat" where
  "total_dist k d = (\<Sum>p < 2 ^ k. if occ d p then keyd k d p else 0)"

lemma total_dist_move:
  assumes h: "hole_inv k d h s" and j: "j < 2 ^ k" "occ d j" and hj: "h \<noteq> j"
    and lt: "dist (2 ^ k) (home k (hc_key (d ! j))) h < keyd k d j"
  shows "total_dist k (moved d h j) < total_dist k d"
proof -
  note l = hole_invD [OF h]
  note m = moved_cells [OF l(1,3) j(1) hj j(2)]
  let ?f = "\<lambda>d p. if occ d p then keyd k d p else 0"
  have split: "total_dist k e = ?f e h + (?f e j + (\<Sum>p \<in> {..<2 ^ k} - {h} - {j}. ?f e p))" for e
    unfolding total_dist_def
    using sum.remove [of "{..<2 ^ k}" h "?f e"] sum.remove [of "{..<2 ^ k} - {h}" j "?f e"] l(3) j(1) hj by simp
  have rest: "(\<Sum>p \<in> {..<2 ^ k} - {h} - {j}. ?f (moved d h j) p) = (\<Sum>p \<in> {..<2 ^ k} - {h} - {j}. ?f d p)"
    by (rule sum.cong [OF refl]) (use m in auto)
  show ?thesis unfolding split [of d] split [of "moved d h j"] rest
    using m(1) [OF l(3)] m(1) [OF j(1)] m(2) [OF l(3) hj] hj l(4) j(2) lt by simp
qed

lemma unat_and_mask_hash: "unat (hashmap_hash x AND mask k) = home k x"
  by (simp add: unat_and_mask home_def)

lemma rebalance_next:
  assumes "k < 64" "unat (j :: u64) < 2 ^ k"
  shows "unat ((j + 1) AND mask k) = Suc (unat j) mod 2 ^ k"
proof -
  have "unat j < 2 ^ 63" using assms(2) power_increasing [of k 63 "2 :: nat"] assms(1) by simp
  then have "unat (j + 1) = Suc (unat j)" by (simp add: unat_word_ariths)
  then show ?thesis by (simp add: unat_and_mask)
qed

lemma rebalance_loop_spec:
  assumes k: "k < 64"
  shows "\<lbrakk>hole_inv k d (unat index) s; unat j = (unat index + s) mod 2 ^ k\<rbrakk> \<Longrightarrow>
    \<exists>d'. rebalance_loop (mask k) d index j = Some d' \<and> table_ok k d' \<and> map_of (entries d') = map_of (entries d)"
proof (induction "(total_dist k d, 2 ^ k - s)" arbitrary: d index s j rule: wf_induct_rule [OF wf_lex_prod [OF wf_less_than wf_less_than]])
  case (1 d s index j)
  note l = hole_invD [OF 1(2)]
  let ?j = "(j + 1) AND mask k"
  have jl: "unat j < 2 ^ k" using 1(3) by simp
  have uj: "unat ?j = (unat index + Suc s) mod 2 ^ k" unfolding rebalance_next [OF k jl] 1(3) by (simp add: mod_Suc_eq)
  have ujl: "unat ?j < 2 ^ k" unfolding uj by simp
  let ?k = "hashmap_hash (hc_key (d ! unat ?j)) AND mask k"
  let ?skip = "if index \<le> ?j then index < ?k \<and> ?k \<le> ?j else index < ?k \<or> ?k \<le> ?j"
  have uk: "unat ?k = home k (hc_key (d ! unat ?j))" by (rule unat_and_mask_hash)
  have skip: "?skip \<longleftrightarrow> 0 < dist (2 ^ k) (unat index) (unat ?k) \<and> dist (2 ^ k) (unat index) (unat ?k) \<le> dist (2 ^ k) (unat index) (unat ?j)"
    unfolding word_le_nat_alt word_less_nat_alt by (rule between_dist [OF l(3) ujl]) (simp add: uk home_less)
  show ?case
  proof (cases "occ d (unat ?j)")
    case False
    then have "rebalance_loop (mask k) d index j = Some d"
      by (subst rebalance_loop.simps) (simp add: Let_def occ_def)
    with hole_done [OF 1(2)] False uj show ?thesis by simp
  next
    case o: True
    show ?thesis
    proof (cases ?skip)
      case True
      then have r: "rebalance_loop (mask k) d index j = rebalance_loop (mask k) d index ?j"
        using o by (subst rebalance_loop.simps) (simp add: Let_def occ_def)
      have i: "hole_inv k d (unat index) (Suc s)"
        using True hole_skip [OF 1(2) uj o] skip uk by auto
      have "((total_dist k d, 2 ^ k - Suc s), total_dist k d, 2 ^ k - s) \<in> less_than <*lex*> less_than" using l(5) by simp
      from 1(1) [OF this i uj] show ?thesis unfolding r .
    next
      case False
      let ?d = "moved d (unat index) (unat ?j)"
      have hj: "unat index \<noteq> unat ?j" using l(4) o by auto
      have r: "rebalance_loop (mask k) d index j = rebalance_loop (mask k) ?d ?j ?j"
        using o False hj l(1) ujl by (subst rebalance_loop.simps) (simp add: Let_def occ_def nth_list_update)
      have nb: "\<not> (0 < dist (2 ^ k) (unat index) (home k (hc_key (d ! unat ?j)))
          \<and> dist (2 ^ k) (unat index) (home k (hc_key (d ! unat ?j))) \<le> dist (2 ^ k) (unat index) (unat ?j))"
        using False skip uk by simp
      note i = hole_move [OF 1(2) ujl o nb]
      have "total_dist k ?d < total_dist k d"
        by (rule total_dist_move [OF 1(2) ujl o hj dist_through(1) [OF home_less l(3) ujl nb hj]])
      then have "((total_dist k ?d, 2 ^ k - 0), total_dist k d, 2 ^ k - s) \<in> less_than <*lex*> less_than" by simp
      from 1(1) [OF this i] ujl moved_map [OF 1(2) ujl o hole_invD(2) [OF i]] show ?thesis unfolding r by simp
    qed
  qed
qed

section \<open>The contents of a map\<close>

definition contents :: "hashmap \<Rightarrow> u64 \<rightharpoonup> u64" where
  "contents m = (case hm_data m of None \<Rightarrow> Map.empty | Some d \<Rightarrow> map_of (entries d))"

definition sized :: "nat \<Rightarrow> hashmap \<Rightarrow> bool" where
  "sized k m \<longleftrightarrow> 4 \<le> k \<and> k < 64 \<and> hm_mask m = mask k \<and> (\<exists>d. hm_data m = Some d \<and> table_ok k d)"

definition hashmap_inv :: "hashmap \<Rightarrow> bool" where
  "hashmap_inv m \<longleftrightarrow> unat (hm_count m) = card (dom (contents m)) \<and> (hm_data m = None \<and> hm_mask m = 0 \<or> (\<exists>k. sized k m))"

definition set_entry :: "(u64 \<rightharpoonup> u64) \<Rightarrow> u64 \<Rightarrow> u64 \<Rightarrow> u64 \<rightharpoonup> u64" where
  "set_entry f key val = f(key := if val = 0 then None else Some val)"

lemma sizedE:
  assumes "sized k m"
  obtains d where "4 \<le> k" "k < 64" "hm_mask m = mask k" "hm_data m = Some d" "table_ok k d" "contents m = map_of (entries d)"
  using assms by (auto simp: sized_def contents_def)

lemma card_dom_entries: "card (dom (map_of (entries d))) \<le> length d"
proof -
  have "card (dom (map_of (entries d))) \<le> length (entries d)"
    unfolding dom_map_of_conv_image_fst using card_image_le [of "set (entries d)" fst] card_length [of "entries d"] by simp
  also have "\<dots> \<le> length d" by (simp add: entries_def)
  finally show ?thesis .
qed

lemma finite_contents: "finite (dom (contents m))"
  by (simp add: contents_def finite_dom_map_of split: option.split)

lemma card_set_entry:
  assumes "finite (dom f)"
  shows "card (dom (set_entry f key val)) =
    (if val = 0 then (if f key = None then card (dom f) else card (dom f) - 1)
     else if f key = None then Suc (card (dom f)) else card (dom f))"
  using assms by (auto simp: set_entry_def card_insert_if insert_absorb domIff fun_upd_idem)

text \<open>Writing the cell at which the probes stopped.\<close>

lemma insert_cell:
  assumes m: "hashmap_inv m" "sized k m" "hm_data m = Some d"
    and p: "\<not> occ d p" "p = (home k x + j) mod 2 ^ k" "j < 256" "\<forall>i < j. occ d ((home k x + i) mod 2 ^ k)"
    and new: "map_of (entries d) x = None"
  shows "let m' = if v \<noteq> 0 then m\<lparr>hm_data := Some (d[p := \<lparr>hc_key = x, hc_val = v\<rparr>]), hm_count := hm_count m + 1\<rparr> else m
    in hashmap_inv m' \<and> sized k m' \<and> contents m' = set_entry (contents m) x v"
proof -
  have c: "contents m = map_of (entries d)" using m(3) by (simp add: contents_def)
  have k: "4 \<le> k" "k < 64" "hm_mask m = mask k" and t: "table_ok k d" using m(2,3) by (auto simp: sized_def)
  show ?thesis
  proof (cases "v = 0")
    case True
    then show ?thesis using m(1,2) new c by (simp add: set_entry_def fun_upd_idem)
  next
    case False
    note i = table_insert [OF t p(1-3) _ False new]
    have n: "contents (m\<lparr>hm_data := Some (d[p := \<lparr>hc_key = x, hc_val = v\<rparr>]), hm_count := hm_count m + 1\<rparr>) = set_entry (contents m) x v" (is "contents ?m = _")
      using i(2) p(4) False by (simp add: contents_def set_entry_def m(3))
    have "card (dom (map_of (entries d))) \<le> 2 ^ k" using card_dom_entries [of d] table_okD(1) [OF t] by simp
    also have "\<dots> \<le> (2 :: nat) ^ 63" using k(2) by (intro power_increasing) simp_all
    finally have "unat (hm_count m) \<le> 2 ^ 63" using m(1) c by (simp add: hashmap_inv_def)
    then have "unat (hm_count m + 1) = Suc (unat (hm_count m))" by (simp add: unat_word_ariths)
    then have "unat (hm_count ?m) = card (dom (contents ?m))"
      unfolding n card_set_entry [OF finite_contents] using new c False m(1) by (simp add: hashmap_inv_def)
    moreover have s: "sized k ?m" using k i(1) p(4) by (simp add: sized_def)
    ultimately show ?thesis using n False by (auto simp: hashmap_inv_def Let_def)
  qed
qed

lemma replace_cell:
  assumes m: "hashmap_inv m" "sized k m" "hm_data m = Some d" and p: "p < 2 ^ k" "occ d p" "hc_key (d ! p) = x" and v: "v \<noteq> 0"
  shows "let m' = m\<lparr>hm_data := Some (d[p := (d ! p)\<lparr>hc_val := v\<rparr>])\<rparr>
    in hashmap_inv m' \<and> sized k m' \<and> contents m' = set_entry (contents m) x v"
proof -
  have k: "4 \<le> k" "k < 64" "hm_mask m = mask k" and t: "table_ok k d" using m(2,3) by (auto simp: sized_def)
  note r = table_replace [OF t p(1,2) v]
  have c: "contents m = map_of (entries d)" using m(3) by (simp add: contents_def)
  have n: "contents (m\<lparr>hm_data := Some (d[p := (d ! p)\<lparr>hc_val := v\<rparr>])\<rparr>) = set_entry (contents m) x v" (is "contents ?m = _")
    using r(2) p(3) v by (simp add: contents_def set_entry_def m(3))
  have "unat (hm_count ?m) = card (dom (contents ?m))"
    unfolding n card_set_entry [OF finite_contents] using lookup_stop [OF t p] c v m(1) by (simp add: hashmap_inv_def)
  moreover have "sized k ?m" using k r(1) by (simp add: sized_def)
  ultimately show ?thesis using n by (auto simp: hashmap_inv_def Let_def)
qed

section \<open>Insertion and deletion refine the update of a map\<close>

definition put_ok :: "(hashmap \<Rightarrow> u64 \<Rightarrow> u64 \<Rightarrow> hashmap option) \<Rightarrow> bool" where
  "put_ok put \<longleftrightarrow> (\<forall>m key val m'. hashmap_inv m \<longrightarrow> put m key val = Some m' \<longrightarrow>
     hashmap_inv m' \<and> contents m' = set_entry (contents m) key val)"

lemma put_okD: "\<lbrakk>put_ok put; hashmap_inv m; put m key val = Some m'\<rbrakk> \<Longrightarrow> hashmap_inv m' \<and> contents m' = set_entry (contents m) key val"
  by (simp add: put_ok_def)

lemma probe_first: "stops d x (unat (hash AND msk)) \<Longrightarrow> hashmap_probe msk d hash x (Suc n) 0 = Some (hash AND msk)"
  by (auto simp: stops_def occ_def Let_def)

lemma probe_found:
  assumes t: "table_ok k d" "k < 64" and s: "hashmap_probe (mask k) d (hashmap_hash x) x 256 0 = Some index"
  shows "unat index < 2 ^ k" "occ d (unat index) \<Longrightarrow> hc_key (d ! unat index) = x"
    "\<not> occ d (unat index) \<Longrightarrow> map_of (entries d) x = None \<and> (\<exists>j < 256. unat index = (home k x + j) mod 2 ^ k \<and> (\<forall>i < j. occ d ((home k x + i) mod 2 ^ k)))"
  using probe_lookup [OF t(1), of x] s t(2) by (auto simp: stops_def)

lemma put_found:
  assumes m: "hashmap_inv m" "sized k m" "hm_data m = Some d"
    and s: "hashmap_probe (mask k) d (hashmap_hash x) x 256 0 = Some index" and e: "\<not> occ d (unat index)"
  shows "let m' = if v \<noteq> 0 then m\<lparr>hm_data := Some (d[unat index := \<lparr>hc_key = x, hc_val = v\<rparr>]), hm_count := hm_count m + 1\<rparr> else m
    in hashmap_inv m' \<and> sized k m' \<and> contents m' = set_entry (contents m) x v"
proof -
  have t: "table_ok k d" "k < 64" using m(2,3) by (auto simp: sized_def)
  from probe_found(3) [OF t s e] obtain j where j: "map_of (entries d) x = None" "j < 256" "unat index = (home k x + j) mod 2 ^ k" "\<forall>i < j. occ d ((home k x + i) mod 2 ^ k)"
    by blast
  show ?thesis by (rule insert_cell [OF m e j(3,2,4,1)])
qed

lemma put_ptr_result:
  assumes m: "hashmap_inv m" "sized k m" and r: "put_ptr_with put_internal m key val = Some m'"
  shows "hashmap_inv m' \<and> sized k m' \<and> contents m' = set_entry (contents m) key val
    \<or> put_internal m (hashmap_hash key) key val = Some m'"
proof -
  from m(2) obtain d where d: "k < 64" "hm_mask m = mask k" "hm_data m = Some d" "table_ok k d" by (rule sizedE)
  let ?index = "hashmap_hash key AND mask k"
  have i: "hashmap_probe (mask k) d (hashmap_hash key) key 256 0 = Some ?index" if "stops d key (unat ?index)"
    using probe_first [OF that, of 255] by (simp only: numeral_eq_Suc pred_numeral_simps BitM.simps)
  show ?thesis
  proof (cases "occ d (unat ?index)")
    case False
    then have s: "stops d key (unat ?index)" by (simp add: stops_def)
    then show ?thesis using put_found [OF m d(3) i [OF s] False, of val] r d False
      by (auto simp: put_ptr_with_def Let_def occ_def split: if_splits)
  next
    case o: True
    have lt: "unat ?index < 2 ^ k" by (simp add: unat_and_mask)
    show ?thesis
    proof (cases "hc_key (d ! unat ?index) = key \<and> val \<noteq> 0")
      case True
      then show ?thesis using replace_cell [OF m d(3) lt o, of key val] r d o
        by (auto simp: put_ptr_with_def Let_def occ_def)
    next
      case False
      then show ?thesis using r d o by (auto simp: put_ptr_with_def Let_def occ_def split: if_splits)
    qed
  qed
qed

lemma put_ptr_ok:
  assumes "\<And>m key val m'. \<lbrakk>hashmap_inv m; put_internal m (hashmap_hash key) key val = Some m'\<rbrakk> \<Longrightarrow>
    hashmap_inv m' \<and> contents m' = set_entry (contents m) key val"
  shows "put_ok (put_ptr_with put_internal)"
  unfolding put_ok_def
proof (intro allI impI)
  fix m key val m'
  assume m: "hashmap_inv m" and r: "put_ptr_with put_internal m key val = Some m'"
  show "hashmap_inv m' \<and> contents m' = set_entry (contents m) key val"
  proof (cases "hm_data m")
    case None
    with assms [OF m] r show ?thesis by (simp add: put_ptr_with_def Let_def)
  next
    case (Some d)
    then obtain k where "sized k m" using m by (auto simp: hashmap_inv_def)
    from put_ptr_result [OF m this r] assms [OF m] show ?thesis by blast
  qed
qed

text \<open>Building a table from the cells of another.\<close>

lemma put_cells_ok:
  assumes "put_ok put"
  shows "\<lbrakk>hashmap_inv m; put_cells put cs m = Some m'\<rbrakk> \<Longrightarrow>
    hashmap_inv m' \<and> contents m' = fold (\<lambda>(key, val) f. set_entry f key val) (entries cs) (contents m)"
  using assms by (induction cs arbitrary: m) (auto simp: entries_def dest: put_okD split: if_splits option.splits)

lemma fold_set_entry:
  "\<lbrakk>distinct (map fst es); 0 \<notin> snd ` set es\<rbrakk> \<Longrightarrow> fold (\<lambda>(key, val) f. set_entry f key val) es f = f ++ map_of es"
  by (induction es arbitrary: f) (auto simp: set_entry_def dom_map_of_conv_image_fst map_add_upd_left)

lemma entries_nonzero: "0 \<notin> snd ` set (entries d)"
  by (auto simp: entries_def)

lemma unat_exp: "k < 64 \<Longrightarrow> unat ((2 :: u64) ^ k) = 2 ^ k"
  using unat_shl_one [of k] by (simp add: push_bit_eq_mult)

lemma exp_max:
  assumes "j \<le> 64"
  obtains k where "4 \<le> k" "k < 64" "max (2 ^ j) 16 = (2 :: u64) ^ k" "j < 64 \<longrightarrow> k = max j 4"
proof (cases "j < 64")
  case True
  have u: "unat ((2 :: u64) ^ j) = 2 ^ j" using True by (rule unat_exp)
  have "(2 :: u64) ^ j \<le> 16 \<longleftrightarrow> (2 :: nat) ^ j \<le> 2 ^ 4" unfolding word_le_nat_alt u by simp
  also have "\<dots> \<longleftrightarrow> j \<le> 4" by (rule power_increasing_iff) simp
  finally have le: "(2 :: u64) ^ j \<le> 16 \<longleftrightarrow> j \<le> 4" .
  show thesis
  proof (rule that [of "max j 4"])
    show "max (2 ^ j) 16 = (2 :: u64) ^ max j 4" using le by (auto simp: max_def)
  qed (use True in auto)
next
  case False
  then have "j = 64" using assms by simp
  then have "max ((2 :: u64) ^ j) 16 = 2 ^ 4" by simp
  then show thesis by (intro that [of 4]) (use False in auto)
qed

lemma next_pow2_exp: "k < 64 \<Longrightarrow> bit_next_pow2 (2 ^ k) = 2 ^ k"
  using exp_and_pred [of k] by (simp add: bit_next_pow2_def push_bit_eq_mult)

text \<open>The empty table.\<close>

definition fresh :: "nat \<Rightarrow> hashmap" where
  "fresh k = \<lparr>hm_data = Some (replicate (2 ^ k) \<lparr>hc_key = 0, hc_val = 0\<rparr>), hm_mask = mask k, hm_count = 0\<rparr>"

lemma fresh_ok:
  assumes "4 \<le> k" "k < 64"
  shows "hashmap_inv (fresh k)" "sized k (fresh k)" "contents (fresh k) = Map.empty"
proof -
  have "table_ok k (replicate (2 ^ k) \<lparr>hc_key = 0, hc_val = 0\<rparr>)"
    by (simp add: table_ok_def table_keys_def occ_def)
  moreover have "entries (replicate (2 ^ k) \<lparr>hc_key = 0, hc_val = 0\<rparr>) = []" by (simp add: entries_def)
  ultimately show "hashmap_inv (fresh k)" "sized k (fresh k)" "contents (fresh k) = Map.empty"
    using assms by (auto simp: hashmap_inv_def sized_def contents_def fresh_def)
qed

lemma resize_fresh:
  assumes "j \<le> 64"
  obtains k where "4 \<le> k" "k < 64" "j < 64 \<longrightarrow> k = max j 4"
    "resize_with put m (2 ^ j) = (case hm_data m of None \<Rightarrow> Some (fresh k) | Some d \<Rightarrow> put_cells put d (fresh k))"
proof -
  obtain k where k: "4 \<le> k" "k < 64" "max (2 ^ j) 16 = (2 :: u64) ^ k" "j < 64 \<longrightarrow> k = max j 4" by (rule exp_max [OF assms])
  show thesis using that [OF k(1,2,4)] k
    by (cases "hm_data m") (simp_all add: resize_with_def next_pow2_exp fresh_def Let_def unat_exp mask_eq_exp_minus_1)
qed

definition keys_ok :: "hashmap \<Rightarrow> bool" where
  "keys_ok m \<longleftrightarrow> (case hm_data m of None \<Rightarrow> True | Some d \<Rightarrow> table_keys d)"

lemma resize_ok:
  assumes put: "put_ok put" and m: "keys_ok m" and sz: "j \<le> 64" and r: "resize_with put m (2 ^ j) = Some m'"
  shows "hashmap_inv m' \<and> contents m' = contents m"
proof -
  obtain k where k: "4 \<le> k" "k < 64"
    "resize_with put m (2 ^ j) = (case hm_data m of None \<Rightarrow> Some (fresh k) | Some d \<Rightarrow> put_cells put d (fresh k))"
    by (rule resize_fresh [OF sz])
  note f = fresh_ok [OF k(1,2)]
  show ?thesis
  proof (cases "hm_data m")
    case None
    with r f k(3) show ?thesis by (auto simp: contents_def)
  next
    case (Some d)
    have "distinct (map fst (entries d))" using m Some by (simp add: keys_ok_def table_keys_distinct)
    then have "fold (\<lambda>(key, val) f. set_entry f key val) (entries d) Map.empty = map_of (entries d)"
      using fold_set_entry [OF _ entries_nonzero] by simp
    with put_cells_ok [OF put f(1), of d m'] r f(3) k(3) Some show ?thesis
      by (simp add: contents_def [of m])
  qed
qed

lemma capacity_exp: "sized k m \<Longrightarrow> hashmap_capacity m = 2 ^ k"
  by (auto simp: sized_def hashmap_capacity_def mask_eq_exp_minus_1)

lemma hashmap_inv_keys: "hashmap_inv m \<Longrightarrow> keys_ok m"
  by (auto simp: hashmap_inv_def keys_ok_def sized_def dest: table_okD split: option.split)

lemma grow_exp:
  assumes "hashmap_inv m"
  obtains j where "j \<le> 64" "shl (hashmap_capacity m) 1 = 2 ^ j"
proof (cases "hm_data m")
  case None
  then have "hashmap_capacity m = 1" using assms by (auto simp: hashmap_inv_def hashmap_capacity_def sized_def)
  then show thesis using that [of 1] by (simp add: push_bit_eq_mult)
next
  case (Some d)
  then obtain k where k: "sized k m" using assms by (auto simp: hashmap_inv_def)
  then have "k < 64" by (simp add: sized_def)
  then show thesis using that [of "Suc k"] by (simp add: capacity_exp [OF k] push_bit_eq_mult)
qed

lemma grow_ok:
  assumes put: "put_ok put" and m: "hashmap_inv m"
    and r: "(case resize_with put m (shl (hashmap_capacity m) 1) of None \<Rightarrow> None | Some m \<Rightarrow> put m key val) = Some m'"
  shows "hashmap_inv m' \<and> contents m' = set_entry (contents m) key val"
proof -
  obtain j where j: "j \<le> 64" "shl (hashmap_capacity m) 1 = 2 ^ j" using grow_exp [OF m] .
  from r obtain t where t: "resize_with put m (2 ^ j) = Some t" "put t key val = Some m'"
    unfolding j(2) by (auto split: option.splits)
  from resize_ok [OF put hashmap_inv_keys [OF m] j(1) t(1)] put_okD [OF put _ t(2)] show ?thesis by simp
qed

lemma shr_exp: "Suc i < 64 \<Longrightarrow> shr ((2 :: u64) ^ Suc i) 1 = 2 ^ i"
  by (rule bit_word_eqI) (auto simp: bit_simps simp del: power_Suc)

lemma if_Some_cases: "(if a then Some x else if b then y else z) = Some r \<Longrightarrow> a \<and> r = x \<or> y = Some r \<or> z = Some r"
  by (auto split: if_splits)

lemma if_not_None: "\<lbrakk>b \<Longrightarrow> y \<noteq> None; z \<noteq> None\<rbrakk> \<Longrightarrow> (if a then Some x else if b then y else z) \<noteq> None"
  by auto

text \<open>Deleting an entry.\<close>

lemma hole_start:
  assumes t: "table_ok k d" and p: "p < 2 ^ k"
  shows "hole_inv k (d[p := (d ! p)\<lparr>hc_val := 0\<rparr>]) p 0"
proof -
  let ?d = "d[p := (d ! p)\<lparr>hc_val := 0\<rparr>]"
  note l = table_okD [OF t]
  have o: "q < 2 ^ k \<Longrightarrow> occ ?d q \<longleftrightarrow> q \<noteq> p \<and> occ d q" for q using l(1) p by (auto simp: occ_update)
  have key: "hc_key (?d ! q) = hc_key (d ! q)" for q using l(1) p by (cases "q = p") auto
  show ?thesis unfolding hole_inv_def key
    using table_keys_clear [OF l(2)] l(1,3,4) p o by auto
qed

lemma erased:
  assumes m: "hashmap_inv m" "sized k m" "hm_data m = Some d"
    and p: "unat index < 2 ^ k" "occ d (unat index)" "hc_key (d ! unat index) = x"
    and d': "d' = d[unat index := (d ! unat index)\<lparr>hc_val := 0\<rparr>]" and e: "e = m\<lparr>hm_data := Some d', hm_count := hm_count (m\<lparr>hm_data := Some d'\<rparr>) - 1\<rparr>"
  shows "contents e = set_entry (contents m) x 0" "unat (hm_count e) = card (dom (contents e))"
    "card (dom (contents e)) \<le> card (dom (contents m))"
proof -
  have t: "table_ok k d" using m(2,3) by (auto simp: sized_def)
  note l = table_okD [OF t]
  show c: "contents e = set_entry (contents m) x 0"
    using entries_clear [OF l(2) _ p(2)] l(1) p by (simp add: contents_def e m(3) set_entry_def d')
  have some: "contents m x = Some (hc_val (d ! unat index))" using lookup_stop [OF t p] by (simp add: contents_def m(3))
  then have "hm_count m \<noteq> 0" using m(1) finite_contents [of m] by (auto simp: hashmap_inv_def unat_eq_0 [symmetric] card_eq_0_iff)
  then show "unat (hm_count e) = card (dom (contents e))" "card (dom (contents e)) \<le> card (dom (contents m))"
    unfolding c card_set_entry [OF finite_contents] using m(1) some by (simp_all add: e hashmap_inv_def unat_minus_one)
qed

lemma erase_cell:
  assumes put: "put_ok put" and m: "hashmap_inv m" "sized k m" "hm_data m = Some d"
    and p: "unat index < 2 ^ k" "occ d (unat index)" "hc_key (d ! unat index) = x"
    and d': "d' = d[unat index := (d ! unat index)\<lparr>hc_val := 0\<rparr>]" and e: "e = m\<lparr>hm_data := Some d', hm_count := hm_count (m\<lparr>hm_data := Some d'\<rparr>) - 1\<rparr>"
    and r: "(if hm_count e = 0 then Some (hashmap_free e)
       else if hm_count e < shr (hashmap_capacity e) 2 then resize_with put e (shr (hashmap_capacity e) 1)
       else hashmap_rebalance_internal e d' index) = Some m'"
  shows "hashmap_inv m' \<and> contents m' = set_entry (contents m) x 0"
proof -
  have k: "4 \<le> k" "k < 64" "hm_mask m = mask k" and t: "table_ok k d" using m(2,3) by (auto simp: sized_def)
  note l = table_okD [OF t] and en = erased [OF m p d' e]
  have cap: "hashmap_capacity e = 2 ^ k" using capacity_exp [OF m(2)] by (simp add: hashmap_capacity_def e)
  have half: "shr ((2 :: u64) ^ k) 1 = 2 ^ (k - 1)" using k(1,2) shr_exp [of "k - 1"] by simp
  from r have "hm_count e = 0 \<and> m' = hashmap_free e \<or> resize_with put e (2 ^ (k - 1)) = Some m' \<or> hashmap_rebalance_internal e d' index = Some m'"
    unfolding cap half by (rule if_Some_cases)
  then consider "hm_count e = 0" "m' = hashmap_free e" | "resize_with put e (2 ^ (k - 1)) = Some m'" | "hashmap_rebalance_internal e d' index = Some m'" by blast
  then show ?thesis
  proof cases
    case 1
    then have "dom (contents e) = {}" using en(2) finite_contents [of e] by auto
    then have "contents e = Map.empty" by blast
    moreover have "contents m' = Map.empty" "hashmap_inv m'" using 1(2) by (auto simp: hashmap_free_def contents_def hashmap_inv_def)
    ultimately show ?thesis using en(1) by simp
  next
    case 2
    have "keys_ok e" using table_keys_clear [OF l(2)] by (simp add: keys_ok_def e d')
    from resize_ok [OF put this _ 2] k(2) en(1) show ?thesis by simp
  next
    case 3
    have "hole_inv k d' (unat index) 0" unfolding d' by (rule hole_start [OF t p(1)])
    from rebalance_loop_spec [OF k(2) this, of index] p(1) obtain d'' where d'':
      "rebalance_loop (mask k) d' index index = Some d''" "table_ok k d''" "map_of (entries d'') = map_of (entries d')" by auto
    have "d'[unat index := (d' ! unat index)\<lparr>hc_val := 0\<rparr>] = d'"
      using p(1) l(1) by (simp add: d')
    then have m': "m' = e\<lparr>hm_data := Some d''\<rparr>" using 3 d''(1) k(3) by (simp add: hashmap_rebalance_internal_def e)
    then have "contents m' = contents e" using d''(3) by (simp add: contents_def e)
    with m' en d''(2) k show ?thesis by (auto simp: hashmap_inv_def sized_def e)
  qed
qed

lemma put_internal_ok:
  "\<lbrakk>hashmap_inv m; hashmap_put_internal fuel m (hashmap_hash key) key val = Some m'\<rbrakk> \<Longrightarrow>
    hashmap_inv m' \<and> contents m' = set_entry (contents m) key val"
proof (induction fuel arbitrary: m key val m')
  case (Suc fuel)
  have put: "put_ok (put_ptr_with (hashmap_put_internal fuel))" by (rule put_ptr_ok) (rule Suc.IH)
  show ?case
  proof (cases "hm_data m")
    case None
    with grow_ok [OF put Suc.prems(1)] Suc.prems(2) show ?thesis by (simp add: Let_def)
  next
    case (Some d)
    then obtain k where s: "sized k m" using Suc.prems(1) by (auto simp: hashmap_inv_def)
    then have k: "k < 64" "hm_mask m = mask k" and t: "table_ok k d" using Some by (auto simp: sized_def)
    show ?thesis
    proof (cases "hashmap_probe (mask k) d (hashmap_hash key) key 256 0")
      case None
      with grow_ok [OF put Suc.prems(1)] Suc.prems(2) Some k show ?thesis by (simp add: Let_def)
    next
      case index: (Some index)
      note f = probe_found [OF t k(1) index]
      show ?thesis
      proof (cases "occ d (unat index)")
        case False
        with put_found [OF Suc.prems(1) s Some index False, of val] Suc.prems(2) Some k index show ?thesis
          by (auto simp: Let_def occ_def split: if_splits)
      next
        case True
        show ?thesis
        proof (cases "val = 0")
          case v: True
          have "contents m' = set_entry (contents m) key 0 \<and> hashmap_inv m'"
            using erase_cell [OF put Suc.prems(1) s Some f(1) True f(2) [OF True] refl refl, of m'] Suc.prems(2) True v Some k index
            by (simp add: Let_def occ_def)
          with v show ?thesis by simp
        next
          case v: False
          with replace_cell [OF Suc.prems(1) s Some f(1) True f(2) [OF True] v] Suc.prems(2) True Some k index show ?thesis
            by (auto simp: Let_def occ_def)
        qed
      qed
    qed
  qed
qed simp

section \<open>Insertion returns\<close>

text \<open>With an empty cell among those that are probed, the table is not rebuilt.\<close>

lemma occupied_card:
  assumes "table_keys d" "P \<subseteq> {..<length d}" "\<And>p. p \<in> P \<Longrightarrow> occ d p"
  shows "card P \<le> card (dom (map_of (entries d)))"
proof -
  have inj: "inj_on (\<lambda>p. hc_key (d ! p)) P"
    by (rule inj_onI) (use assms table_keysD [OF assms(1)] in blast)
  have "(\<lambda>p. hc_key (d ! p)) ` P \<subseteq> dom (map_of (entries d))"
    using map_of_entries [OF assms(1)] assms(2,3) by (auto simp: dom_def)
  then have "card ((\<lambda>p. hc_key (d ! p)) ` P) \<le> card (dom (map_of (entries d)))"
    by (intro card_mono finite_dom_map_of)
  then show ?thesis by (simp add: card_image [OF inj])
qed

lemma probe_room:
  assumes t: "table_ok k d" "k < 64" and c: "card (dom (map_of (entries d))) < min 256 (2 ^ k)"
  shows "hashmap_probe (mask k) d (hashmap_hash x) x 256 0 \<noteq> None"
proof
  assume n: "hashmap_probe (mask k) d (hashmap_hash x) x 256 0 = None"
  let ?f = "\<lambda>j. (home k x + j) mod 2 ^ k"
  let ?P = "?f ` {..<min 256 (2 ^ k)}"
  have o: "occ d (?f j)" if "j < 256" for j using probe_lookup [OF t(1), of x] t(2) n that by simp
  have "inj_on ?f {..<min 256 (2 ^ k)}"
  proof (rule inj_onI)
    fix i j assume ij: "i \<in> {..<min 256 (2 ^ k)}" "j \<in> {..<min 256 (2 ^ k)}" "?f i = ?f j"
    have "dist (2 ^ k) (home k x) (?f i) = i" "dist (2 ^ k) (home k x) (?f j) = j"
      using ij(1,2) by (simp_all only: lessThan_iff min_less_iff_conj dist_add [OF home_less])
    then show "i = j" using ij(3) by metis
  qed
  then have "card ?P = min 256 (2 ^ k)" by (simp add: card_image)
  moreover have "card ?P \<le> card (dom (map_of (entries d)))"
    by (rule occupied_card [OF table_okD(2) [OF t(1)]]) (auto simp: table_okD(1) [OF t(1)] intro: o)
  ultimately show False using c by simp
qed

lemma put_ptr_fast:
  assumes "sized k m" "put_internal m (hashmap_hash key) key val \<noteq> None"
  shows "put_ptr_with put_internal m key val \<noteq> None"
  using assms by (auto simp: put_ptr_with_def sized_def Let_def)

lemma put_room:
  assumes m: "hashmap_inv m" "sized k m" and c: "card (dom (contents m)) < min 256 (2 ^ k)" and v: "val \<noteq> 0 \<or> contents m key = None"
  obtains m' where "put_ptr_with (hashmap_put_internal (Suc f)) m key val = Some m'" "hashmap_inv m'" "sized k m'"
    "contents m' = set_entry (contents m) key val"
proof -
  let ?put = "hashmap_put_internal (Suc f)"
  from m(2) obtain d where d: "k < 64" "hm_mask m = mask k" "hm_data m = Some d" "table_ok k d" "contents m = map_of (entries d)" by (rule sizedE)
  from probe_room [OF d(4,1), of key] c d(5) obtain index where index: "hashmap_probe (mask k) d (hashmap_hash key) key 256 0 = Some index" by auto
  note f = probe_found [OF d(4,1) index]
  have "\<exists>m'. ?put m (hashmap_hash key) key val = Some m' \<and> sized k m'"
  proof (cases "occ d (unat index)")
    case False
    with put_found [OF m d(3) index False, of val] d index show ?thesis by (auto simp: Let_def occ_def)
  next
    case True
    have "contents m key \<noteq> None" using lookup_stop [OF d(4) f(1) True f(2) [OF True]] d(5) by simp
    with v have v: "val \<noteq> 0" by simp
    with replace_cell [OF m d(3) f(1) True f(2) [OF True] v] True d index show ?thesis by (auto simp: Let_def occ_def)
  qed
  then obtain m'' where m'': "?put m (hashmap_hash key) key val = Some m''" "sized k m''" by blast
  then obtain m' where r: "put_ptr_with ?put m key val = Some m'" using put_ptr_fast [OF m(2), of ?put key val] by auto
  have "put_ok (put_ptr_with ?put)" by (rule put_ptr_ok) (rule put_internal_ok)
  from put_okD [OF this m(1) r] put_ptr_result [OF m r] m'' that [OF r] show thesis by auto
qed

declare hashmap_put_internal.simps(2) [simp del]

lemma put_cells_room:
  "\<lbrakk>hashmap_inv m; sized k m; card (dom (contents m)) + length (entries cs) \<le> min 256 (2 ^ k)\<rbrakk> \<Longrightarrow>
    \<exists>m'. put_cells (put_ptr_with (hashmap_put_internal (Suc f))) cs m = Some m' \<and> sized k m'"
proof (induction cs arbitrary: m)
  case (Cons c cs)
  show ?case
  proof (cases "hc_val c = 0")
    case True
    then show ?thesis using Cons by (simp add: entries_def)
  next
    case False
    then have len: "length (entries (c # cs)) = Suc (length (entries cs))" by (simp add: entries_def)
    obtain m' where m': "put_ptr_with (hashmap_put_internal (Suc f)) m (hc_key c) (hc_val c) = Some m'" "hashmap_inv m'" "sized k m'"
      "contents m' = set_entry (contents m) (hc_key c) (hc_val c)"
      by (rule put_room [OF Cons.prems(1,2), where key = "hc_key c" and val = "hc_val c" and f = f]) (use Cons.prems(3) len False in auto)
    have "card (dom (contents m')) \<le> Suc (card (dom (contents m)))"
      unfolding m'(4) card_set_entry [OF finite_contents] by auto
    then have "card (dom (contents m')) + length (entries cs) \<le> min 256 (2 ^ k)" using Cons.prems(3) len by linarith
    from Cons.IH [OF m'(2,3) this] show ?thesis using m'(1) False by simp
  qed
qed simp

lemma card_entries: "table_keys d \<Longrightarrow> card (dom (map_of (entries d))) = length (entries d)"
  unfolding table_keys_distinct dom_map_of_conv_image_fst
  using distinct_card [of "map fst (entries d)"] by simp

lemma resize_room:
  assumes m: "keys_ok m" and j: "j < 64" and c: "card (dom (contents m)) \<le> min 256 (2 ^ max j 4)"
  obtains m' where "resize_with (put_ptr_with (hashmap_put_internal (Suc f))) m (2 ^ j) = Some m'" "hashmap_inv m'"
    "sized (max j 4) m'" "contents m' = contents m"
proof -
  let ?put = "put_ptr_with (hashmap_put_internal (Suc f))"
  obtain k where k: "4 \<le> k" "k < 64" "k = max j 4"
    "resize_with ?put m (2 ^ j) = (case hm_data m of None \<Rightarrow> Some (fresh k) | Some d \<Rightarrow> put_cells ?put d (fresh k))"
    using resize_fresh [of j ?put m] j by (metis less_imp_le_nat)
  note fr = fresh_ok [OF k(1,2)]
  have put: "put_ok ?put" by (rule put_ptr_ok) (rule put_internal_ok)
  have "\<exists>m'. resize_with ?put m (2 ^ j) = Some m' \<and> sized k m'"
  proof (cases "hm_data m")
    case (Some d)
    then have "card (dom (contents (fresh k))) + length (entries d) \<le> min 256 (2 ^ k)"
      unfolding fr(3) using m c k(3) by (simp add: keys_ok_def contents_def card_entries)
    from put_cells_room [OF fr(1,2) this] show ?thesis using k(4) Some by simp
  qed (use k fr in simp)
  then obtain m' where r: "resize_with ?put m (2 ^ j) = Some m'" "sized k m'" by blast
  with resize_ok [OF put m _ r(1)] j that [OF r(1)] k(3) show thesis by simp
qed

lemma grow_room:
  assumes m: "hashmap_inv m" "contents m key = None" and c: "card (dom (contents m)) < 256"
    and s: "hm_data m = None \<or> (\<exists>k < 63. sized k m)"
  shows "(case resize_with (put_ptr_with (hashmap_put_internal (Suc f))) m (shl (hashmap_capacity m) 1) of
    None \<Rightarrow> None | Some t \<Rightarrow> put_ptr_with (hashmap_put_internal (Suc f)) t key val) \<noteq> None"
proof -
  obtain j where j: "j < 64" "shl (hashmap_capacity m) 1 = 2 ^ j" "card (dom (contents m)) < 2 ^ max j 4"
  proof (cases "hm_data m")
    case None
    then have "hashmap_capacity m = 1" "contents m = Map.empty"
      using m(1) by (auto simp: hashmap_inv_def hashmap_capacity_def sized_def contents_def)
    then show thesis using that [of 1] by (simp add: push_bit_eq_mult)
  next
    case (Some d)
    then obtain k where k: "k < 63" "sized k m" using s by auto
    then have t: "table_ok k d" "4 \<le> k" using Some by (auto simp: sized_def)
    have "card (dom (contents m)) \<le> 2 ^ k" using card_dom_entries [of d] table_okD(1) [OF t(1)] Some by (simp add: contents_def)
    also have "\<dots> < 2 ^ max (Suc k) 4" using t(2) by (simp add: max_def)
    finally show thesis using that [of "Suc k"] k by (simp add: capacity_exp [OF k(2)] push_bit_eq_mult)
  qed
  obtain t where t: "resize_with (put_ptr_with (hashmap_put_internal (Suc f))) m (2 ^ j) = Some t" "hashmap_inv t" "sized (max j 4) t" "contents t = contents m"
    by (rule resize_room [OF hashmap_inv_keys [OF m(1)] j(1)]) (use c j(3) in simp_all)
  have "put_ptr_with (hashmap_put_internal (Suc f)) t key val \<noteq> None"
    by (rule put_room [OF t(2,3), where key = key and val = val and f = f]) (use c j(3) m(2) t(4) in auto)
  then show ?thesis unfolding j(2) t(1) by simp
qed

lemma erase_room:
  assumes t: "table_ok k d" "4 \<le> k" "k < 64" and p: "unat index < 2 ^ k" and mk: "hm_mask m = mask k"
    and d': "d' = d[unat index := (d ! unat index)\<lparr>hc_val := 0\<rparr>]" and e: "hm_data m = Some d'"
    and n: "unat (hm_count m) = card (dom (contents m))" "card (dom (contents m)) < 256"
  shows "(if hm_count m = 0 then Some (hashmap_free m)
       else if hm_count m < shr (hashmap_capacity m) 2 then resize_with (put_ptr_with (hashmap_put_internal (Suc f))) m (shr (hashmap_capacity m) 1)
       else hashmap_rebalance_internal m d' index) \<noteq> None"
proof -
  let ?put = "put_ptr_with (hashmap_put_internal (Suc f))"
  note l = table_okD [OF t(1)]
  have cap: "hashmap_capacity m = 2 ^ k" using mk by (simp add: hashmap_capacity_def mask_eq_exp_minus_1)
  have half: "shr ((2 :: u64) ^ k) 1 = 2 ^ (k - 1)" using t(2,3) shr_exp [of "k - 1"] by simp
  have ks: "keys_ok m" using table_keys_clear [OF l(2)] by (simp add: keys_ok_def e d')
  have "resize_with ?put m (2 ^ (k - 1)) \<noteq> None" if lt: "hm_count m < shr (2 ^ k) 2"
  proof -
    have "unat (hm_count m) < 2 ^ k div 4"
      using lt t(3) unfolding word_less_nat_alt unsigned_drop_bit_eq unat_exp [OF t(3)] by (simp add: drop_bit_eq_div)
    also have "\<dots> \<le> 2 ^ (k - 1)" using t(2) by (cases k) simp_all
    also have "\<dots> \<le> 2 ^ max (k - 1) 4" by (intro power_increasing) simp_all
    finally have c: "card (dom (contents m)) \<le> min 256 (2 ^ max (k - 1) 4)" using n by simp
    have "k - 1 < 64" using t(3) by simp
    from resize_room [OF ks this c, of f] show ?thesis by (metis option.distinct(1))
  qed
  moreover have "hashmap_rebalance_internal m d' index \<noteq> None"
  proof -
    have h: "hole_inv k d' (unat index) 0" unfolding d' by (rule hole_start [OF t(1) p])
    have "d'[unat index := (d' ! unat index)\<lparr>hc_val := 0\<rparr>] = d'" using p l(1) by (simp add: d')
    with rebalance_loop_spec [OF t(3) h, of index] p mk show ?thesis by (auto simp: hashmap_rebalance_internal_def)
  qed
  ultimately show ?thesis unfolding cap half by (rule if_not_None)
qed

lemma put_internal_total:
  assumes m: "hashmap_inv m" and c: "card (dom (contents m)) < 256"
  shows "hashmap_put_internal (Suc (Suc f)) m (hashmap_hash key) key val \<noteq> None"
proof (cases "hm_data m")
  case None
  then have "contents m key = None" by (simp add: contents_def)
  from grow_room [OF m this c, of f val] None show ?thesis by (simp add: Let_def hashmap_put_internal.simps(2) [of "Suc f"])
next
  case (Some d)
  then obtain k where s: "sized k m" using m by (auto simp: hashmap_inv_def)
  then have k: "4 \<le> k" "k < 64" "hm_mask m = mask k" and t: "table_ok k d" using Some by (auto simp: sized_def)
  have cd: "contents m = map_of (entries d)" using Some by (simp add: contents_def)
  show ?thesis
  proof (cases "hashmap_probe (mask k) d (hashmap_hash key) key 256 0")
    case None
    have "\<not> 256 \<le> (2 :: nat) ^ k" using probe_room [OF t k(2), of key] None c cd by (auto simp: min_def split: if_splits)
    then have "\<not> 8 \<le> k" using power_increasing [of 8 k "2 :: nat"] by auto
    then have "k < 63" by simp
    moreover have "contents m key = None" using probe_lookup [OF t, of key] k(2) None cd by simp
    ultimately have "(case resize_with (put_ptr_with (hashmap_put_internal (Suc f))) m (shl (hashmap_capacity m) 1) of
        None \<Rightarrow> None | Some t \<Rightarrow> put_ptr_with (hashmap_put_internal (Suc f)) t key val) \<noteq> None"
      using grow_room [OF m _ c] s by blast
    then show ?thesis using Some k None by (simp add: Let_def hashmap_put_internal.simps(2) [of "Suc f"])
  next
    case index: (Some index)
    note f = probe_found [OF t k(2) index]
    show ?thesis
    proof (cases "occ d (unat index) \<and> val = 0")
      case False
      then show ?thesis using Some k index by (auto simp: Let_def occ_def hashmap_put_internal.simps(2) [of "Suc f"])
    next
      case True
      let ?d = "d[unat index := (d ! unat index)\<lparr>hc_val := 0\<rparr>]"
      let ?e = "m\<lparr>hm_data := Some ?d, hm_count := hm_count (m\<lparr>hm_data := Some ?d\<rparr>) - 1\<rparr>"
      note en = erased [OF m s Some f(1) _ f(2) refl refl]
      have "unat (hm_count ?e) = card (dom (contents ?e))" "card (dom (contents ?e)) < 256" using en(2,3) True c by auto
      then show ?thesis using erase_room [OF t k(1,2) f(1), of ?e ?d f] Some k index True
        by (simp add: Let_def occ_def hashmap_put_internal.simps(2) [of "Suc f"])
    qed
  qed
qed

section \<open>The contract of a map\<close>

text \<open>
  What the users of the map rely on, for a bounded number of keys: a lookup gives what the last
  insertion of its key stored, where the null value stands for no entry.
\<close>

primrec put_all :: "('m \<Rightarrow> 'k \<Rightarrow> 'v \<Rightarrow> 'm option) \<Rightarrow> ('k \<times> 'v) list \<Rightarrow> 'm \<Rightarrow> 'm option" where
  "put_all put [] m = Some m"
| "put_all put (kv # kvs) m = (case put m (fst kv) (snd kv) of None \<Rightarrow> None | Some m \<Rightarrow> put_all put kvs m)"

locale map_contract =
  fixes map_inv :: "'m \<Rightarrow> bool"
    and map_abs :: "'m \<Rightarrow> 'k \<rightharpoonup> 'v"
    and map_room :: nat
    and map_null :: 'v
    and map_get :: "'m \<Rightarrow> 'k \<Rightarrow> 'v"
    and map_put :: "'m \<Rightarrow> 'k \<Rightarrow> 'v \<Rightarrow> 'm option"
  assumes get_abs: "map_inv m \<Longrightarrow> map_get m key = (case map_abs m key of None \<Rightarrow> map_null | Some val \<Rightarrow> val)"
    and put_abs: "\<lbrakk>map_inv m; map_put m key val = Some m'\<rbrakk> \<Longrightarrow>
      map_inv m' \<and> map_abs m' = (map_abs m)(key := if val = map_null then None else Some val)"
    and put_returns: "\<lbrakk>map_inv m; card (dom (map_abs m)) < map_room\<rbrakk> \<Longrightarrow> map_put m key val \<noteq> None"
begin

lemma put_all_abs:
  "\<lbrakk>map_inv m; dom (map_abs m) \<subseteq> K; fst ` set kvs \<subseteq> K; finite K; card K < map_room\<rbrakk> \<Longrightarrow>
    \<exists>m'. put_all map_put kvs m = Some m' \<and> map_inv m'
      \<and> (\<forall>key. map_abs m' key = (case map_of (rev kvs) key of None \<Rightarrow> map_abs m key
           | Some val \<Rightarrow> if val = map_null then None else Some val))"
proof (induction kvs arbitrary: m)
  case (Cons kv kvs)
  obtain key val where kv: "kv = (key, val)" by fastforce
  have "card (dom (map_abs m)) \<le> card K" using Cons.prems(2,4) by (simp add: card_mono)
  with put_returns [OF Cons.prems(1)] Cons.prems(5) obtain m1 where m1: "map_put m key val = Some m1" by fastforce
  note a = put_abs [OF Cons.prems(1) m1]
  have dm: "dom (map_abs m1) \<subseteq> K" using a Cons.prems(2,3) kv by (auto split: if_splits)
  have ks: "fst ` set kvs \<subseteq> K" using Cons.prems(3) by simp
  from Cons.IH [OF conjunct1 [OF a] dm ks Cons.prems(4,5)] obtain m' where m': "put_all map_put kvs m1 = Some m'" "map_inv m'"
    "\<forall>y. map_abs m' y = (case map_of (rev kvs) y of None \<Rightarrow> map_abs m1 y | Some val \<Rightarrow> if val = map_null then None else Some val)" by blast
  then show ?case using m1 a kv by (auto simp: map_add_def split: option.split)
qed simp

lemma put_all_get:
  assumes "map_inv m" "map_abs m = Map.empty" "card (fst ` set kvs) < map_room"
  shows "\<exists>m'. put_all map_put kvs m = Some m' \<and> map_inv m'
    \<and> (\<forall>key. map_get m' key = (case map_of (rev kvs) key of None \<Rightarrow> map_null | Some val \<Rightarrow> val))
    \<and> dom (map_abs m') = {key. \<exists>val. map_of (rev kvs) key = Some val \<and> val \<noteq> map_null}"
proof -
  from put_all_abs [OF assms(1), of "fst ` set kvs" kvs, unfolded assms(2)] assms(3) obtain m' where m': "put_all map_put kvs m = Some m'" "map_inv m'"
    "\<forall>y. map_abs m' y = (case map_of (rev kvs) y of None \<Rightarrow> None | Some val \<Rightarrow> if val = map_null then None else Some val)" by auto
  have "map_get m' key = (case map_of (rev kvs) key of None \<Rightarrow> map_null | Some val \<Rightarrow> val)" for key
    using m'(3) get_abs [OF m'(2)] by (auto split: option.split)
  moreover have "dom (map_abs m') = {key. \<exists>val. map_of (rev kvs) key = Some val \<and> val \<noteq> map_null}"
    by (auto simp: dom_def m'(3) split: option.splits if_splits)
  ultimately show ?thesis using m'(1,2) by blast
qed

end

lemma hashmap_get_abs:
  assumes m: "hashmap_inv m"
  shows "hashmap_get_ptr m key = (case contents m key of None \<Rightarrow> 0 | Some val \<Rightarrow> val)"
proof (cases "hm_data m")
  case (Some d)
  then obtain k where "sized k m" using m by (auto simp: hashmap_inv_def)
  then have k: "k < 64" "hm_mask m = mask k" and t: "table_ok k d" using Some by (auto simp: sized_def)
  have cd: "contents m = map_of (entries d)" using Some by (simp add: contents_def)
  have probe: "(case hashmap_probe (mask k) d (hashmap_hash key) key 256 0 of None \<Rightarrow> 0 | Some index \<Rightarrow> hc_val (d ! unat index))
      = (case contents m key of None \<Rightarrow> 0 | Some val \<Rightarrow> val)"
  proof (cases "hashmap_probe (mask k) d (hashmap_hash key) key 256 0")
    case None
    then show ?thesis using probe_lookup [OF t, of key] k(1) cd by simp
  next
    case (Some index)
    note f = probe_found [OF t k(1) Some]
    show ?thesis
      using f(3) lookup_stop [OF t f(1) _ f(2)] Some cd by (cases "occ d (unat index)") (auto simp: occ_def)
  qed
  have first: "hashmap_probe (mask k) d (hashmap_hash key) key 256 0 = Some (hashmap_hash key AND mask k)"
    if "stops d key (unat (hashmap_hash key AND mask k))"
    using probe_first [OF that, of 255] by (simp only: numeral_eq_Suc pred_numeral_simps BitM.simps)
  show ?thesis using first probe Some k
    by (auto simp: hashmap_get_ptr_def hashmap_get_internal_def Let_def stops_def occ_def)
qed (simp add: hashmap_get_ptr_def contents_def)

interpretation hash: map_contract hashmap_inv contents 256 0 hashmap_get_ptr "hashmap_put_ptr (Suc (Suc fuel))" for fuel
proof
  show "hashmap_get_ptr m key = (case contents m key of None \<Rightarrow> 0 | Some val \<Rightarrow> val)" if "hashmap_inv m" for m key
    by (rule hashmap_get_abs [OF that])
  show "hashmap_inv m' \<and> contents m' = (contents m)(key := if val = 0 then None else Some val)"
    if "hashmap_inv m" "hashmap_put_ptr (Suc (Suc fuel)) m key val = Some m'" for m m' key val
    using put_okD [OF put_ptr_ok, of "hashmap_put_internal (Suc (Suc fuel))" m key val m'] put_internal_ok that
    by (auto simp: hashmap_put_ptr_def set_entry_def)
  show "hashmap_put_ptr (Suc (Suc fuel)) m key val \<noteq> None" if "hashmap_inv m" "card (dom (contents m)) < 256" for m key val
    using put_internal_total [OF that, of fuel key val]
    by (cases "hm_data m") (auto simp: hashmap_put_ptr_def put_ptr_with_def Let_def)
qed

lemma hashmap_init_ok: "hashmap_inv hashmap_init" "contents hashmap_init = Map.empty"
  by (simp_all add: hashmap_init_def hashmap_inv_def contents_def)

section \<open>Properties\<close>

text \<open>
  C34. The hash map is a map: whatever insertions and deletions of fewer than 256 distinct keys are
  made on a new map, every one of them returns, a lookup gives the value stored last for its key, or
  the null pointer if there is none or it was deleted, and the count is the number of keys that have
  a value.  Growing and compacting the table, and moving cells on a deletion, lose and duplicate nothing.
\<close>

theorem hashmap_refines:
  assumes "card (fst ` set kvs) < 256" and "2 \<le> fuel"
  shows "\<exists>m. put_all (hashmap_put_ptr fuel) kvs hashmap_init = Some m
    \<and> (\<forall>key. hashmap_get_ptr m key = (case map_of (rev kvs) key of None \<Rightarrow> 0 | Some val \<Rightarrow> val))
    \<and> unat (hashmap_size m) = card {key. \<exists>val. map_of (rev kvs) key = Some val \<and> val \<noteq> 0}"
proof -
  have "fuel = Suc (Suc (fuel - 2))" using assms(2) by simp
  then obtain f where f: "fuel = Suc (Suc f)" by blast
  from hash.put_all_get [OF hashmap_init_ok assms(1), of f] obtain m where m: "put_all (hashmap_put_ptr fuel) kvs hashmap_init = Some m"
    "hashmap_inv m" "\<forall>key. hashmap_get_ptr m key = (case map_of (rev kvs) key of None \<Rightarrow> 0 | Some val \<Rightarrow> val)"
    "dom (contents m) = {key. \<exists>val. map_of (rev kvs) key = Some val \<and> val \<noteq> 0}" unfolding f by blast
  have "unat (hashmap_size m) = card (dom (contents m))" using m(2) by (simp add: hashmap_inv_def hashmap_size_def)
  with m show ?thesis unfolding m(4) by blast
qed

theorem hashmap_refines_witness:
  "card (fst ` set [(5 :: u64, 7 :: u64), (21, 8), (5, 0), (9, 3)]) < 256 \<and>
   (\<exists>m. put_all (hashmap_put_ptr 2) [(5, 7), (21, 8), (5, 0), (9, 3)] hashmap_init = Some m
     \<and> hashmap_get_ptr m 5 = 0 \<and> hashmap_get_ptr m 21 = 8 \<and> hashmap_get_ptr m 9 = 3 \<and> hashmap_get_ptr m 1 = 0)"
proof -
  let ?kvs = "[(5, 7), (21, 8), (5, 0), (9, 3)] :: (u64 \<times> u64) list"
  have c: "card (fst ` set ?kvs) < 256" by code_simp
  from hashmap_refines [OF c order_refl] c show ?thesis by auto
qed

end
