(* ===== verification/HartState.thy ===== *)
theory HartState
  imports BitOps
begin

text \<open>
  The state of a hart, \<^verbatim>\<open>struct rvvm_hart_t\<close> of \<^verbatim>\<open>src/core/rvvm.h\<close>, in the build with
  \<^verbatim>\<open>USE_RV64\<close> and \<^verbatim>\<open>USE_RV32\<close> and without the JIT, the FPU and the vector unit.

  Conventions.  A host pointer is a 64-bit address into \<open>host\<close>, the memory of the process; guest
  RAM is the part of it that starts at \<open>mem_data\<close>.  Arrays indexed by a privilege mode or a
  register number are functions on naturals.  Privilege and MMU modes are naturals.  The clock
  is a field: \<open>timer\<close> is what \<^verbatim>\<open>rvtimer_get\<close> returns at this moment, and it changes only where
  other threads or the passage of time are modelled.  \<open>devs\<close> is the state of the devices
  attached to the machine, of a type the model does not fix.  Operations of atomics on hart
  fields are plain updates: the model follows one hart, and what other threads do to it in
  between is a step of its own.
\<close>

record tlb_entry =
  tlb_ptr :: u64
  tlb_r :: u64
  tlb_w :: u64
  tlb_e :: u64

record aia_regfile =
  eidelivery :: u32
  eithreshold :: u32
  eip :: "nat \<Rightarrow> u32"
  eie :: "nat \<Rightarrow> u32"

record csr_file =
  csr_status :: u64
  csr_ie :: u64
  csr_ip :: u64
  csr_isa :: u64
  csr_edeleg :: "nat \<Rightarrow> u64"
  csr_ideleg :: "nat \<Rightarrow> u64"
  csr_tvec :: "nat \<Rightarrow> u64"
  csr_scratch :: "nat \<Rightarrow> u64"
  csr_epc :: "nat \<Rightarrow> u64"
  csr_cause :: "nat \<Rightarrow> u64"
  csr_tval :: "nat \<Rightarrow> u64"
  csr_iselect :: "nat \<Rightarrow> u64"
  csr_counteren :: "nat \<Rightarrow> u64"
  csr_envcfg :: "nat \<Rightarrow> u64"
  csr_mseccfg :: u64
  csr_fcsr :: u32
  csr_vcsr :: u32
  csr_vtype :: u32
  csr_hartid :: u32

record 'd hart =
  running :: bool
  registers :: "nat \<Rightarrow> u64"
  tlb :: "nat \<Rightarrow> tlb_entry"
  mem_addr :: u64
  mem_size :: u64
  mem_data :: u64
  host :: host_mem
  root_page_table :: u64
  mmu_mode :: nat
  priv_mode :: nat
  rv64 :: bool
  trap :: bool
  trap_pc :: u64
  userland :: bool
  lrsc :: bool
  lrsc_addr :: u64
  lrsc_cas :: u64
  csr :: csr_file
  aia :: "(bool \<Rightarrow> aia_regfile) option"
  wfi_flag :: bool
  wfi_waiters :: nat
  mtimecmp :: u64
  stimecmp :: u64
  timer :: u64
  pending_irqs :: u32
  pending_events :: u32
  preempt_ms :: u32
  devs :: 'd

text \<open>
  An MMIO region of \<^verbatim>\<open>rvvm_mmio_dev_t\<close>: a handler receives the hart (whose \<open>devs\<close> hold the
  device), the data buffer, the offset and the access size, and returns success, the buffer and
  the hart.  A direct mapping is a host pointer.
\<close>

type_synonym 'd mmio_handler = "'d hart \<Rightarrow> u8 list \<Rightarrow> u64 \<Rightarrow> nat \<Rightarrow> bool \<times> u8 list \<times> 'd hart"

record 'd mmio_dev =
  md_addr :: u64
  md_size :: u64
  md_read :: "'d mmio_handler option"
  md_write :: "'d mmio_handler option"
  md_mapping :: "u64 option"
  md_min_op_size :: nat
  md_max_op_size :: nat

text \<open>
  What a hart reads of its machine and of the host environment: the devices on the bus, whether
  the machine is 64-bit, the frequency of its timer, the GDB stub's answer to a breakpoint, the command-line arguments that
  the CPU consults, the random bytes for the seed CSR, the build's version number, the effect of
  a sleep on the hart, and the number of sleeps of one \<^verbatim>\<open>wfi\<close>.
\<close>

record 'd machine =
  mc_mmio_devs :: "'d mmio_dev list"
  mc_rv64 :: bool
  mc_freq :: u64
  mc_gdbstub_halt :: "bool option"
  mc_arg_sv57 :: bool
  mc_random :: "'d hart \<Rightarrow> u16"
  mc_mimpid :: u32
  mc_wait :: "u64 \<Rightarrow> 'd hart \<Rightarrow> 'd hart"
  mc_wfi_rounds :: nat

abbreviation (input) RISCV_REG_PC :: nat where "RISCV_REG_PC \<equiv> 32"
abbreviation (input) RVVM_TLB_SIZE :: nat where "RVVM_TLB_SIZE \<equiv> 256"

abbreviation (input) RISCV_PRIV_USER :: nat where "RISCV_PRIV_USER \<equiv> 0"
abbreviation (input) RISCV_PRIV_SUPERVISOR :: nat where "RISCV_PRIV_SUPERVISOR \<equiv> 1"
abbreviation (input) RISCV_PRIV_HYPERVISOR :: nat where "RISCV_PRIV_HYPERVISOR \<equiv> 2"
abbreviation (input) RISCV_PRIV_MACHINE :: nat where "RISCV_PRIV_MACHINE \<equiv> 3"

abbreviation (input) RISCV_INTERRUPT_SSOFTWARE :: u8 where "RISCV_INTERRUPT_SSOFTWARE \<equiv> 1"
abbreviation (input) RISCV_INTERRUPT_MSOFTWARE :: u8 where "RISCV_INTERRUPT_MSOFTWARE \<equiv> 3"
abbreviation (input) RISCV_INTERRUPT_STIMER :: u8 where "RISCV_INTERRUPT_STIMER \<equiv> 5"
abbreviation (input) RISCV_INTERRUPT_MTIMER :: u8 where "RISCV_INTERRUPT_MTIMER \<equiv> 7"
abbreviation (input) RISCV_INTERRUPT_SEXTERNAL :: u8 where "RISCV_INTERRUPT_SEXTERNAL \<equiv> 9"
abbreviation (input) RISCV_INTERRUPT_MEXTERNAL :: u8 where "RISCV_INTERRUPT_MEXTERNAL \<equiv> 0xB"

abbreviation (input) RISCV_TRAP_INSN_MISALIGN :: u8 where "RISCV_TRAP_INSN_MISALIGN \<equiv> 0"
abbreviation (input) RISCV_TRAP_INSN_FETCH :: u8 where "RISCV_TRAP_INSN_FETCH \<equiv> 1"
abbreviation (input) RISCV_TRAP_ILL_INSN :: u8 where "RISCV_TRAP_ILL_INSN \<equiv> 2"
abbreviation (input) RISCV_TRAP_BREAKPOINT :: u8 where "RISCV_TRAP_BREAKPOINT \<equiv> 3"
abbreviation (input) RISCV_TRAP_LOAD_MISALIGN :: u8 where "RISCV_TRAP_LOAD_MISALIGN \<equiv> 4"
abbreviation (input) RISCV_TRAP_LOAD_FAULT :: u8 where "RISCV_TRAP_LOAD_FAULT \<equiv> 5"
abbreviation (input) RISCV_TRAP_STORE_MISALIGN :: u8 where "RISCV_TRAP_STORE_MISALIGN \<equiv> 6"
abbreviation (input) RISCV_TRAP_STORE_FAULT :: u8 where "RISCV_TRAP_STORE_FAULT \<equiv> 7"
abbreviation (input) RISCV_TRAP_ECALL_UMODE :: u8 where "RISCV_TRAP_ECALL_UMODE \<equiv> 8"
abbreviation (input) RISCV_TRAP_INSN_PAGEFAULT :: u8 where "RISCV_TRAP_INSN_PAGEFAULT \<equiv> 0xC"
abbreviation (input) RISCV_TRAP_LOAD_PAGEFAULT :: u8 where "RISCV_TRAP_LOAD_PAGEFAULT \<equiv> 0xD"
abbreviation (input) RISCV_TRAP_STORE_PAGEFAULT :: u8 where "RISCV_TRAP_STORE_PAGEFAULT \<equiv> 0xF"

abbreviation (input) CSR_STATUS_MPRV :: u64 where "CSR_STATUS_MPRV \<equiv> 0x20000"
abbreviation (input) CSR_STATUS_SUM :: u64 where "CSR_STATUS_SUM \<equiv> 0x40000"
abbreviation (input) CSR_STATUS_MXR :: u64 where "CSR_STATUS_MXR \<equiv> 0x80000"
abbreviation (input) CSR_STATUS_TVM :: u64 where "CSR_STATUS_TVM \<equiv> 0x100000"
abbreviation (input) CSR_STATUS_TW :: u64 where "CSR_STATUS_TW \<equiv> 0x200000"
abbreviation (input) CSR_STATUS_TSR :: u64 where "CSR_STATUS_TSR \<equiv> 0x400000"

abbreviation (input) CSR_SATP_MODE_BARE :: nat where "CSR_SATP_MODE_BARE \<equiv> 0"
abbreviation (input) CSR_SATP_MODE_SV32 :: nat where "CSR_SATP_MODE_SV32 \<equiv> 1"
abbreviation (input) CSR_SATP_MODE_SV39 :: nat where "CSR_SATP_MODE_SV39 \<equiv> 8"
abbreviation (input) CSR_SATP_MODE_SV48 :: nat where "CSR_SATP_MODE_SV48 \<equiv> 9"
abbreviation (input) CSR_SATP_MODE_SV57 :: nat where "CSR_SATP_MODE_SV57 \<equiv> 10"

abbreviation (input) CSR_MISA_RV32 :: u64 where "CSR_MISA_RV32 \<equiv> 0x40000000"
abbreviation (input) CSR_MISA_RV64 :: u64 where "CSR_MISA_RV64 \<equiv> 0x8000000000000000"

section \<open>Field access\<close>

definition reg_pc :: "'d hart \<Rightarrow> u64" where
  "reg_pc vm = registers vm RISCV_REG_PC"

definition set_reg :: "'d hart \<Rightarrow> nat \<Rightarrow> u64 \<Rightarrow> 'd hart" where
  "set_reg vm reg data = vm\<lparr>registers := (registers vm)(reg := data)\<rparr>"

text \<open>
  The register accessors of the interpreter template, whose \<^verbatim>\<open>xlen_t\<close> is the word type
  \<^typ>\<open>'x word\<close>: a read truncates the register, a write extends the sign.
\<close>

definition riscv_read_reg :: "'d hart \<Rightarrow> nat \<Rightarrow> 'x::len word" where
  "riscv_read_reg vm reg = ucast (registers vm reg)"

definition riscv_write_reg :: "'d hart \<Rightarrow> nat \<Rightarrow> 'x::len word \<Rightarrow> 'd hart" where
  "riscv_write_reg vm reg data = set_reg vm reg (scast data)"

definition set_pc :: "'d hart \<Rightarrow> u64 \<Rightarrow> 'd hart" where
  "set_pc vm pc = set_reg vm RISCV_REG_PC pc"

definition upd_csr :: "(csr_file \<Rightarrow> csr_file) \<Rightarrow> 'd hart \<Rightarrow> 'd hart" where
  "upd_csr f vm = vm\<lparr>csr := f (csr vm)\<rparr>"

definition set_status :: "'d hart \<Rightarrow> u64 \<Rightarrow> 'd hart" where
  "set_status vm v = upd_csr (\<lambda>c. c\<lparr>csr_status := v\<rparr>) vm"

abbreviation status :: "'d hart \<Rightarrow> u64" where
  "status vm \<equiv> csr_status (csr vm)"

text \<open>A zero-initialised hart, as \<^verbatim>\<open>vma_alloc\<close> hands it out.\<close>

definition csr_zero :: csr_file where
  "csr_zero = \<lparr>csr_status = 0, csr_ie = 0, csr_ip = 0, csr_isa = 0,
     csr_edeleg = (\<lambda>_. 0), csr_ideleg = (\<lambda>_. 0), csr_tvec = (\<lambda>_. 0), csr_scratch = (\<lambda>_. 0),
     csr_epc = (\<lambda>_. 0), csr_cause = (\<lambda>_. 0), csr_tval = (\<lambda>_. 0), csr_iselect = (\<lambda>_. 0),
     csr_counteren = (\<lambda>_. 0), csr_envcfg = (\<lambda>_. 0), csr_mseccfg = 0, csr_fcsr = 0, csr_vcsr = 0,
     csr_vtype = 0, csr_hartid = 0\<rparr>"

definition hart_zero :: "'d \<Rightarrow> 'd hart" where
  "hart_zero d = \<lparr>running = False, registers = (\<lambda>_. 0),
     tlb = (\<lambda>_. \<lparr>tlb_ptr = 0, tlb_r = 0, tlb_w = 0, tlb_e = 0\<rparr>),
     mem_addr = 0, mem_size = 0, mem_data = 0, host = (\<lambda>_. 0), root_page_table = 0, mmu_mode = 0,
     priv_mode = 0, rv64 = False, trap = False, trap_pc = 0, userland = False, lrsc = False,
     lrsc_addr = 0, lrsc_cas = 0, csr = csr_zero, aia = None, wfi_flag = False, wfi_waiters = 0,
     mtimecmp = 0, stimecmp = 0, timer = 0, pending_irqs = 0, pending_events = 0, preempt_ms = 0,
     devs = d\<rparr>"

lemma set_reg_same [simp]: "registers (set_reg vm r d) r = d"
  by (simp add: set_reg_def)

lemma set_reg_other [simp]: "r \<noteq> r' \<Longrightarrow> registers (set_reg vm r d) r' = registers vm r'"
  by (simp add: set_reg_def)

end
