(* ===== verification/Tlb.thy ===== *)
theory Tlb
  imports HartState
begin

text \<open>
  The software TLB of \<^verbatim>\<open>src/cpu/riscv_mmu.c\<close>: flushing, flushing one page, inserting a
  translation, and the lookup that every inlined memory access of \<^verbatim>\<open>src/cpu/riscv_mmu.h\<close> does
  first.  A locale states what a client of a translation cache relies on, and that a cache fed
  with translations of one page table never answers with anything else.
\<close>

abbreviation (input) RISCV_MMU_READ :: u8 where "RISCV_MMU_READ \<equiv> 0x2"
abbreviation (input) RISCV_MMU_WRITE :: u8 where "RISCV_MMU_WRITE \<equiv> 0x4"
abbreviation (input) RISCV_MMU_EXEC :: u8 where "RISCV_MMU_EXEC \<equiv> 0x8"

definition riscv_restart_dispatch :: "'d hart \<Rightarrow> 'd hart" where
  "riscv_restart_dispatch vm = vm\<lparr>running := False\<rparr>"

definition tlb_slot :: "u64 \<Rightarrow> nat" where
  "tlb_slot vpn = unat (vpn AND 0xFF)"

definition tlb_zero :: tlb_entry where
  "tlb_zero = \<lparr>tlb_ptr = 0, tlb_r = 0, tlb_w = 0, tlb_e = 0\<rparr>"

definition riscv_tlb_flush :: "'d hart \<Rightarrow> 'd hart" where
  "riscv_tlb_flush vm =
     (let vm = vm\<lparr>tlb := (\<lambda>_. tlb_zero)(0 := \<lparr>tlb_ptr = 0, tlb_r = -1, tlb_w = -1, tlb_e = -1\<rparr>)\<rparr>
      in riscv_restart_dispatch vm)"

definition riscv_tlb_flush_page :: "'d hart \<Rightarrow> u64 \<Rightarrow> 'd hart" where
  "riscv_tlb_flush_page vm addr =
     (let vpn = shr addr 12;
          entry = tlb vm (tlb_slot vpn);
          entry = (if tlb_r entry = vpn then entry\<lparr>tlb_r := vpn - 1\<rparr> else entry);
          entry = (if tlb_w entry = vpn then entry\<lparr>tlb_w := vpn - 1\<rparr> else entry)
      in if tlb_e entry = vpn
         then riscv_restart_dispatch
                (vm\<lparr>tlb := (tlb vm)(tlb_slot vpn := entry\<lparr>tlb_e := vpn - 1\<rparr>)\<rparr>)
         else vm\<lparr>tlb := (tlb vm)(tlb_slot vpn := entry)\<rparr>)"

text \<open>The \<^verbatim>\<open>default\<close> case of the switch ends the process in the source; here it leaves the tags.\<close>

definition riscv_tlb_put :: "'d hart \<Rightarrow> u64 \<Rightarrow> u64 \<Rightarrow> u8 \<Rightarrow> 'd hart" where
  "riscv_tlb_put vm vaddr ptr access =
     (let vpn = shr vaddr 12;
          entry = tlb vm (tlb_slot vpn);
          entry =
            (if access = RISCV_MMU_READ then
               (let entry = entry\<lparr>tlb_r := vpn\<rparr>;
                    entry = (if tlb_w entry \<noteq> vpn then entry\<lparr>tlb_w := vpn - 1\<rparr> else entry)
                in if tlb_e entry \<noteq> vpn then entry\<lparr>tlb_e := vpn - 1\<rparr> else entry)
             else if access = RISCV_MMU_WRITE then
               (let entry = entry\<lparr>tlb_r := vpn, tlb_w := vpn\<rparr>
                in if tlb_e entry \<noteq> vpn then entry\<lparr>tlb_e := vpn - 1\<rparr> else entry)
             else if access = RISCV_MMU_EXEC then
               (let entry = (if tlb_r entry \<noteq> vpn then entry\<lparr>tlb_r := vpn - 1\<rparr> else entry)
                in entry\<lparr>tlb_w := vpn - 1, tlb_e := vpn\<rparr>)
             else entry)
      in vm\<lparr>tlb := (tlb vm)(tlb_slot vpn := entry\<lparr>tlb_ptr := ptr - vaddr\<rparr>)\<rparr>)"

text \<open>The test \<^verbatim>\<open>entry->x == vpn\<close> of the inlined accesses, and the pointer they use on a hit.\<close>

definition tlb_tag :: "tlb_entry \<Rightarrow> u8 \<Rightarrow> u64" where
  "tlb_tag entry access =
     (if access = RISCV_MMU_READ then tlb_r entry
      else if access = RISCV_MMU_WRITE then tlb_w entry else tlb_e entry)"

definition tlb_lookup :: "'d hart \<Rightarrow> u64 \<Rightarrow> u8 \<Rightarrow> u64 option" where
  "tlb_lookup vm vaddr access =
     (let vpn = shr vaddr 12; entry = tlb vm (tlb_slot vpn)
      in if tlb_tag entry access = vpn then Some (tlb_ptr entry + vaddr) else None)"

section \<open>Facts on pages and slots\<close>

lemma tlb_slot_less: "tlb_slot vpn < RVVM_TLB_SIZE"
  using word_and_mask_less [of vpn 8] by (simp add: tlb_slot_def mask_numeral)

lemma tlb_slot_pred: "tlb_slot (vpn - 1) \<noteq> tlb_slot vpn"
  using word_minus_one_and_mask_neq [of 8 vpn] by (simp add: tlb_slot_def mask_numeral word_unat_eq_iff)

lemma vpn_less: "unat (shr (vaddr :: u64) 12) < 2 ^ 52"
  using unat_drop_bit_less [of 12 vaddr] by simp

lemma vpn_not_minus_one: "shr (vaddr :: u64) 12 \<noteq> - 1"
proof
  assume "shr vaddr 12 = - 1"
  then have "bit (shr vaddr 12) 63" by simp
  then show False using bit_imp_le_length [of vaddr 75] by (simp add: bit_simps)
qed

lemma tlb_slot_zero: "tlb_slot 0 = 0"
  by (simp add: tlb_slot_def)

section \<open>The contract of a translation cache\<close>

locale translation_cache =
  fixes lookup :: "'q \<Rightarrow> u64 \<Rightarrow> u8 \<Rightarrow> u64 option"
    and put :: "'q \<Rightarrow> u64 \<Rightarrow> u64 \<Rightarrow> u8 \<Rightarrow> 'q"
    and flush :: "'q \<Rightarrow> 'q" and flush_page :: "'q \<Rightarrow> u64 \<Rightarrow> 'q"
    and kinds :: "u8 set"
  assumes flush_miss: "a \<in> kinds \<Longrightarrow> lookup (flush q) va a = None"
    and flush_page_miss: "a \<in> kinds \<Longrightarrow> shr va' 12 = shr va 12 \<Longrightarrow> lookup (flush_page q va) va' a = None"
    and flush_page_keeps: "a \<in> kinds \<Longrightarrow> shr va' 12 \<noteq> shr va 12 \<Longrightarrow>
      lookup (flush_page q va) va' a = lookup q va' a"
    and put_hit: "a \<in> kinds \<Longrightarrow> shr va' 12 = shr va 12 \<Longrightarrow> lookup (put q va p a) va' a = Some (p - va + va')"
    and put_page: "\<lbrakk>a \<in> kinds; b \<in> kinds; shr va' 12 = shr va 12; lookup (put q va p a) va' b = Some p'\<rbrakk> \<Longrightarrow>
      p' = p - va + va' \<and> (b = a \<or> (a = RISCV_MMU_WRITE \<and> b = RISCV_MMU_READ) \<or> lookup q va' b \<noteq> None)"
    and put_other: "\<lbrakk>a \<in> kinds; b \<in> kinds; shr va' 12 \<noteq> shr va 12; lookup (put q va p a) va' b = Some p'\<rbrakk> \<Longrightarrow>
      lookup q va' b = Some p'"
begin

text \<open>
  A cache is coherent with a page map (page number and access kind to the difference of host and
  virtual address) when every hit is a translation of the map.
\<close>

definition coherent :: "(u64 \<Rightarrow> u8 \<Rightarrow> u64 option) \<Rightarrow> 'q \<Rightarrow> bool" where
  "coherent tr q \<longleftrightarrow> (\<forall>va a p. a \<in> kinds \<longrightarrow> lookup q va a = Some p \<longrightarrow> tr (shr va 12) a = Some (p - va))"

lemma coherent_flush: "coherent tr (flush q)"
  by (simp add: coherent_def flush_miss)

lemma coherent_flush_page:
  "coherent tr q \<Longrightarrow> coherent tr (flush_page q va)"
  unfolding coherent_def by (metis flush_page_keeps flush_page_miss option.distinct(1))

lemma coherent_remap:
  assumes "coherent tr q" and "\<And>v a. v \<noteq> shr va 12 \<Longrightarrow> tr' v a = tr v a"
  shows "coherent tr' (flush_page q va)"
  using assms unfolding coherent_def by (metis flush_page_keeps flush_page_miss option.distinct(1))

lemma coherent_put:
  assumes "coherent tr q" and "a \<in> kinds" and "tr (shr va 12) a = Some (p - va)"
    and one_base: "\<And>v b c x y. tr v b = Some x \<Longrightarrow> tr v c = Some y \<Longrightarrow> x = y"
    and w_r: "\<And>v x. tr v RISCV_MMU_WRITE = Some x \<Longrightarrow> tr v RISCV_MMU_READ = Some x"
  shows "coherent tr (put q va p a)"
  unfolding coherent_def
proof (intro allI impI)
  fix va' b p' assume b: "b \<in> kinds" and hit: "lookup (put q va p a) va' b = Some p'"
  show "tr (shr va' 12) b = Some (p' - va')"
  proof (cases "shr va' 12 = shr va 12")
    case True
    from put_page [OF assms(2) b True hit] have p': "p' - va' = p - va"
      and c: "b = a \<or> (a = RISCV_MMU_WRITE \<and> b = RISCV_MMU_READ) \<or> lookup q va' b \<noteq> None" by simp_all
    from c show ?thesis
    proof (elim disjE)
      assume "lookup q va' b \<noteq> None"
      then obtain p0 where "lookup q va' b = Some p0" by blast
      with assms(1) b have "tr (shr va' 12) b = Some (p0 - va')" unfolding coherent_def by blast
      with one_base assms(3) True p' show ?thesis by metis
    qed (use assms(3) w_r True p' in auto)
  next
    case False
    from put_other [OF assms(2) b False hit] assms(1) b show ?thesis unfolding coherent_def by blast
  qed
qed

end

section \<open>The TLB as a translation cache\<close>

lemma tlb_lookup_flush: "tlb_lookup (riscv_tlb_flush vm) vaddr access = None"
proof -
  have "shr vaddr 12 = 0 \<Longrightarrow> tlb_slot (shr vaddr 12) = 0" by (simp add: tlb_slot_zero)
  then show ?thesis
    using vpn_not_minus_one [of vaddr]
    by (auto simp: tlb_lookup_def riscv_tlb_flush_def riscv_restart_dispatch_def tlb_tag_def tlb_zero_def Let_def)
qed

lemma tlb_lookup_tag:
  "tlb_lookup vm vaddr access = Some p \<longleftrightarrow>
     tlb_tag (tlb vm (tlb_slot (shr vaddr 12))) access = shr vaddr 12
     \<and> p = tlb_ptr (tlb vm (tlb_slot (shr vaddr 12))) + vaddr"
  by (auto simp: tlb_lookup_def Let_def)

definition mmu_kinds :: "u8 set" where
  "mmu_kinds = {RISCV_MMU_READ, RISCV_MMU_WRITE, RISCV_MMU_EXEC}"

lemma vpn_pred: "vpn - 1 \<noteq> (vpn :: u64)"
  by simp

lemma flush_page_entry:
  "tlb (riscv_tlb_flush_page vm va) = (tlb vm)(tlb_slot (shr va 12) :=
     (let vpn = shr va 12; e = tlb vm (tlb_slot vpn)
      in e\<lparr>tlb_r := if tlb_r e = vpn then vpn - 1 else tlb_r e,
           tlb_w := if tlb_w e = vpn then vpn - 1 else tlb_w e,
           tlb_e := if tlb_e e = vpn then vpn - 1 else tlb_e e\<rparr>))"
  by (simp add: riscv_tlb_flush_page_def riscv_restart_dispatch_def Let_def)

lemma put_entry:
  assumes "access \<in> mmu_kinds"
  shows "tlb (riscv_tlb_put vm va p access) = (tlb vm)(tlb_slot (shr va 12) :=
     (let vpn = shr va 12; e = tlb vm (tlb_slot vpn)
      in \<lparr>tlb_ptr = p - va,
          tlb_r = if access \<noteq> RISCV_MMU_EXEC \<or> tlb_r e = vpn then vpn else vpn - 1,
          tlb_w = if access = RISCV_MMU_WRITE \<or> access = RISCV_MMU_READ \<and> tlb_w e = vpn then vpn else vpn - 1,
          tlb_e = if access = RISCV_MMU_EXEC \<or> tlb_e e = vpn then vpn else vpn - 1\<rparr>))"
  using assms by (auto simp: riscv_tlb_put_def mmu_kinds_def Let_def)

text \<open>A tag of a slot other than the page's own, \<open>vpn - 1\<close>, never answers a lookup in the slot.\<close>

lemma slot_pred_miss: "tlb_slot v = tlb_slot vpn \<Longrightarrow> vpn - 1 \<noteq> v"
  using tlb_slot_pred by metis

interpretation hart_tlb: translation_cache tlb_lookup riscv_tlb_put riscv_tlb_flush riscv_tlb_flush_page mmu_kinds
proof unfold_locales
  fix q :: "'a hart" and va va' :: u64 and a b :: u8 and p p' :: u64
  show "tlb_lookup (riscv_tlb_flush q) va a = None" by (rule tlb_lookup_flush)
  show "tlb_lookup (riscv_tlb_flush_page q va) va' a = None" if "a \<in> mmu_kinds" "shr va' 12 = shr va 12"
    using that by (auto simp: tlb_lookup_def flush_page_entry tlb_tag_def mmu_kinds_def Let_def)
  show "tlb_lookup (riscv_tlb_flush_page q va) va' a = tlb_lookup q va' a"
    if "a \<in> mmu_kinds" "shr va' 12 \<noteq> shr va 12"
    using that slot_pred_miss [of "shr va' 12" "shr va 12"]
    by (auto simp: tlb_lookup_def flush_page_entry tlb_tag_def mmu_kinds_def Let_def)
  show "tlb_lookup (riscv_tlb_put q va p a) va' a = Some (p - va + va')"
    if "a \<in> mmu_kinds" "shr va' 12 = shr va 12"
    using that by (auto simp: tlb_lookup_def put_entry tlb_tag_def mmu_kinds_def Let_def)
  show "p' = p - va + va' \<and> (b = a \<or> (a = RISCV_MMU_WRITE \<and> b = RISCV_MMU_READ) \<or> tlb_lookup q va' b \<noteq> None)"
    if "a \<in> mmu_kinds" "b \<in> mmu_kinds" "shr va' 12 = shr va 12" "tlb_lookup (riscv_tlb_put q va p a) va' b = Some p'"
    using that by (auto simp: tlb_lookup_def put_entry tlb_tag_def mmu_kinds_def Let_def split: if_splits)
  show "tlb_lookup q va' b = Some p'"
    if "a \<in> mmu_kinds" "b \<in> mmu_kinds" "shr va' 12 \<noteq> shr va 12" "tlb_lookup (riscv_tlb_put q va p a) va' b = Some p'"
    using that slot_pred_miss [of "shr va' 12" "shr va 12"]
    by (auto simp: tlb_lookup_def put_entry tlb_tag_def mmu_kinds_def Let_def split: if_splits)
qed

text \<open>A page that the TLB lets a hart write, it also lets it read, at the same place.\<close>

definition tlb_w_reads :: "'d hart \<Rightarrow> bool" where
  "tlb_w_reads vm \<longleftrightarrow> (\<forall>va p. tlb_lookup vm va RISCV_MMU_WRITE = Some p \<longrightarrow> tlb_lookup vm va RISCV_MMU_READ = Some p)"

lemma tlb_w_reads_flush: "tlb_w_reads (riscv_tlb_flush vm)"
  by (simp add: tlb_w_reads_def tlb_lookup_flush)

lemma tlb_w_reads_put:
  assumes "tlb_w_reads vm" "access \<in> mmu_kinds"
  shows "tlb_w_reads (riscv_tlb_put vm va p access)"
  unfolding tlb_w_reads_def
proof (intro allI impI)
  fix va' p' assume hit: "tlb_lookup (riscv_tlb_put vm va p access) va' RISCV_MMU_WRITE = Some p'"
  have r: "tlb_lookup vm va' RISCV_MMU_READ = Some q" if "tlb_lookup vm va' RISCV_MMU_WRITE = Some q" for q
    using assms(1) that unfolding tlb_w_reads_def by blast
  show "tlb_lookup (riscv_tlb_put vm va p access) va' RISCV_MMU_READ = Some p'"
  proof (cases "tlb_slot (shr va' 12) = tlb_slot (shr va 12)")
    case True
    define v w where "v = shr va' 12" and "w = shr va 12"
    define e where "e = tlb (riscv_tlb_put vm va p access) (tlb_slot v)"
    have miss: "w - 1 \<noteq> v" using slot_pred_miss [OF True] by (simp add: v_def w_def)
    have tags: "tlb_w e = v \<longrightarrow> access \<noteq> RISCV_MMU_EXEC \<and> v = w" "access \<noteq> RISCV_MMU_EXEC \<longrightarrow> tlb_r e = w"
      using True miss unfolding e_def put_entry [OF assms(2)] Let_def v_def [symmetric] w_def [symmetric]
      by (simp_all split: if_splits)
    from hit have "tlb_w e = v" "p' = tlb_ptr e + va'"
      by (simp_all add: tlb_lookup_tag tlb_tag_def e_def v_def)
    with tags have "tlb_r e = v" by simp
    with \<open>p' = tlb_ptr e + va'\<close> show ?thesis by (simp add: tlb_lookup_tag tlb_tag_def e_def v_def)
  next
    case False
    then have same: "tlb_lookup (riscv_tlb_put vm va p access) va' b = tlb_lookup vm va' b" for b
      by (simp add: tlb_lookup_def put_entry [OF assms(2)])
    with hit r show ?thesis by simp
  qed
qed

lemma tlb_w_reads_flush_page:
  assumes "tlb_w_reads vm"
  shows "tlb_w_reads (riscv_tlb_flush_page vm va)"
  unfolding tlb_w_reads_def
proof (intro allI impI)
  fix va' p' assume hit: "tlb_lookup (riscv_tlb_flush_page vm va) va' RISCV_MMU_WRITE = Some p'"
  have k: "RISCV_MMU_WRITE \<in> mmu_kinds" "RISCV_MMU_READ \<in> mmu_kinds" by (simp_all add: mmu_kinds_def)
  have "shr va' 12 \<noteq> shr va 12"
  proof
    assume "shr va' 12 = shr va 12"
    from hart_tlb.flush_page_miss [OF k(1) this, of vm] hit show False by simp
  qed
  with hit assms show "tlb_lookup (riscv_tlb_flush_page vm va) va' RISCV_MMU_READ = Some p'"
    unfolding tlb_w_reads_def by (simp add: hart_tlb.flush_page_keeps k)
qed

section \<open>Properties\<close>

text \<open>The operations a hart applies to its TLB, and a run of them.\<close>

datatype tlb_op = Tlb_put u64 u64 u8 | Tlb_flush | Tlb_flush_page u64

fun tlb_step :: "tlb_op \<Rightarrow> 'd hart \<Rightarrow> 'd hart" where
  "tlb_step (Tlb_put va p a) vm = riscv_tlb_put vm va p a"
| "tlb_step Tlb_flush vm = riscv_tlb_flush vm"
| "tlb_step (Tlb_flush_page va) vm = riscv_tlb_flush_page vm va"

text \<open>A put of the run inserts a translation that the page map has.\<close>

fun tlb_op_ok :: "(u64 \<Rightarrow> u8 \<Rightarrow> u64 option) \<Rightarrow> tlb_op \<Rightarrow> bool" where
  "tlb_op_ok tr (Tlb_put va p a) \<longleftrightarrow>
     (a = RISCV_MMU_READ \<or> a = RISCV_MMU_WRITE \<or> a = RISCV_MMU_EXEC) \<and> tr (shr va 12) a = Some (p - va)"
| "tlb_op_ok tr _ \<longleftrightarrow> True"

lemma tlb_run_coherent:
  assumes "\<And>v b c x y. tr v b = Some x \<Longrightarrow> tr v c = Some y \<Longrightarrow> x = y"
    and "\<And>v x. tr v RISCV_MMU_WRITE = Some x \<Longrightarrow> tr v RISCV_MMU_READ = Some x"
    and "list_all (tlb_op_ok tr) ops" and "hart_tlb.coherent tr vm"
  shows "hart_tlb.coherent tr (fold tlb_step ops vm)"
  using assms(3,4)
proof (induction ops arbitrary: vm)
  case (Cons op ops)
  have "hart_tlb.coherent tr (tlb_step op vm)"
  proof (cases op)
    case (Tlb_put va p a)
    then have "a \<in> mmu_kinds" "tr (shr va 12) a = Some (p - va)"
      using Cons.prems(1) by (auto simp: mmu_kinds_def)
    from hart_tlb.coherent_put [OF Cons.prems(2) this assms(1,2)] Tlb_put show ?thesis by simp
  qed (use Cons.prems(2) hart_tlb.coherent_flush hart_tlb.coherent_flush_page in auto)
  with Cons show ?case by simp
qed simp

text \<open>
  C7. A TLB that was flushed and then fed with translations of one page map, in any order and
  mixed with any flushes, answers a lookup only with the host address the page map gives for
  that page and kind of access.  The page map has one frame per page, and pages that are
  writable are readable.
\<close>

theorem tlb_coherence:
  assumes "\<And>v b c x y. tr v b = Some x \<Longrightarrow> tr v c = Some y \<Longrightarrow> x = y"
    and "\<And>v x. tr v RISCV_MMU_WRITE = Some x \<Longrightarrow> tr v RISCV_MMU_READ = Some x"
    and "list_all (tlb_op_ok tr) ops"
    and "tlb_lookup (fold tlb_step ops (riscv_tlb_flush vm)) va a = Some p"
    and "a = RISCV_MMU_READ \<or> a = RISCV_MMU_WRITE \<or> a = RISCV_MMU_EXEC"
  shows "tr (shr va 12) a = Some (p - va)"
proof -
  have "a \<in> mmu_kinds" using assms(5) by (auto simp: mmu_kinds_def)
  moreover have "hart_tlb.coherent tr (fold tlb_step ops (riscv_tlb_flush vm))"
    by (rule tlb_run_coherent) (use assms hart_tlb.coherent_flush in auto)
  ultimately show ?thesis using assms(4) unfolding hart_tlb.coherent_def by blast
qed

theorem tlb_coherence_witness:
  "tlb_lookup (fold tlb_step [Tlb_put 0x2000 0x7000 RISCV_MMU_WRITE, Tlb_flush_page 0x3000]
      (riscv_tlb_flush (hart_zero ()))) 0x2008 RISCV_MMU_READ = Some 0x7008
   \<and> (\<lambda>v a. Some 0x5000 :: u64 option) (shr 0x2008 12) RISCV_MMU_READ = Some (0x7008 - 0x2008)"
proof -
  let ?tr = "\<lambda>(v :: u64) (a :: u8). Some 0x5000 :: u64 option"
  let ?ops = "[Tlb_put 0x2000 0x7000 RISCV_MMU_WRITE, Tlb_flush_page 0x3000]"
  have hit: "tlb_lookup (fold tlb_step ?ops (riscv_tlb_flush (hart_zero ()))) 0x2008 RISCV_MMU_READ = Some 0x7008"
    by (simp add: tlb_lookup_def riscv_tlb_put_def riscv_tlb_flush_page_def riscv_tlb_flush_def
        riscv_restart_dispatch_def tlb_slot_def tlb_tag_def tlb_zero_def Let_def)
  have "?tr (shr 0x2008 12) RISCV_MMU_READ = Some (0x7008 - 0x2008)"
    by (rule tlb_coherence [where ops = ?ops and vm = "hart_zero ()" and a = RISCV_MMU_READ]) (simp_all add: hit [simplified])
  with hit show ?thesis by simp
qed

end
