(* ===== verification/Hart.thy ===== *)
theory Hart
  imports Tlb
begin

text \<open>
  Hart operations of \<^verbatim>\<open>src/cpu/riscv_hart.c\<close>: privilege and XLEN switches, traps, interrupt lines,
  the AIA register file, timers and interrupt dispatch, with the timer compare registers of
  \<^verbatim>\<open>src/util/rvtimer.c\<close> and the wake-up event of \<^verbatim>\<open>src/util/threading.c\<close> they use.
\<close>

section \<open>Privilege mode and XLEN\<close>

definition riscv_update_xlen :: "'d hart \<Rightarrow> 'd hart" where
  "riscv_update_xlen vm =
     (let rv64' = (if priv_mode vm = RISCV_PRIV_MACHINE then csr_isa (csr vm) AND CSR_MISA_RV64 \<noteq> 0
                   else if priv_mode vm = RISCV_PRIV_HYPERVISOR \<or> priv_mode vm = RISCV_PRIV_SUPERVISOR
                   then bit_check64 (status vm) 35
                   else if priv_mode vm = RISCV_PRIV_USER then bit_check64 (status vm) 33
                   else False)
      in if rv64 vm \<noteq> rv64' then riscv_restart_dispatch (vm\<lparr>rv64 := rv64'\<rparr>) else vm)"

definition riscv_switch_priv :: "'d hart \<Rightarrow> nat \<Rightarrow> 'd hart" where
  "riscv_switch_priv vm priv =
     (if priv_mode vm \<noteq> priv
      then riscv_tlb_flush (riscv_update_xlen (vm\<lparr>priv_mode := priv\<rparr>))
      else vm)"

section \<open>Traps\<close>

definition riscv_trap_priv_helper :: "'d hart \<Rightarrow> nat \<Rightarrow> 'd hart" where
  "riscv_trap_priv_helper vm target_priv =
     (if target_priv = RISCV_PRIV_MACHINE then
        (let s = bit_replace (status vm) 11 2 (of_nat (priv_mode vm));
             s = bit_replace s 7 1 (bit_cut s 3 1);
             s = bit_replace s 3 1 0
         in set_status vm s)
      else if target_priv = RISCV_PRIV_HYPERVISOR \<or> target_priv = RISCV_PRIV_SUPERVISOR then
        (let s = bit_replace (status vm) 8 1 (of_nat (priv_mode vm));
             s = bit_replace s 5 1 (bit_cut s 1 1);
             s = bit_replace s 1 1 0
         in set_status vm s)
      else if target_priv = RISCV_PRIV_USER then
        (let s = bit_replace (status vm) 4 1 (bit_cut (status vm) 0 1);
             s = bit_replace s 0 1 0
         in set_status vm s)
      else vm)"

definition riscv_restart_at_pc :: "'d hart \<Rightarrow> u64 \<Rightarrow> 'd hart" where
  "riscv_restart_at_pc vm pc = riscv_restart_dispatch (vm\<lparr>trap_pc := pc, trap := True\<rparr>)"

text \<open>The loop that walks the delegation registers down from machine mode.\<close>

fun trap_target :: "(nat \<Rightarrow> u64) \<Rightarrow> nat \<Rightarrow> u8 \<Rightarrow> nat \<Rightarrow> nat" where
  "trap_target edeleg cur cause 0 = 0"
| "trap_target edeleg cur cause (Suc p) =
     (if Suc p > cur \<and> edeleg (Suc p) AND shl 1 (unat cause) \<noteq> 0
      then trap_target edeleg cur cause p else Suc p)"

definition riscv_trap :: "'d hart \<Rightarrow> u8 \<Rightarrow> u64 \<Rightarrow> 'd hart" where
  "riscv_trap vm cause tval =
     (if trap vm then vm
      else if userland vm then
        (let vm = upd_csr (\<lambda>c. c\<lparr>csr_cause := (csr_cause c)(RISCV_PRIV_USER := ucast cause),
                                csr_tval := (csr_tval c)(RISCV_PRIV_USER := tval)\<rparr>) vm;
             vm = vm\<lparr>trap_pc := reg_pc vm\<rparr>
         in riscv_restart_at_pc vm (reg_pc vm))
      else
        (let priv = trap_target (csr_edeleg (csr vm)) (priv_mode vm) cause RISCV_PRIV_MACHINE;
             vm = upd_csr (\<lambda>c. c\<lparr>csr_epc := (csr_epc c)(priv := reg_pc vm),
                                csr_cause := (csr_cause c)(priv := ucast cause),
                                csr_tval := (csr_tval c)(priv := tval)\<rparr>) vm;
             vm = riscv_trap_priv_helper vm priv;
             vm = riscv_switch_priv vm priv
         in riscv_restart_at_pc vm (csr_tvec (csr vm) priv AND NOT 3)))"

definition riscv_illegal_insn :: "'d hart \<Rightarrow> u32 \<Rightarrow> 'd hart" where
  "riscv_illegal_insn vm insn = riscv_trap vm RISCV_TRAP_ILL_INSN (ucast insn)"

definition riscv_breakpoint :: "'d machine \<Rightarrow> 'd hart \<Rightarrow> 'd hart" where
  "riscv_breakpoint m vm =
     (if mc_gdbstub_halt m = Some True then riscv_restart_at_pc vm (reg_pc vm)
      else riscv_trap vm RISCV_TRAP_BREAKPOINT 0)"

section \<open>Interrupt lines\<close>

definition rvvm_event_wake :: "'d hart \<Rightarrow> 'd hart" where
  "rvvm_event_wake vm = vm\<lparr>wfi_flag := True\<rparr>"

definition riscv_hart_notify :: "'d hart \<Rightarrow> 'd hart" where
  "riscv_hart_notify vm = rvvm_event_wake (riscv_restart_dispatch vm)"

definition riscv_interrupt_set :: "'d hart \<Rightarrow> u8 \<Rightarrow> bool \<times> 'd hart" where
  "riscv_interrupt_set vm irq =
     (let mask = shl 1 (unat (irq AND 0x1F))
      in (NOT (pending_irqs vm) AND mask \<noteq> 0, vm\<lparr>pending_irqs := pending_irqs vm OR mask\<rparr>))"

definition riscv_interrupt :: "'d hart \<Rightarrow> u8 \<Rightarrow> 'd hart" where
  "riscv_interrupt vm irq =
     (let (fresh, vm) = riscv_interrupt_set vm irq in if fresh then riscv_hart_notify vm else vm)"

definition riscv_interrupt_clear :: "'d hart \<Rightarrow> u8 \<Rightarrow> 'd hart" where
  "riscv_interrupt_clear vm irq = vm\<lparr>pending_irqs := pending_irqs vm AND NOT (shl 1 (unat irq))\<rparr>"

definition riscv_interrupts_raised :: "'d hart \<Rightarrow> u32" where
  "riscv_interrupts_raised vm = pending_irqs vm"

definition riscv_interrupts_pending :: "'d hart \<Rightarrow> u32" where
  "riscv_interrupts_pending vm =
     ucast ((ucast (riscv_interrupts_raised vm) OR csr_ip (csr vm)) AND csr_ie (csr vm))"

definition riscv_hart_check_interrupts :: "'d hart \<Rightarrow> 'd hart" where
  "riscv_hart_check_interrupts vm =
     (if riscv_interrupts_pending vm \<noteq> 0 then riscv_restart_dispatch vm else vm)"

section \<open>AIA register file\<close>

abbreviation (input) RVVM_AIA_IRQ_LIMIT :: u32 where "RVVM_AIA_IRQ_LIMIT \<equiv> 256"
abbreviation (input) RVVM_AIA_ARR_LEN :: nat where "RVVM_AIA_ARR_LEN \<equiv> 8"

definition aia_zero :: aia_regfile where
  "aia_zero = \<lparr>eidelivery = 0, eithreshold = 0, eip = (\<lambda>_. 0), eie = (\<lambda>_. 0)\<rparr>"

definition riscv_hart_aia_init :: "'d hart \<Rightarrow> 'd hart" where
  "riscv_hart_aia_init vm = (if aia vm = None then vm\<lparr>aia := Some (\<lambda>_. aia_zero)\<rparr> else vm)"

definition aia_upd :: "bool \<Rightarrow> (aia_regfile \<Rightarrow> aia_regfile) \<Rightarrow> 'd hart \<Rightarrow> 'd hart" where
  "aia_upd smode f vm = vm\<lparr>aia := map_option (\<lambda>a. a(smode := f (a smode))) (aia vm)\<rparr>"

definition aia_msip :: "bool \<Rightarrow> u8" where
  "aia_msip smode = (if smode then RISCV_INTERRUPT_SEXTERNAL else RISCV_INTERRUPT_MEXTERNAL)"

definition riscv_send_aia_irq :: "'d hart \<Rightarrow> bool \<Rightarrow> u32 \<Rightarrow> 'd hart" where
  "riscv_send_aia_irq vm smode irq =
     (case aia vm of
        None \<Rightarrow> vm
      | Some regs \<Rightarrow>
          if irq \<noteq> 0 \<and> irq < RVVM_AIA_IRQ_LIMIT \<and> eidelivery (regs smode) \<noteq> 0 then
            (let thresh = eithreshold (regs smode) - 1;
                 reg = unat (shr irq 5);
                 val = shl 1 (unat (irq AND 0x1F));
                 eie_v = eie (regs smode) reg;
                 prev = eip (regs smode) reg;
                 vm = aia_upd smode (\<lambda>a. a\<lparr>eip := (eip a)(reg := eip a reg OR val)\<rparr>) vm
             in if irq < thresh \<and> val AND eie_v \<noteq> 0 \<and> val AND prev = 0
                then riscv_interrupt vm (aia_msip smode) else vm)
          else vm)"

text \<open>The scan over the pending words; \<open>regs\<close> is the register file at the start of the scan.\<close>

fun aia_scan :: "bool \<Rightarrow> bool \<Rightarrow> bool \<Rightarrow> aia_regfile \<Rightarrow> nat list \<Rightarrow> u32 \<Rightarrow> 'd hart \<Rightarrow> u32 \<times> 'd hart" where
  "aia_scan smode update claim regs [] ret vm = (ret, vm)"
| "aia_scan smode update claim regs (i # is) ret vm =
     (let bits = eip regs i AND eie regs i in
      if bits \<noteq> 0 then
        (if ret \<noteq> 0 then (ret, riscv_interrupt vm (aia_msip smode))
         else
           (let bit_no = bit_clz32 bits XOR 31;
                irq = shl (of_nat i) 5 OR bit_no;
                mask = NOT (shl 1 (unat bit_no))
            in if irq < eithreshold regs - 1 then
                 (let bits' = (if claim then bits AND mask else bits);
                      vm = (if claim then aia_upd smode (\<lambda>a. a\<lparr>eip := (eip a)(i := eip a i AND mask)\<rparr>) vm
                            else vm)
                  in if update then
                       (if bits' \<noteq> 0 then (irq, riscv_interrupt vm (aia_msip smode))
                        else aia_scan smode update claim regs is irq vm)
                     else (irq, vm))
               else aia_scan smode update claim regs is ret vm))
      else aia_scan smode update claim regs is ret vm)"

definition riscv_update_aia_internal :: "'d hart \<Rightarrow> bool \<Rightarrow> bool \<Rightarrow> bool \<Rightarrow> u32 \<times> 'd hart" where
  "riscv_update_aia_internal vm smode update claim =
     (case aia vm of
        None \<Rightarrow> (0, vm)
      | Some regs \<Rightarrow>
          (let vm = (if update then riscv_interrupt_clear vm (aia_msip smode) else vm)
           in if eidelivery (regs smode) \<noteq> 0
              then aia_scan smode update claim (regs smode) [0..<RVVM_AIA_ARR_LEN] 0 vm
              else (0, vm)))"

definition riscv_update_aia_state :: "'d hart \<Rightarrow> bool \<Rightarrow> 'd hart" where
  "riscv_update_aia_state vm smode = snd (riscv_update_aia_internal vm smode True False)"

definition riscv_get_aia_irq :: "'d hart \<Rightarrow> bool \<Rightarrow> bool \<Rightarrow> u32 \<times> 'd hart" where
  "riscv_get_aia_irq vm smode claim = riscv_update_aia_internal vm smode True claim"

section \<open>Timers, preemption, pausing\<close>

definition rvtimecmp_pending :: "u64 \<Rightarrow> u64 \<Rightarrow> bool" where
  "rvtimecmp_pending now timecmp \<longleftrightarrow> now \<ge> timecmp"

definition rvtimecmp_delay :: "u64 \<Rightarrow> u64 \<Rightarrow> u64" where
  "rvtimecmp_delay now timecmp = (if now < timecmp then timecmp - now else 0)"

definition riscv_hart_check_timer :: "'d hart \<Rightarrow> 'd hart" where
  "riscv_hart_check_timer vm =
     (if wfi_waiters vm = 0 then
        (let now = timer vm;
             vm = (if now \<ge> mtimecmp vm
                   then (let (fresh, vm) = riscv_interrupt_set vm RISCV_INTERRUPT_MTIMER
                         in if fresh then riscv_restart_dispatch vm else vm)
                   else vm)
         in if now \<ge> stimecmp vm
            then (let (fresh, vm) = riscv_interrupt_set vm RISCV_INTERRUPT_STIMER
                  in if fresh then riscv_restart_dispatch vm else vm)
            else vm)
      else vm)"

abbreviation (input) HART_EVENT_PAUSE :: u32 where "HART_EVENT_PAUSE \<equiv> 1"
abbreviation (input) HART_EVENT_PREEMPT :: u32 where "HART_EVENT_PREEMPT \<equiv> 2"

definition riscv_hart_preempt :: "'d hart \<Rightarrow> u32 \<Rightarrow> 'd hart" where
  "riscv_hart_preempt vm ms =
     (if ms \<noteq> 0
      then riscv_restart_dispatch
             (vm\<lparr>preempt_ms := ms, pending_events := pending_events vm OR HART_EVENT_PREEMPT\<rparr>)
      else vm)"

definition riscv_hart_queue_pause :: "'d hart \<Rightarrow> 'd hart" where
  "riscv_hart_queue_pause vm =
     riscv_hart_notify (vm\<lparr>pending_events := pending_events vm OR HART_EVENT_PAUSE\<rparr>)"

section \<open>Interrupt dispatch\<close>

definition riscv_cause_irq_mask :: "'d hart \<Rightarrow> u64" where
  "riscv_cause_irq_mask vm = (if rv64 vm then 0x8000000000000000 else 0x80000000)"

text \<open>The \<^verbatim>\<open>do ... while (--priv)\<close> that finds the mode which is to take the interrupts.\<close>

fun irq_target :: "(nat \<Rightarrow> u64) \<Rightarrow> nat \<Rightarrow> u32 \<Rightarrow> nat \<times> u32" where
  "irq_target ideleg 0 pending = (0, 0)"
| "irq_target ideleg (Suc p) pending =
     (let irqs = pending AND NOT (ucast (ideleg (Suc p)))
      in if irqs \<noteq> 0 then (Suc p, irqs) else irq_target ideleg p (pending AND ucast (ideleg (Suc p))))"

definition riscv_handle_irqs :: "'d hart \<Rightarrow> 'd hart" where
  "riscv_handle_irqs vm =
     (let pending = riscv_interrupts_pending vm in
      if pending \<noteq> 0 then
        (let (priv, irqs) = irq_target (csr_ideleg (csr vm)) RISCV_PRIV_MACHINE pending in
         if priv_mode vm > priv then vm
         else if priv_mode vm = priv \<and> shl 1 (priv_mode vm) AND status vm = 0 then vm
         else
           (let irq = bit_clz32 irqs XOR 31;
                vm = riscv_trap_priv_helper vm priv;
                vm = riscv_switch_priv vm priv;
                vm = upd_csr (\<lambda>c. c\<lparr>csr_epc := (csr_epc c)(priv := reg_pc vm),
                                   csr_cause := (csr_cause c)(priv := ucast irq OR riscv_cause_irq_mask vm),
                                   csr_tval := (csr_tval c)(priv := 0)\<rparr>) vm
            in if csr_tvec (csr vm) priv AND 1 \<noteq> 0
               then set_pc vm ((csr_tvec (csr vm) priv AND NOT 3) + ucast (shl irq 2))
               else set_pc vm (csr_tvec (csr vm) priv AND NOT 3)))
      else vm)"

section \<open>What the operations leave alone\<close>

lemma bit_cut_and_mask:
  "pos + bits \<le> 64 \<Longrightarrow> 0 < bits \<Longrightarrow> bit_cut v pos bits AND mask bits = bit_cut v pos bits"
  by (auto intro!: bit_word_eqI simp: bitfield_simps bit_simps)

lemma bit_cut_and_one [simp]:
  "pos < 64 \<Longrightarrow> bit_cut v pos (Suc 0) AND 1 = bit_cut v pos (Suc 0)"
  using bit_cut_and_mask [of pos 1 v] by simp

lemma restart_dispatch_frame [simp]:
  "registers (riscv_restart_dispatch vm) = registers vm" "tlb (riscv_restart_dispatch vm) = tlb vm"
  "host (riscv_restart_dispatch vm) = host vm" "csr (riscv_restart_dispatch vm) = csr vm"
  "priv_mode (riscv_restart_dispatch vm) = priv_mode vm" "trap (riscv_restart_dispatch vm) = trap vm"
  "trap_pc (riscv_restart_dispatch vm) = trap_pc vm" "pending_irqs (riscv_restart_dispatch vm) = pending_irqs vm"
  "rv64 (riscv_restart_dispatch vm) = rv64 vm" "mmu_mode (riscv_restart_dispatch vm) = mmu_mode vm"
  "userland (riscv_restart_dispatch vm) = userland vm" "aia (riscv_restart_dispatch vm) = aia vm"
  "root_page_table (riscv_restart_dispatch vm) = root_page_table vm" "devs (riscv_restart_dispatch vm) = devs vm"
  "mem_addr (riscv_restart_dispatch vm) = mem_addr vm" "mem_size (riscv_restart_dispatch vm) = mem_size vm"
  "mem_data (riscv_restart_dispatch vm) = mem_data vm" "\<not> running (riscv_restart_dispatch vm)"
  by (simp_all add: riscv_restart_dispatch_def)

lemma tlb_flush_frame [simp]:
  "registers (riscv_tlb_flush vm) = registers vm"
  "host (riscv_tlb_flush vm) = host vm" "csr (riscv_tlb_flush vm) = csr vm"
  "priv_mode (riscv_tlb_flush vm) = priv_mode vm" "trap (riscv_tlb_flush vm) = trap vm"
  "trap_pc (riscv_tlb_flush vm) = trap_pc vm" "pending_irqs (riscv_tlb_flush vm) = pending_irqs vm"
  "rv64 (riscv_tlb_flush vm) = rv64 vm" "mmu_mode (riscv_tlb_flush vm) = mmu_mode vm"
  "userland (riscv_tlb_flush vm) = userland vm" "aia (riscv_tlb_flush vm) = aia vm"
  "root_page_table (riscv_tlb_flush vm) = root_page_table vm" "devs (riscv_tlb_flush vm) = devs vm"
  "mem_addr (riscv_tlb_flush vm) = mem_addr vm" "mem_size (riscv_tlb_flush vm) = mem_size vm"
  "mem_data (riscv_tlb_flush vm) = mem_data vm" "\<not> running (riscv_tlb_flush vm)"
  by (simp_all add: riscv_tlb_flush_def Let_def)

lemma update_xlen_frame [simp]:
  "registers (riscv_update_xlen vm) = registers vm" "tlb (riscv_update_xlen vm) = tlb vm"
  "host (riscv_update_xlen vm) = host vm" "csr (riscv_update_xlen vm) = csr vm"
  "priv_mode (riscv_update_xlen vm) = priv_mode vm" "trap (riscv_update_xlen vm) = trap vm"
  "trap_pc (riscv_update_xlen vm) = trap_pc vm" "pending_irqs (riscv_update_xlen vm) = pending_irqs vm"
  "mmu_mode (riscv_update_xlen vm) = mmu_mode vm" "userland (riscv_update_xlen vm) = userland vm"
  "aia (riscv_update_xlen vm) = aia vm" "devs (riscv_update_xlen vm) = devs vm"
  "root_page_table (riscv_update_xlen vm) = root_page_table vm"
  "mem_addr (riscv_update_xlen vm) = mem_addr vm" "mem_size (riscv_update_xlen vm) = mem_size vm"
  "mem_data (riscv_update_xlen vm) = mem_data vm"
  by (simp_all add: riscv_update_xlen_def Let_def)

lemma switch_priv_frame [simp]:
  "registers (riscv_switch_priv vm p) = registers vm"
  "host (riscv_switch_priv vm p) = host vm" "csr (riscv_switch_priv vm p) = csr vm"
  "priv_mode (riscv_switch_priv vm p) = p" "trap (riscv_switch_priv vm p) = trap vm"
  "trap_pc (riscv_switch_priv vm p) = trap_pc vm" "pending_irqs (riscv_switch_priv vm p) = pending_irqs vm"
  "mmu_mode (riscv_switch_priv vm p) = mmu_mode vm" "userland (riscv_switch_priv vm p) = userland vm"
  "aia (riscv_switch_priv vm p) = aia vm" "devs (riscv_switch_priv vm p) = devs vm"
  "root_page_table (riscv_switch_priv vm p) = root_page_table vm"
  "mem_addr (riscv_switch_priv vm p) = mem_addr vm" "mem_size (riscv_switch_priv vm p) = mem_size vm"
  "mem_data (riscv_switch_priv vm p) = mem_data vm"
  by (simp_all add: riscv_switch_priv_def)

lemma upd_csr_frame [simp]:
  "registers (upd_csr f vm) = registers vm" "tlb (upd_csr f vm) = tlb vm"
  "host (upd_csr f vm) = host vm" "csr (upd_csr f vm) = f (csr vm)"
  "priv_mode (upd_csr f vm) = priv_mode vm" "trap (upd_csr f vm) = trap vm"
  "trap_pc (upd_csr f vm) = trap_pc vm" "pending_irqs (upd_csr f vm) = pending_irqs vm"
  "mmu_mode (upd_csr f vm) = mmu_mode vm" "userland (upd_csr f vm) = userland vm"
  "aia (upd_csr f vm) = aia vm" "devs (upd_csr f vm) = devs vm" "rv64 (upd_csr f vm) = rv64 vm"
  "root_page_table (upd_csr f vm) = root_page_table vm" "running (upd_csr f vm) = running vm"
  "mem_addr (upd_csr f vm) = mem_addr vm" "mem_size (upd_csr f vm) = mem_size vm"
  "mem_data (upd_csr f vm) = mem_data vm"
  by (simp_all add: upd_csr_def)

lemma reg_pc_upd_csr [simp]: "reg_pc (upd_csr f vm) = reg_pc vm"
  by (simp add: reg_pc_def)

text \<open>The status word a trap into mode \<open>p\<close> leaves, as a function of the old one.\<close>

definition trap_status :: "nat \<Rightarrow> nat \<Rightarrow> u64 \<Rightarrow> u64" where
  "trap_status p cur s =
     (if p = RISCV_PRIV_MACHINE then bit_replace (bit_replace (bit_replace s 11 2 (of_nat cur)) 7 1 (bit_cut s 3 1)) 3 1 0
      else if p = RISCV_PRIV_HYPERVISOR \<or> p = RISCV_PRIV_SUPERVISOR
      then bit_replace (bit_replace (bit_replace s 8 1 (of_nat cur)) 5 1 (bit_cut s 1 1)) 1 1 0
      else if p = RISCV_PRIV_USER then bit_replace (bit_replace s 4 1 (bit_cut s 0 1)) 0 1 0
      else s)"

lemma trap_priv_helper_eq: "riscv_trap_priv_helper vm p = set_status vm (trap_status p (priv_mode vm) (status vm))"
  by (simp add: riscv_trap_priv_helper_def trap_status_def bit_cut_replace_other Let_def)
    (simp add: set_status_def upd_csr_def)

lemma set_status_frame [simp]:
  "registers (set_status vm s) = registers vm" "tlb (set_status vm s) = tlb vm"
  "host (set_status vm s) = host vm" "csr (set_status vm s) = (csr vm)\<lparr>csr_status := s\<rparr>"
  "priv_mode (set_status vm s) = priv_mode vm" "trap (set_status vm s) = trap vm"
  "trap_pc (set_status vm s) = trap_pc vm" "pending_irqs (set_status vm s) = pending_irqs vm"
  "mmu_mode (set_status vm s) = mmu_mode vm" "userland (set_status vm s) = userland vm"
  "aia (set_status vm s) = aia vm" "devs (set_status vm s) = devs vm" "rv64 (set_status vm s) = rv64 vm"
  "root_page_table (set_status vm s) = root_page_table vm" "running (set_status vm s) = running vm"
  "mem_addr (set_status vm s) = mem_addr vm" "mem_size (set_status vm s) = mem_size vm"
  "mem_data (set_status vm s) = mem_data vm" "reg_pc (set_status vm s) = reg_pc vm"
  by (simp_all add: set_status_def)

lemma restart_at_pc_frame [simp]:
  "registers (riscv_restart_at_pc vm pc) = registers vm" "tlb (riscv_restart_at_pc vm pc) = tlb vm"
  "host (riscv_restart_at_pc vm pc) = host vm" "csr (riscv_restart_at_pc vm pc) = csr vm"
  "priv_mode (riscv_restart_at_pc vm pc) = priv_mode vm" "trap (riscv_restart_at_pc vm pc)"
  "trap_pc (riscv_restart_at_pc vm pc) = pc" "pending_irqs (riscv_restart_at_pc vm pc) = pending_irqs vm"
  "mmu_mode (riscv_restart_at_pc vm pc) = mmu_mode vm" "userland (riscv_restart_at_pc vm pc) = userland vm"
  "aia (riscv_restart_at_pc vm pc) = aia vm" "devs (riscv_restart_at_pc vm pc) = devs vm"
  "rv64 (riscv_restart_at_pc vm pc) = rv64 vm" "\<not> running (riscv_restart_at_pc vm pc)"
  "root_page_table (riscv_restart_at_pc vm pc) = root_page_table vm"
  "mem_addr (riscv_restart_at_pc vm pc) = mem_addr vm" "mem_size (riscv_restart_at_pc vm pc) = mem_size vm"
  "mem_data (riscv_restart_at_pc vm pc) = mem_data vm"
  by (simp_all add: riscv_restart_at_pc_def)

text \<open>A trap changes control and status state only.\<close>

lemma trap_frame [simp]:
  "registers (riscv_trap vm c t) = registers vm" "host (riscv_trap vm c t) = host vm"
  "mmu_mode (riscv_trap vm c t) = mmu_mode vm" "userland (riscv_trap vm c t) = userland vm"
  "aia (riscv_trap vm c t) = aia vm" "devs (riscv_trap vm c t) = devs vm"
  "pending_irqs (riscv_trap vm c t) = pending_irqs vm"
  "root_page_table (riscv_trap vm c t) = root_page_table vm"
  "mem_addr (riscv_trap vm c t) = mem_addr vm" "mem_size (riscv_trap vm c t) = mem_size vm"
  "mem_data (riscv_trap vm c t) = mem_data vm" "trap (riscv_trap vm c t)"
  by (simp_all add: riscv_trap_def trap_priv_helper_eq Let_def)

section \<open>Interrupt lines as a contract\<close>

text \<open>
  What interrupt controllers rely on when they drive a hart: raising a line sets it and no other,
  clearing clears it and no other, and a line that goes from clear to raised kicks the hart out of
  its dispatch loop.
\<close>

locale irq_lines =
  fixes raise :: "'h \<Rightarrow> u8 \<Rightarrow> 'h" and clear :: "'h \<Rightarrow> u8 \<Rightarrow> 'h" and line :: "'h \<Rightarrow> nat \<Rightarrow> bool"
    and kicked :: "'h \<Rightarrow> bool"
  assumes line_raise: "unat i < 32 \<Longrightarrow> line (raise h i) j \<longleftrightarrow> j = unat i \<or> line h j"
    and line_clear: "unat i < 32 \<Longrightarrow> line (clear h i) j \<longleftrightarrow> j \<noteq> unat i \<and> line h j"
    and raise_kicks: "unat i < 32 \<Longrightarrow> \<not> line h (unat i) \<Longrightarrow> kicked (raise h i)"
    and raise_again: "unat i < 32 \<Longrightarrow> line h (unat i) \<Longrightarrow> kicked (raise h i) = kicked h"
begin

text \<open>Driving a line to a level.\<close>

definition set_level :: "'h \<Rightarrow> u8 \<Rightarrow> bool \<Rightarrow> 'h" where
  "set_level h i b = (if b then raise h i else clear h i)"

lemma line_set_level:
  "unat i < 32 \<Longrightarrow> line (set_level h i b) j \<longleftrightarrow> (if j = unat i then b else line h j)"
  by (simp add: set_level_def line_raise line_clear)

lemma set_level_last:
  assumes "unat i < 32"
  shows "line (fold (\<lambda>b h. set_level h i b) (bs @ [b]) h) (unat i) = b"
  using assms by (simp add: line_set_level)

end

definition hart_line :: "'d hart \<Rightarrow> nat \<Rightarrow> bool" where
  "hart_line vm j \<longleftrightarrow> bit (pending_irqs vm) j"

lemma unat_and_1F: "unat (i :: u8) < 32 \<Longrightarrow> i AND 0x1F = i"
proof -
  assume "unat i < 32"
  then have "take_bit 5 (unat i) = unat i" by (simp add: take_bit_nat_eq_self)
  then have "take_bit 5 i = i" by (metis unsigned_take_bit_eq word_unat_eq_iff)
  then show ?thesis by (simp add: take_bit_eq_mask mask_numeral)
qed

lemma not_and_bit: "NOT (p :: u32) AND shl 1 k \<noteq> 0 \<longleftrightarrow> k < 32 \<and> \<not> bit p k"
proof -
  have "NOT p AND shl 1 k \<noteq> 0 \<longleftrightarrow> (\<exists>n. bit (NOT p AND shl 1 k) n)" by (rule word_nonzero_bit)
  also have "\<dots> \<longleftrightarrow> k < 32 \<and> \<not> bit p k" by (auto simp: bit_simps)
  finally show ?thesis .
qed

lemma hart_notify_frame [simp]:
  "pending_irqs (riscv_hart_notify vm) = pending_irqs vm" "\<not> running (riscv_hart_notify vm)"
  "csr (riscv_hart_notify vm) = csr vm" "registers (riscv_hart_notify vm) = registers vm"
  "aia (riscv_hart_notify vm) = aia vm" "devs (riscv_hart_notify vm) = devs vm"
  by (simp_all add: riscv_hart_notify_def rvvm_event_wake_def)

interpretation hart_irq: irq_lines riscv_interrupt riscv_interrupt_clear hart_line "\<lambda>vm. \<not> running vm"
proof unfold_locales
  fix h :: "'a hart" and i :: u8 and j :: nat assume i: "unat i < 32"
  show "hart_line (riscv_interrupt h i) j \<longleftrightarrow> j = unat i \<or> hart_line h j"
    using i by (auto simp: hart_line_def riscv_interrupt_def riscv_interrupt_set_def unat_and_1F bit_simps Let_def)
  show "hart_line (riscv_interrupt_clear h i) j \<longleftrightarrow> j \<noteq> unat i \<and> hart_line h j"
    using i by (auto simp: hart_line_def riscv_interrupt_clear_def bit_simps dest: bit_imp_le_length)
  show "\<not> running (riscv_interrupt h i)" if "\<not> hart_line h (unat i)"
    using i that not_and_bit [of "pending_irqs h" "unat i"]
    by (simp add: hart_line_def riscv_interrupt_def riscv_interrupt_set_def unat_and_1F Let_def)
  show "(\<not> running (riscv_interrupt h i)) = (\<not> running h)" if "hart_line h (unat i)"
    using i that not_and_bit [of "pending_irqs h" "unat i"]
    by (simp add: hart_line_def riscv_interrupt_def riscv_interrupt_set_def unat_and_1F Let_def)
qed

section \<open>Facts on trap delegation\<close>

lemma trap_target_bounds:
  "trap_target ed cur c p \<le> p \<and> (cur \<le> p \<longrightarrow> cur \<le> trap_target ed cur c p)"
  by (induction p) auto

lemma trap_target_delegated:
  "trap_target ed cur c p < q \<Longrightarrow> q \<le> p \<Longrightarrow> ed q AND shl 1 (unat c) \<noteq> 0"
  by (induction p) (auto simp: le_Suc_eq split: if_splits)

lemma trap_target_stops:
  "cur < trap_target ed cur c p \<Longrightarrow> ed (trap_target ed cur c p) AND shl 1 (unat c) = 0"
  by (induction p) auto

lemma irq_target_none: "snd (irq_target ideleg p pending) = 0 \<Longrightarrow> fst (irq_target ideleg p pending) = 0"
  by (induction p arbitrary: pending) (auto simp: Let_def split: if_splits)

lemma irq_target_le: "irq_target ideleg p pending = (priv, irqs) \<Longrightarrow> priv \<le> p"
proof (induction p arbitrary: pending)
  case (Suc p)
  then show ?case
    by (cases "pending AND NOT (ucast (ideleg (Suc p))) = 0") (fastforce simp: Let_def)+
qed simp

lemma irq_target_irqs:
  "irq_target ideleg p pending = (priv, irqs) \<Longrightarrow> 0 < priv \<Longrightarrow>
    bit irqs n \<longleftrightarrow> bit pending n \<and> \<not> bit (ideleg priv) n \<and> (\<forall>q. priv < q \<and> q \<le> p \<longrightarrow> bit (ideleg q) n)"
proof (induction p arbitrary: pending)
  case (Suc p)
  let ?irqs = "pending AND NOT (ucast (ideleg (Suc p)))"
  let ?rest = "pending AND ucast (ideleg (Suc p))"
  have lt: "n < 32" if "bit pending n" using bit_imp_le_length [OF that] by simp
  show ?case
  proof (cases "?irqs = 0")
    case True
    with Suc.prems have t: "irq_target ideleg p ?rest = (priv, irqs)" by (simp add: Let_def)
    from Suc.IH [OF t Suc.prems(2)] irq_target_le [OF t] lt show ?thesis
      by (auto simp: le_Suc_eq bit_simps)
  next
    case False
    with Suc.prems have "priv = Suc p" "irqs = ?irqs" by (auto simp: Let_def)
    with lt show ?thesis by (auto simp: bit_simps)
  qed
qed simp

lemma irq_target_above:
  "\<lbrakk>irq_target ideleg p pending = (priv, irqs); priv < q; q \<le> p; bit pending n;
    \<forall>q'. q < q' \<and> q' \<le> p \<longrightarrow> bit (ideleg q') n\<rbrakk> \<Longrightarrow> bit (ideleg q) n"
proof (induction p arbitrary: pending)
  case (Suc p)
  let ?irqs = "pending AND NOT (ucast (ideleg (Suc p)))"
  let ?rest = "pending AND ucast (ideleg (Suc p))"
  have lt: "n < 32" using bit_imp_le_length [OF Suc.prems(4)] by simp
  have z: "?irqs = 0" using Suc.prems(1-3) by (auto simp: Let_def split: if_splits)
  then have top: "bit (ideleg (Suc p)) n"
  proof -
    have "\<not> bit ?irqs n" unfolding z by simp
    with Suc.prems(4) lt show ?thesis by (simp add: bit_simps)
  qed
  show ?case
  proof (cases "q = Suc p")
    case False
    with Suc.prems z top lt show ?thesis
      by (intro Suc.IH [of ?rest]) (auto simp: Let_def bit_simps)
  qed (simp add: top)
qed simp

lemma clz32_highest:
  assumes "bit (x :: u32) h" "\<And>m. h < m \<Longrightarrow> \<not> bit x m"
  shows "bit_clz32 x XOR 31 = of_nat h"
proof -
  have x: "x \<noteq> 0" and h: "h < 32" using assms(1) by (auto dest: bit_imp_le_length)
  have "list_all (\<lambda>h. of_nat (31 - h) XOR (31 :: u32) = of_nat h) [0..<32]" by code_simp
  from list_all_uptD [OF this h] show ?thesis
    using x lead_zeros_clz [OF assms] by (simp add: bit_clz32_def)
qed

section \<open>Properties\<close>

text \<open>
  C8. Trap entry.  Outside user emulation and with no trap in flight, an exception goes to the
  least privileged mode, not below the current one, to which every mode above delegates it;
  that mode's \<open>epc\<close>, \<open>cause\<close> and \<open>tval\<close> record it, its interrupt-enable bit moves to the
  previous-enable bit and is cleared, the previous mode is stacked, dispatch restarts at the
  trap vector's base, and the TLB answers no lookup if the mode changed.  Registers and memory
  are not touched.
\<close>

theorem trap_entry:
  assumes "\<not> trap vm" "\<not> userland vm" "priv_mode vm \<le> RISCV_PRIV_MACHINE"
    and "vm' = riscv_trap vm cause tval"
  shows "\<exists>p. priv_mode vm' = p \<and> priv_mode vm \<le> p \<and> p \<le> RISCV_PRIV_MACHINE
      \<and> (\<forall>q \<in> {p <.. RISCV_PRIV_MACHINE}. csr_edeleg (csr vm) q AND shl 1 (unat cause) \<noteq> 0)
      \<and> (priv_mode vm < p \<longrightarrow> csr_edeleg (csr vm) p AND shl 1 (unat cause) = 0)
      \<and> csr_epc (csr vm') p = reg_pc vm \<and> csr_cause (csr vm') p = ucast cause \<and> csr_tval (csr vm') p = tval
      \<and> (p = RISCV_PRIV_MACHINE \<longrightarrow> bit_cut (status vm') 11 2 = of_nat (priv_mode vm)
           \<and> bit_cut (status vm') 7 1 = bit_cut (status vm) 3 1 \<and> bit_cut (status vm') 3 1 = 0)
      \<and> (p = RISCV_PRIV_SUPERVISOR \<longrightarrow> bit_cut (status vm') 8 1 = of_nat (priv_mode vm)
           \<and> bit_cut (status vm') 5 1 = bit_cut (status vm) 1 1 \<and> bit_cut (status vm') 1 1 = 0)
      \<and> trap vm' \<and> \<not> running vm' \<and> trap_pc vm' = csr_tvec (csr vm) p AND NOT 3
      \<and> (priv_mode vm \<noteq> p \<longrightarrow> tlb_lookup vm' va a = None)
      \<and> registers vm' = registers vm \<and> host vm' = host vm"
proof -
  let ?p = "trap_target (csr_edeleg (csr vm)) (priv_mode vm) cause RISCV_PRIV_MACHINE"
  have b: "priv_mode vm \<le> ?p" "?p \<le> RISCV_PRIV_MACHINE"
    using trap_target_bounds [of "csr_edeleg (csr vm)" "priv_mode vm" cause RISCV_PRIV_MACHINE] assms(3) by auto
  have cur: "of_nat (priv_mode vm) AND mask 2 = (of_nat (priv_mode vm) :: u64)"
    using assms(3) by (auto simp: le_Suc_eq numeral_3_eq_3 mask_numeral)
  have s_cur: "?p = RISCV_PRIV_SUPERVISOR \<Longrightarrow> of_nat (priv_mode vm) AND mask 1 = (of_nat (priv_mode vm) :: u64)"
    using b(1) by (auto simp: le_Suc_eq mask_numeral)
  have tl: "tlb_lookup (riscv_restart_at_pc (riscv_switch_priv v p) pc) va a = None" if "priv_mode v \<noteq> p" for v p pc
    using that tlb_lookup_flush by (simp add: riscv_switch_priv_def tlb_lookup_def)
  define p where "p = ?p"
  define c where "c = (csr vm)\<lparr>csr_epc := (csr_epc (csr vm))(p := reg_pc vm),
      csr_cause := (csr_cause (csr vm))(p := ucast cause), csr_tval := (csr_tval (csr vm))(p := tval),
      csr_status := trap_status p (priv_mode vm) (status vm)\<rparr>"
  have c: "csr vm' = c" and p: "priv_mode vm' = p" and pc: "trap_pc vm' = csr_tvec (csr vm) p AND NOT 3"
    and run: "\<not> running vm'"
    using assms(1,2) by (simp_all add: assms(4) riscv_trap_def trap_priv_helper_eq c_def p_def Let_def)
  have frame: "trap vm'" "registers vm' = registers vm" "host vm' = host vm" by (simp_all add: assms(4))
  have m: "p = RISCV_PRIV_MACHINE \<longrightarrow> bit_cut (csr_status c) 11 2 = of_nat (priv_mode vm)
       \<and> bit_cut (csr_status c) 7 1 = bit_cut (status vm) 3 1 \<and> bit_cut (csr_status c) 3 1 = 0"
    using cur by (simp add: c_def trap_status_def bit_cut_replace_same bit_cut_replace_other bit_cut_and_mask)
  have sv: "p = RISCV_PRIV_SUPERVISOR \<longrightarrow> bit_cut (csr_status c) 8 1 = of_nat (priv_mode vm)
       \<and> bit_cut (csr_status c) 5 1 = bit_cut (status vm) 1 1 \<and> bit_cut (csr_status c) 1 1 = 0"
    using s_cur by (simp add: c_def p_def trap_status_def bit_cut_replace_same bit_cut_replace_other bit_cut_and_mask)
  have miss: "priv_mode vm \<noteq> p \<longrightarrow> tlb_lookup vm' va a = None"
    using assms(1,2) by (simp add: assms(4) riscv_trap_def trap_priv_helper_eq tl p_def Let_def)
  have info: "csr_epc c p = reg_pc vm" "csr_cause c p = ucast cause" "csr_tval c p = tval"
    by (simp_all add: c_def)
  have deleg: "\<forall>q \<in> {p <.. RISCV_PRIV_MACHINE}. csr_edeleg (csr vm) q AND shl 1 (unat cause) \<noteq> 0"
    using trap_target_delegated by (fastforce simp: p_def)
  have stop: "priv_mode vm < p \<longrightarrow> csr_edeleg (csr vm) p AND shl 1 (unat cause) = 0"
    using trap_target_stops unfolding p_def by blast
  show ?thesis
    unfolding c p using b [folded p_def] m sv miss run pc frame info deleg stop by blast
qed

lemma trap_target_machine:
  "trap_target ed cur c RISCV_PRIV_MACHINE =
     (if 3 > cur \<and> ed 3 AND shl 1 (unat c) \<noteq> 0 then
        (if 2 > cur \<and> ed 2 AND shl 1 (unat c) \<noteq> 0 then
           (if 1 > cur \<and> ed 1 AND shl 1 (unat c) \<noteq> 0 then 0 else 1)
         else 2)
      else 3)"
  by (simp add: numeral_3_eq_3 numeral_2_eq_2)

theorem trap_entry_witness:
  "let w = (hart_zero ())\<lparr>registers := (\<lambda>_. 0x80),
              csr := csr_zero\<lparr>csr_edeleg := (\<lambda>_. 0)(3 := 0x100, 2 := 0xFFFF), csr_tvec := (\<lambda>_. 0x1001)\<rparr>\<rparr>;
       w' = riscv_trap w 8 0
   in priv_mode w' = RISCV_PRIV_SUPERVISOR \<and> csr_epc (csr w') (priv_mode w') = 0x80
      \<and> trap_pc w' = 0x1000 \<and> tlb_lookup w' 0x80 RISCV_MMU_EXEC = None"
proof -
  let ?w = "(hart_zero ())\<lparr>registers := (\<lambda>_. 0x80),
      csr := csr_zero\<lparr>csr_edeleg := (\<lambda>_. 0)(3 := 0x100, 2 := 0xFFFF), csr_tvec := (\<lambda>_. 0x1001)\<rparr>\<rparr>"
  have "trap_target (csr_edeleg (csr ?w)) (priv_mode ?w) 8 RISCV_PRIV_MACHINE = RISCV_PRIV_SUPERVISOR"
    by (simp add: trap_target_machine hart_zero_def)
  then have p: "priv_mode (riscv_trap ?w 8 0) = RISCV_PRIV_SUPERVISOR"
    by (simp add: riscv_trap_def trap_priv_helper_eq hart_zero_def Let_def)
  show ?thesis
    using trap_entry [of ?w "riscv_trap ?w 8 0" 8 0 "0x80" RISCV_MMU_EXEC] p
    by (simp add: hart_zero_def reg_pc_def Let_def)
qed

lemma shl_and_bit: "k < 64 \<Longrightarrow> shl 1 k AND (v :: u64) = 0 \<longleftrightarrow> \<not> bit v k"
proof -
  assume "k < 64"
  have "shl 1 k AND v \<noteq> 0 \<longleftrightarrow> (\<exists>n. bit (shl 1 k AND v) n)" by (rule word_nonzero_bit)
  also have "\<dots> \<longleftrightarrow> bit v k" using \<open>k < 64\<close> by (auto simp: bit_simps)
  finally show ?thesis by blast
qed

lemma interrupts_pending_bit:
  "bit (riscv_interrupts_pending vm) n \<longleftrightarrow>
     n < 32 \<and> (bit (pending_irqs vm) n \<or> bit (csr_ip (csr vm)) n) \<and> bit (csr_ie (csr vm)) n"
  by (auto simp: riscv_interrupts_pending_def riscv_interrupts_raised_def bit_simps)

lemma handle_irqs_taken:
  assumes "irq_target (csr_ideleg (csr vm)) RISCV_PRIV_MACHINE (riscv_interrupts_pending vm) = (p, irqs)"
    and "bit irqs n" "\<And>m. n < m \<Longrightarrow> \<not> bit irqs m"
    and "riscv_interrupts_pending vm \<noteq> 0" "\<not> p < priv_mode vm" "\<not> (priv_mode vm = p \<and> \<not> bit (status vm) p)"
    and "p < 64"
  shows "priv_mode (riscv_handle_irqs vm) = p
    \<and> csr_epc (csr (riscv_handle_irqs vm)) p = reg_pc vm
    \<and> csr_cause (csr (riscv_handle_irqs vm)) p = of_nat n OR riscv_cause_irq_mask (riscv_handle_irqs vm)
    \<and> csr_tval (csr (riscv_handle_irqs vm)) p = 0
    \<and> status (riscv_handle_irqs vm) = trap_status p (priv_mode vm) (status vm)
    \<and> reg_pc (riscv_handle_irqs vm) =
        (csr_tvec (csr vm) p AND NOT 3) + (if bit (csr_tvec (csr vm) p) 0 then 4 * of_nat n else 0)"
proof -
  have irq: "bit_clz32 irqs XOR 31 = of_nat n" by (rule clz32_highest) (use assms(2,3) in auto)
  have n: "n < 32" using bit_imp_le_length [OF assms(2)] by simp
  have d: "shl 1 (priv_mode vm) AND status vm = 0 \<longleftrightarrow> \<not> bit (status vm) (priv_mode vm)" if "priv_mode vm = p"
    using shl_and_bit [of "priv_mode vm"] assms(7) that by blast
  have vec: "ucast (shl (of_nat n :: u32) 2) = (4 * of_nat n :: u64)" "ucast (of_nat n :: u32) = (of_nat n :: u64)"
  proof -
    have "list_all (\<lambda>n. ucast (shl (of_nat n :: u32) 2) = (4 * of_nat n :: u64)
        \<and> ucast (of_nat n :: u32) = (of_nat n :: u64)) [0..<32]" by code_simp
    from list_all_uptD [OF this n]
    show "ucast (shl (of_nat n :: u32) 2) = (4 * of_nat n :: u64)" "ucast (of_nat n :: u32) = (of_nat n :: u64)"
      by simp_all
  qed
  have go: "riscv_handle_irqs vm =
      (let vm = riscv_switch_priv (riscv_trap_priv_helper vm p) p;
           vm = upd_csr (\<lambda>c. c\<lparr>csr_epc := (csr_epc c)(p := reg_pc vm),
                  csr_cause := (csr_cause c)(p := of_nat n OR riscv_cause_irq_mask vm),
                  csr_tval := (csr_tval c)(p := 0)\<rparr>) vm
       in set_pc vm ((csr_tvec (csr vm) p AND NOT 3) + (if bit (csr_tvec (csr vm) p) 0 then 4 * of_nat n else 0)))"
    using assms(1,4,5,6) d unfolding riscv_handle_irqs_def Let_def irq
    by (auto simp: irq vec and_one_bit)
  show ?thesis
    unfolding go Let_def trap_priv_helper_eq
    by (simp add: set_pc_def set_reg_def reg_pc_def riscv_cause_irq_mask_def)
qed

lemma handle_irqs_refused:
  assumes "irq_target (csr_ideleg (csr vm)) RISCV_PRIV_MACHINE (riscv_interrupts_pending vm) = (p, irqs)"
    and "p < 64" and "p < priv_mode vm \<or> priv_mode vm = p \<and> \<not> bit (status vm) p"
  shows "riscv_handle_irqs vm = vm"
  using assms shl_and_bit [of p "status vm"] by (auto simp: riscv_handle_irqs_def Let_def)



text \<open>
  AIA threshold.  With delivery on and a threshold of \<open>irq + 1\<close>, an enabled interrupt \<open>irq\<close>,
  which is below the threshold, is recorded as pending but not signalled to the hart.
\<close>

theorem aia_threshold_off_by_one:
  assumes "aia vm = Some regs" and "eidelivery (regs s) \<noteq> 0" and "eithreshold (regs s) = irq + 1"
  shows "pending_irqs (riscv_send_aia_irq vm s irq) = pending_irqs vm
       \<and> running (riscv_send_aia_irq vm s irq) = running vm"
  using assms by (simp add: riscv_send_aia_irq_def aia_upd_def Let_def)

theorem aia_threshold_off_by_one_witness:
  "pending_irqs (riscv_send_aia_irq ((hart_zero ())\<lparr>aia := Some (\<lambda>_. \<lparr>eidelivery = 1, eithreshold = 6,
      eip = (\<lambda>_. 0), eie = (\<lambda>_. 0xFFFFFFFF)\<rparr>)\<rparr>) True 5) = 0"
  using aia_threshold_off_by_one [of "(hart_zero ())\<lparr>aia := Some (\<lambda>_. \<lparr>eidelivery = 1, eithreshold = 6,
      eip = (\<lambda>_. 0), eie = (\<lambda>_. 0xFFFFFFFF)\<rparr>)\<rparr>" _ True 5]
  by (simp add: hart_zero_def)

lemma aia_scan_empty:
  "(\<And>j. j \<in> set is \<Longrightarrow> eip regs j AND eie regs j = 0) \<Longrightarrow>
    aia_scan s upd cl regs (is @ js) ret vm = aia_scan s upd cl regs js ret vm"
  by (induction "is") auto

lemma aia_irq_number:
  assumes "i < RVVM_AIA_ARR_LEN" "h < 32"
  shows "shl (of_nat i :: u32) 5 OR of_nat h = of_nat (32 * i + h)"
proof -
  have "list_all (\<lambda>i. list_all (\<lambda>h. shl (of_nat i :: u32) 5 OR of_nat h = of_nat (32 * i + h)) [0..<32]) [0..<8]"
    by code_simp
  from list_all_uptD [OF list_all_uptD [OF this assms(1)] assms(2)] show ?thesis .
qed

lemma hart_line_aia_upd [simp]: "hart_line (aia_upd s f vm) j = hart_line vm j"
  by (simp add: hart_line_def aia_upd_def)



end
