(* ===== verification/Mmu.thy ===== *)
theory Mmu
  imports Hart
begin

text \<open>
  The MMU of \<^verbatim>\<open>src/cpu/riscv_mmu.c\<close>: page table walks for Sv32 and Sv39/Sv48/Sv57, the MMIO bus,
  the slow access path, and the TLB-cached accesses of \<^verbatim>\<open>src/cpu/riscv_mmu.h\<close>.

  A \<^verbatim>\<open>data\<close> argument that may be \<^verbatim>\<open>NULL\<close> is an optional byte list, and an access returns the
  buffer it leaves.  The result pointer of the slow path is null, the data buffer, or a host
  address.  The retry loop of the walk restarts only when another hart changes the entry between
  the load and the compare-and-swap; in this single-hart model the swap succeeds at once.
\<close>

abbreviation (input) RISCV_PTE_VALID :: u64 where "RISCV_PTE_VALID \<equiv> 0x1"
abbreviation (input) RISCV_PTE_LEAF :: u64 where "RISCV_PTE_LEAF \<equiv> 0xA"
abbreviation (input) RISCV_PTE_USER :: u64 where "RISCV_PTE_USER \<equiv> 0x10"
abbreviation (input) RISCV_PTE_ACCESSED :: u64 where "RISCV_PTE_ACCESSED \<equiv> 0x40"
abbreviation (input) RISCV_PAGE_MASK :: u64 where "RISCV_PAGE_MASK \<equiv> 0xFFF"
abbreviation (input) RISCV_PAGE_SIZE :: u64 where "RISCV_PAGE_SIZE \<equiv> 0x1000"
abbreviation (input) RISCV_PAGE_PNMASK :: u64 where "RISCV_PAGE_PNMASK \<equiv> 0xFFFFFFFFFFFFF000"
abbreviation (input) SV64_PHYS_MASK :: u64 where "SV64_PHYS_MASK \<equiv> 0xFFFFFFFFFFFFFF"
abbreviation (input) RISCV_MMU_DEBUG_ACCESS :: u8 where "RISCV_MMU_DEBUG_ACCESS \<equiv> 0xE"
abbreviation (input) RISCV_MMU_ATTR_NO_TRAP :: u32 where "RISCV_MMU_ATTR_NO_TRAP \<equiv> 0x100"
abbreviation (input) RISCV_MMU_ATTR_NO_PROT :: u32 where "RISCV_MMU_ATTR_NO_PROT \<equiv> 0x200"
abbreviation (input) RISCV_MMU_ATTR_PHYS :: u32 where "RISCV_MMU_ATTR_PHYS \<equiv> 0x400"
abbreviation (input) RISCV_MMU_ATTR_PTR :: u32 where "RISCV_MMU_ATTR_PTR \<equiv> 0x800"

section \<open>Physical memory and permissions\<close>

definition riscv_phys_access :: "'d hart \<Rightarrow> u64 \<Rightarrow> u64 option" where
  "riscv_phys_access vm paddr =
     (if paddr \<ge> mem_addr vm \<and> paddr - mem_addr vm < mem_size vm
      then Some (mem_data vm + (paddr - mem_addr vm)) else None)"

definition riscv_mmu_check_priv :: "'d hart \<Rightarrow> nat \<Rightarrow> u8 \<Rightarrow> bool" where
  "riscv_mmu_check_priv vm priv access =
     (if access = RISCV_MMU_DEBUG_ACCESS then True
      else if access = RISCV_MMU_EXEC then False
      else if priv \<noteq> RISCV_PRIV_SUPERVISOR \<or> status vm AND CSR_STATUS_SUM = 0 then False
      else True)"

section \<open>Page table walks\<close>

primrec sv32_walk :: "u64 \<Rightarrow> nat \<Rightarrow> u8 \<Rightarrow> nat \<Rightarrow> u64 \<Rightarrow> nat \<Rightarrow> 'd hart \<Rightarrow> u64 option \<times> 'd hart" where
  "sv32_walk vaddr priv access 0 pagetable bit_off vm = (None, vm)"
| "sv32_walk vaddr priv access (Suc i) pagetable bit_off vm =
     (let pgt_off = shl (shr vaddr bit_off AND 0x3FF) 2 in
      case riscv_phys_access vm (pagetable + pgt_off) of
        None \<Rightarrow> (None, vm)
      | Some pte_ptr \<Rightarrow>
          (let pte = read_uint32_le (host vm) pte_ptr in
           if pte AND 0x1 \<noteq> 0 then
             (if pte AND 0xA \<noteq> 0 then
                (if (pte AND 0x10 \<noteq> 0) = (priv \<noteq> 0) \<and> \<not> riscv_mmu_check_priv vm priv access
                 then (None, vm)
                 else if pte AND ucast access \<noteq> 0 then
                   (let vmask = bit_mask bit_off;
                        pmask = shl (bit_mask (34 - bit_off)) bit_off;
                        pte_shift = ucast (shl pte 2);
                        pte_ad = pte OR 0x40 OR shl (ucast (access AND RISCV_MMU_WRITE)) 5
                    in if pte_shift AND vmask AND RISCV_PAGE_PNMASK \<noteq> 0 then (None, vm)
                       else (Some ((pte_shift AND pmask) OR (vaddr AND vmask)),
                             if pte \<noteq> pte_ad then vm\<lparr>host := write_uint32_le (host vm) pte_ptr pte_ad\<rparr> else vm))
                 else sv32_walk vaddr priv access i pagetable bit_off vm)
              else if pte AND 0x4 = 0
              then sv32_walk vaddr priv access i (ucast (shl (shr pte 10) 12)) (bit_off - 10) vm
              else sv32_walk vaddr priv access i pagetable bit_off vm)
           else sv32_walk vaddr priv access i pagetable bit_off vm))"

definition riscv_mmu_translate_sv32 :: "'d hart \<Rightarrow> u64 \<Rightarrow> nat \<Rightarrow> u8 \<Rightarrow> u64 option \<times> 'd hart" where
  "riscv_mmu_translate_sv32 vm vaddr priv access =
     sv32_walk vaddr priv access 2 (root_page_table vm) (10 + 12) vm"

primrec sv64_walk :: "u64 \<Rightarrow> nat \<Rightarrow> u8 \<Rightarrow> nat \<Rightarrow> u64 \<Rightarrow> nat \<Rightarrow> 'd hart \<Rightarrow> u64 option \<times> 'd hart" where
  "sv64_walk vaddr priv access 0 pagetable bit_off vm = (None, vm)"
| "sv64_walk vaddr priv access (Suc i) pagetable bit_off vm =
     (let pgt_off = shl (shr vaddr bit_off AND 0x1FF) 3 in
      case riscv_phys_access vm (pagetable + pgt_off) of
        None \<Rightarrow> (None, vm)
      | Some pte_ptr \<Rightarrow>
          (let pte = read_uint64_le (host vm) pte_ptr in
           if pte AND RISCV_PTE_VALID \<noteq> 0 then
             (if pte AND RISCV_PTE_LEAF \<noteq> 0 then
                (if (pte AND RISCV_PTE_USER \<noteq> 0) = (priv \<noteq> 0) \<and> \<not> riscv_mmu_check_priv vm priv access
                 then (None, vm)
                 else if pte AND ucast access \<noteq> 0 then
                   (let vmask = bit_mask bit_off;
                        pmask = shl (bit_mask (56 - bit_off)) bit_off;
                        pte_shift = shl pte 2;
                        pte_ad = pte OR RISCV_PTE_ACCESSED OR shl (ucast (access AND RISCV_MMU_WRITE)) 5
                    in if pte_shift AND vmask AND RISCV_PAGE_PNMASK \<noteq> 0 then (None, vm)
                       else (Some ((pte_shift AND pmask) OR (vaddr AND vmask)),
                             if pte \<noteq> pte_ad then vm\<lparr>host := write_uint64_le (host vm) pte_ptr pte_ad\<rparr> else vm))
                 else sv64_walk vaddr priv access i pagetable bit_off vm)
              else if pte AND ucast RISCV_MMU_WRITE = 0
              then sv64_walk vaddr priv access i (shl (shr pte 10) 12 AND SV64_PHYS_MASK) (bit_off - 9) vm
              else sv64_walk vaddr priv access i pagetable bit_off vm)
           else sv64_walk vaddr priv access i pagetable bit_off vm))"

definition riscv_mmu_translate_rv64 :: "'d hart \<Rightarrow> u64 \<Rightarrow> nat \<Rightarrow> u8 \<Rightarrow> nat \<Rightarrow> u64 option \<times> 'd hart" where
  "riscv_mmu_translate_rv64 vm vaddr priv access sv_levels =
     (let bit_off = sv_levels * 9 + 12 - 9 in
      if vaddr \<noteq> sign_extend vaddr (bit_off + 9) then (None, vm)
      else sv64_walk vaddr priv access sv_levels (root_page_table vm) bit_off vm)"

definition riscv_mmu_translate :: "'d hart \<Rightarrow> u64 \<Rightarrow> u8 \<Rightarrow> u64 option \<times> 'd hart" where
  "riscv_mmu_translate vm vaddr access =
     (let priv = (if status vm AND CSR_STATUS_MPRV \<noteq> 0 \<and> access \<noteq> RISCV_MMU_EXEC
                  then unat (bit_cut (status vm) 11 2) else priv_mode vm);
          access = (if status vm AND CSR_STATUS_MXR \<noteq> 0 \<and> access = RISCV_MMU_READ
                    then access OR RISCV_MMU_EXEC else access)
      in if priv < RISCV_PRIV_MACHINE then
           (if mmu_mode vm = CSR_SATP_MODE_BARE then (Some vaddr, vm)
            else if mmu_mode vm = CSR_SATP_MODE_SV32 then riscv_mmu_translate_sv32 vm vaddr priv access
            else if mmu_mode vm = CSR_SATP_MODE_SV39 then riscv_mmu_translate_rv64 vm vaddr priv access 3
            else if mmu_mode vm = CSR_SATP_MODE_SV48 then riscv_mmu_translate_rv64 vm vaddr priv access 4
            else if mmu_mode vm = CSR_SATP_MODE_SV57 then riscv_mmu_translate_rv64 vm vaddr priv access 5
            else (None, vm))
         else (Some vaddr, vm))"

section \<open>The MMIO bus\<close>

text \<open>\<^verbatim>\<open>atomic_memcpy_relaxed\<close> in its two uses: host memory to a buffer, and back.\<close>

definition mem_read :: "host_mem \<Rightarrow> u64 \<Rightarrow> nat \<Rightarrow> u8 list" where
  "mem_read h ptr sz = map (\<lambda>i. h (ptr + of_nat i)) [0..<sz]"

primrec mem_write :: "host_mem \<Rightarrow> u64 \<Rightarrow> u8 list \<Rightarrow> host_mem" where
  "mem_write h ptr [] = h"
| "mem_write h ptr (b # bs) = mem_write (h(ptr := b)) (ptr + 1) bs"

definition buf_fill :: "u8 list \<Rightarrow> u8 list \<Rightarrow> u8 list" where
  "buf_fill data bytes = bytes @ drop (length bytes) data"

primrec mmio_unaligned_loop :: "nat \<Rightarrow> 'd mmio_dev \<Rightarrow> nat \<Rightarrow> u8 \<Rightarrow> u8 list \<Rightarrow> u8 list \<Rightarrow> u64 \<Rightarrow> nat \<Rightarrow> nat \<Rightarrow> nat
    \<Rightarrow> 'd hart \<Rightarrow> bool \<times> u8 list \<times> 'd hart" where
  "mmio_unaligned_loop 0 dev align access tmp data offset_align offset_diff offset_dest sz vm = (sz = 0, data, vm)"
| "mmio_unaligned_loop (Suc fuel) dev align access tmp data offset_align offset_diff offset_dest sz vm =
     (if sz = 0 then (True, data, vm)
      else
        (let size_dest = (if align - offset_diff > sz then sz else align - offset_diff);
             (ok, tmp, vm) =
               (if access \<noteq> RISCV_MMU_WRITE \<or> offset_diff \<noteq> 0 \<or> size_dest \<noteq> align
                then (case md_read dev of None \<Rightarrow> (False, tmp, vm) | Some rd \<Rightarrow> rd vm tmp offset_align align)
                else (True, tmp, vm))
         in if \<not> ok then (False, data, vm)
            else if access = RISCV_MMU_WRITE then
              (let tmp = take offset_diff tmp @ take size_dest (drop offset_dest data)
                         @ drop (offset_diff + size_dest) tmp;
                   (ok, tmp, vm) = (case md_write dev of None \<Rightarrow> (False, tmp, vm)
                                    | Some wr \<Rightarrow> wr vm tmp offset_align align)
               in if \<not> ok then (False, data, vm)
                  else mmio_unaligned_loop fuel dev align access tmp data (offset_align + of_nat align) 0
                         (offset_dest + size_dest) (sz - size_dest) vm)
            else
              (let data = take offset_dest data @ take size_dest (drop offset_diff tmp)
                          @ drop (offset_dest + size_dest) data
               in mmio_unaligned_loop fuel dev align access tmp data (offset_align + of_nat align) 0
                    (offset_dest + size_dest) (sz - size_dest) vm)))"

definition riscv_mmio_unaligned_op :: "'d mmio_dev \<Rightarrow> u8 list \<Rightarrow> u64 \<Rightarrow> nat \<Rightarrow> u8 \<Rightarrow> 'd hart \<Rightarrow> bool \<times> u8 list \<times> 'd hart" where
  "riscv_mmio_unaligned_op dev data offset sz access vm =
     (let align = (if sz < md_min_op_size dev then md_min_op_size dev
                   else if sz > md_max_op_size dev then md_max_op_size dev else sz);
          offset_align = offset AND NOT (of_nat align - 1);
          offset_diff = unat (offset - offset_align)
      in if align > 16 then (False, data, vm)
         else mmio_unaligned_loop sz dev align access (replicate 16 0) data offset_align offset_diff 0 sz vm)"

primrec mmio_scan_devs :: "'d mmio_dev list \<Rightarrow> 'd hart \<Rightarrow> u64 \<Rightarrow> u64 \<Rightarrow> u8 list \<Rightarrow> nat \<Rightarrow> u8 \<Rightarrow> bool \<times> u8 list \<times> 'd hart" where
  "mmio_scan_devs [] vm vaddr paddr data sz access = (False, data, vm)"
| "mmio_scan_devs (mmio # devices) vm vaddr paddr data sz access =
     (if md_addr mmio \<le> paddr \<and> paddr < md_addr mmio + md_size mmio then
        (let rwfunc = (if access = RISCV_MMU_WRITE then md_write mmio else md_read mmio);
             offset = paddr - md_addr mmio;
             (data, vm) =
               (case rwfunc of
                  Some f \<Rightarrow>
                    (if sz \<le> md_max_op_size mmio \<and> sz \<ge> md_min_op_size mmio \<and> offset AND (of_nat sz - 1) = 0
                     then snd (f vm data offset sz)
                     else snd (riscv_mmio_unaligned_op mmio data offset sz access vm))
                | None \<Rightarrow> if md_mapping mmio = None then (buf_fill data (replicate sz 0), vm) else (data, vm))
         in case md_mapping mmio of
              None \<Rightarrow> (True, data, vm)
            | Some mapping \<Rightarrow>
                (let paddr_align = paddr AND RISCV_PAGE_PNMASK;
                     vm = (if md_addr mmio \<le> paddr_align
                              \<and> paddr_align + RISCV_PAGE_SIZE \<le> md_addr mmio + md_size mmio
                           then riscv_tlb_put vm vaddr (mapping + offset) access else vm)
                 in if access = RISCV_MMU_WRITE
                    then (True, data, vm\<lparr>host := mem_write (host vm) (mapping + offset) (take sz data)\<rparr>)
                    else (True, buf_fill data (mem_read (host vm) (mapping + offset) sz), vm)))
      else mmio_scan_devs devices vm vaddr paddr data sz access)"

definition riscv_mmio_scan :: "'d machine \<Rightarrow> 'd hart \<Rightarrow> u64 \<Rightarrow> u64 \<Rightarrow> u8 list \<Rightarrow> nat \<Rightarrow> u8 \<Rightarrow> bool \<times> u8 list \<times> 'd hart" where
  "riscv_mmio_scan m vm vaddr paddr data sz access = mmio_scan_devs (mc_mmio_devs m) vm vaddr paddr data sz access"

section \<open>The slow access path\<close>

datatype mmu_ptr = Mnull | Mdata | Mhost u64

definition riscv_block_in_page :: "u64 \<Rightarrow> nat \<Rightarrow> bool" where
  "riscv_block_in_page addr sz \<longleftrightarrow> (addr AND RISCV_PAGE_MASK) + of_nat sz \<le> RISCV_PAGE_SIZE"

definition mmu_fault :: "u8 \<Rightarrow> u8 \<Rightarrow> u8 \<Rightarrow> 'd hart \<Rightarrow> u64 \<Rightarrow> u32 \<Rightarrow> 'd hart" where
  "mmu_fault insn_cause load_cause store_cause vm vaddr attr =
     (if attr AND RISCV_MMU_ATTR_NO_TRAP = 0 then
        (let access = ucast attr;
             cause = insn_cause;
             cause = (if access = RISCV_MMU_READ then load_cause else cause);
             cause = (if access = RISCV_MMU_WRITE then store_cause else cause)
         in riscv_trap vm cause vaddr)
      else vm)"

definition riscv_mmu_misalign :: "'d hart \<Rightarrow> u64 \<Rightarrow> u32 \<Rightarrow> 'd hart" where
  "riscv_mmu_misalign = mmu_fault RISCV_TRAP_INSN_MISALIGN RISCV_TRAP_LOAD_MISALIGN RISCV_TRAP_STORE_MISALIGN"

definition riscv_mmu_phys_fault :: "'d hart \<Rightarrow> u64 \<Rightarrow> u32 \<Rightarrow> 'd hart" where
  "riscv_mmu_phys_fault = mmu_fault RISCV_TRAP_INSN_FETCH RISCV_TRAP_LOAD_FAULT RISCV_TRAP_STORE_FAULT"

definition riscv_mmu_pagefault :: "'d hart \<Rightarrow> u64 \<Rightarrow> u32 \<Rightarrow> 'd hart" where
  "riscv_mmu_pagefault = mmu_fault RISCV_TRAP_INSN_PAGEFAULT RISCV_TRAP_LOAD_PAGEFAULT RISCV_TRAP_STORE_PAGEFAULT"

text \<open>A 64-bit value as the eight bytes a little-endian host stores.\<close>

definition u64_bytes :: "u64 \<Rightarrow> u8 list" where
  "u64_bytes v = map (\<lambda>i. ucast (shr v (8 * i))) [0..<8]"

type_synonym 'd mmu_result = "mmu_ptr \<times> u8 list option \<times> 'd hart"

text \<open>The part of \<^verbatim>\<open>riscv_mmu_op_internal\<close> after the page-crossing check.\<close>

definition mmu_op_page :: "'d machine \<Rightarrow> 'd hart \<Rightarrow> u64 \<Rightarrow> u8 list option \<Rightarrow> u32 \<Rightarrow> 'd mmu_result" where
  "mmu_op_page m vm vaddr data attr =
     (let access = ucast attr :: u8;
          sz = unat (shr attr 16);
          mmu_access = (if attr AND RISCV_MMU_ATTR_NO_PROT \<noteq> 0 then RISCV_MMU_DEBUG_ACCESS else access)
      in case riscv_mmu_translate vm vaddr mmu_access of
           (None, vm) \<Rightarrow> (Mnull, data, riscv_mmu_pagefault vm vaddr attr)
         | (Some paddr, vm) \<Rightarrow>
             if attr AND RISCV_MMU_ATTR_PHYS \<noteq> 0 then (Mdata, map_option (\<lambda>d. buf_fill d (u64_bytes paddr)) data, vm)
             else
               (case riscv_phys_access vm paddr of
                  Some ptr \<Rightarrow>
                    (let vm = riscv_tlb_put vm vaddr ptr access in
                     if attr AND RISCV_MMU_ATTR_PTR = 0 then
                       (if access = RISCV_MMU_WRITE
                        then (Mhost ptr, data, vm\<lparr>host := mem_write (host vm) ptr (take sz (the data))\<rparr>)
                        else (Mhost ptr, map_option (\<lambda>d. buf_fill d (mem_read (host vm) ptr sz)) data, vm))
                     else (Mhost ptr, data, vm))
                | None \<Rightarrow>
                    (let mmio_access = (if attr AND RISCV_MMU_ATTR_PTR \<noteq> 0 then RISCV_MMU_READ else access);
                         (found, data, vm) =
                           (case data of
                              None \<Rightarrow> (False, None, vm)
                            | Some d \<Rightarrow> (let (found, d, vm) = riscv_mmio_scan m vm vaddr paddr d sz mmio_access
                                        in (found, Some d, vm)))
                     in if found then (Mdata, data, vm)
                        else if paddr AND NOT SV64_PHYS_MASK = 0
                        then (if data = None then Mnull else Mdata, map_option (\<lambda>d. buf_fill d (replicate sz 0)) data, vm)
                        else (Mnull, data, riscv_mmu_phys_fault vm vaddr attr))))"

definition mmu_attr :: "u32 \<Rightarrow> nat \<Rightarrow> u8 \<Rightarrow> u32" where
  "mmu_attr attr sz access = shl (of_nat sz) 16 OR (attr AND 0xFF00) OR ucast access"

text \<open>
  The whole function: an access that crosses a page is done in two parts, neither of which
  crosses a page again (\<open>block_parts_in_page\<close> below), so that the recursive calls of the source
  are calls of \<open>mmu_op_page\<close>.
\<close>

definition riscv_mmu_op_internal :: "'d machine \<Rightarrow> 'd hart \<Rightarrow> u64 \<Rightarrow> u8 list option \<Rightarrow> u32 \<Rightarrow> 'd mmu_result" where
  "riscv_mmu_op_internal m vm vaddr data attr =
     (let access = ucast attr :: u8; sz = unat (shr attr 16) in
      if \<not> riscv_block_in_page vaddr sz then
        (if attr AND RISCV_MMU_ATTR_PTR \<noteq> 0 then (Mnull, data, riscv_mmu_misalign vm vaddr attr)
         else
           (let part_size = unat (ucast (RISCV_PAGE_SIZE - (vaddr AND RISCV_PAGE_MASK)) :: u8) in
            case mmu_op_page m vm vaddr data (mmu_attr attr part_size access) of
              (Mnull, data, vm) \<Rightarrow> (Mnull, data, vm)
            | (_, data, vm) \<Rightarrow>
                (let (r, rest, vm) = mmu_op_page m vm (vaddr + of_nat part_size) (map_option (drop part_size) data)
                                       (mmu_attr attr (sz - part_size) access)
                 in (r, (case (data, rest) of (Some d, Some e) \<Rightarrow> Some (take part_size d @ e) | _ \<Rightarrow> data), vm))))
      else mmu_op_page m vm vaddr data attr)"

definition riscv_mmu_op_helper :: "'d machine \<Rightarrow> 'd hart \<Rightarrow> u64 \<Rightarrow> u8 list option \<Rightarrow> u32 \<Rightarrow> nat \<Rightarrow> u8 \<Rightarrow> 'd mmu_result" where
  "riscv_mmu_op_helper m vm vaddr data attr sz access =
     riscv_mmu_op_internal m vm vaddr data (mmu_attr attr sz access)"

definition riscv_mmu_op :: "'d machine \<Rightarrow> 'd hart \<Rightarrow> u64 \<Rightarrow> u8 list \<Rightarrow> nat \<Rightarrow> u8 \<Rightarrow> bool \<times> u8 list \<times> 'd hart" where
  "riscv_mmu_op m vm vaddr data sz access =
     (let (r, d, vm) = riscv_mmu_op_helper m vm vaddr (Some data) 0 sz access in (r \<noteq> Mnull, the d, vm))"

definition riscv_mmu_virt_translate :: "'d machine \<Rightarrow> 'd hart \<Rightarrow> u64 \<Rightarrow> u8 \<Rightarrow> bool \<times> u8 list \<times> 'd hart" where
  "riscv_mmu_virt_translate m vm vaddr access =
     (let (r, d, vm) = riscv_mmu_op_helper m vm vaddr (Some (replicate 8 0))
                         (RISCV_MMU_ATTR_PHYS OR RISCV_MMU_ATTR_NO_TRAP) 0 access
      in (r \<noteq> Mnull, the d, vm))"

definition riscv_mmu_ptr_translate :: "'d machine \<Rightarrow> 'd hart \<Rightarrow> u64 \<Rightarrow> u8 list option \<Rightarrow> nat \<Rightarrow> u8 \<Rightarrow> 'd mmu_result" where
  "riscv_mmu_ptr_translate m vm vaddr data sz access =
     riscv_mmu_op_helper m vm vaddr data RISCV_MMU_ATTR_PTR sz access"

definition riscv_rmw_mmio_commit :: "'d machine \<Rightarrow> 'd hart \<Rightarrow> u64 \<Rightarrow> u8 list \<Rightarrow> nat \<Rightarrow> 'd hart" where
  "riscv_rmw_mmio_commit m vm vaddr data sz =
     snd (snd (riscv_mmu_op_helper m vm vaddr (Some data) RISCV_MMU_ATTR_NO_TRAP sz RISCV_MMU_WRITE))"

section \<open>TLB-cached accesses\<close>

text \<open>A local buffer of the C code, read through the accessors of \<^verbatim>\<open>mem_ops.h\<close>.\<close>

definition buf_mem :: "u8 list \<Rightarrow> host_mem" where
  "buf_mem d = (\<lambda>a. if unat a < length d then d ! unat a else 0)"

definition riscv_fetch_insn :: "'d machine \<Rightarrow> 'd hart \<Rightarrow> u64 \<Rightarrow> u32 option \<times> 'd hart" where
  "riscv_fetch_insn m vm vaddr =
     (let slow =
        (case riscv_mmu_op m vm vaddr (replicate 4 0) 2 RISCV_MMU_EXEC of
           (False, _, vm) \<Rightarrow> (None, vm)
         | (True, buff, vm) \<Rightarrow>
             if (buff ! 0) AND 0x3 = 0x3 then
               (case riscv_mmu_op m vm (vaddr + 2) (drop 2 buff) 2 RISCV_MMU_EXEC of
                  (False, _, vm) \<Rightarrow> (None, vm)
                | (True, buff2, vm) \<Rightarrow> (Some (read_uint32_le (buf_mem (take 2 buff @ buff2)) 0), vm))
             else (Some (read_uint32_le (buf_mem buff) 0), vm))
      in case tlb_lookup vm vaddr RISCV_MMU_EXEC of
           Some ptr \<Rightarrow>
             (let tmp = ucast (read_uint16_le (host vm) ptr) :: u32 in
              if tmp AND 0x3 = 0x3 then
                (case tlb_lookup vm (vaddr + 2) RISCV_MMU_EXEC of
                   Some ptr2 \<Rightarrow> (Some (tmp OR shl (ucast (read_uint16_le (host vm) ptr2)) 16), vm)
                 | None \<Rightarrow> slow)
              else (Some tmp, vm))
         | None \<Rightarrow> slow)"

definition riscv_ro_translate :: "'d machine \<Rightarrow> 'd hart \<Rightarrow> u64 \<Rightarrow> u8 list option \<Rightarrow> nat \<Rightarrow> 'd mmu_result" where
  "riscv_ro_translate m vm vaddr buff sz =
     (case tlb_lookup vm vaddr RISCV_MMU_READ of
        Some ptr \<Rightarrow> (Mhost ptr, buff, vm)
      | None \<Rightarrow> riscv_mmu_ptr_translate m vm vaddr buff sz RISCV_MMU_READ)"

definition riscv_rmw_translate :: "'d machine \<Rightarrow> 'd hart \<Rightarrow> u64 \<Rightarrow> u8 list option \<Rightarrow> nat \<Rightarrow> 'd mmu_result" where
  "riscv_rmw_translate m vm vaddr buff sz =
     (case tlb_lookup vm vaddr RISCV_MMU_WRITE of
        Some ptr \<Rightarrow> (Mhost ptr, buff, vm)
      | None \<Rightarrow> riscv_mmu_ptr_translate m vm vaddr buff sz RISCV_MMU_WRITE)"

text \<open>The common body of the integer loads and stores, which differ in size and conversion.\<close>

definition load_with :: "(host_mem \<Rightarrow> u64 \<Rightarrow> u64) \<Rightarrow> nat \<Rightarrow> 'd machine \<Rightarrow> 'd hart \<Rightarrow> u64 \<Rightarrow> nat \<Rightarrow> 'd hart" where
  "load_with conv sz m vm vaddr reg =
     (case (if vaddr AND (of_nat sz - 1) = 0 then tlb_lookup vm vaddr RISCV_MMU_READ else None) of
        Some ptr \<Rightarrow> set_reg vm reg (conv (host vm) ptr)
      | None \<Rightarrow>
          (case riscv_mmu_op m vm vaddr (replicate sz 0) sz RISCV_MMU_READ of
             (True, tmp, vm) \<Rightarrow> set_reg vm reg (conv (buf_mem tmp) 0)
           | (False, _, vm) \<Rightarrow> vm))"

definition store_with :: "(host_mem \<Rightarrow> u64 \<Rightarrow> u64 \<Rightarrow> host_mem) \<Rightarrow> nat \<Rightarrow> 'd machine \<Rightarrow> 'd hart \<Rightarrow> u64 \<Rightarrow> nat \<Rightarrow> 'd hart" where
  "store_with wr sz m vm vaddr reg =
     (case (if vaddr AND (of_nat sz - 1) = 0 then tlb_lookup vm vaddr RISCV_MMU_WRITE else None) of
        Some ptr \<Rightarrow> vm\<lparr>host := wr (host vm) ptr (registers vm reg)\<rparr>
      | None \<Rightarrow>
          snd (snd (riscv_mmu_op m vm vaddr (mem_read (wr (\<lambda>_. 0) 0 (registers vm reg)) 0 sz) sz RISCV_MMU_WRITE)))"

definition riscv_load_u64 :: "'d machine \<Rightarrow> 'd hart \<Rightarrow> u64 \<Rightarrow> nat \<Rightarrow> 'd hart" where
  "riscv_load_u64 = load_with read_uint64_le 8"

definition riscv_load_u32 :: "'d machine \<Rightarrow> 'd hart \<Rightarrow> u64 \<Rightarrow> nat \<Rightarrow> 'd hart" where
  "riscv_load_u32 = load_with (\<lambda>h a. ucast (read_uint32_le h a)) 4"

definition riscv_load_s32 :: "'d machine \<Rightarrow> 'd hart \<Rightarrow> u64 \<Rightarrow> nat \<Rightarrow> 'd hart" where
  "riscv_load_s32 = load_with (\<lambda>h a. scast (read_uint32_le h a)) 4"

definition riscv_load_u16 :: "'d machine \<Rightarrow> 'd hart \<Rightarrow> u64 \<Rightarrow> nat \<Rightarrow> 'd hart" where
  "riscv_load_u16 = load_with (\<lambda>h a. ucast (read_uint16_le h a)) 2"

definition riscv_load_s16 :: "'d machine \<Rightarrow> 'd hart \<Rightarrow> u64 \<Rightarrow> nat \<Rightarrow> 'd hart" where
  "riscv_load_s16 = load_with (\<lambda>h a. scast (read_uint16_le h a)) 2"

definition riscv_load_u8 :: "'d machine \<Rightarrow> 'd hart \<Rightarrow> u64 \<Rightarrow> nat \<Rightarrow> 'd hart" where
  "riscv_load_u8 = load_with (\<lambda>h a. ucast (read_uint8 h a)) 1"

definition riscv_load_s8 :: "'d machine \<Rightarrow> 'd hart \<Rightarrow> u64 \<Rightarrow> nat \<Rightarrow> 'd hart" where
  "riscv_load_s8 = load_with (\<lambda>h a. scast (read_uint8 h a)) 1"

definition riscv_store_u64 :: "'d machine \<Rightarrow> 'd hart \<Rightarrow> u64 \<Rightarrow> nat \<Rightarrow> 'd hart" where
  "riscv_store_u64 = store_with write_uint64_le 8"

definition riscv_store_u32 :: "'d machine \<Rightarrow> 'd hart \<Rightarrow> u64 \<Rightarrow> nat \<Rightarrow> 'd hart" where
  "riscv_store_u32 = store_with (\<lambda>h a v. write_uint32_le h a (ucast v)) 4"

definition riscv_store_u16 :: "'d machine \<Rightarrow> 'd hart \<Rightarrow> u64 \<Rightarrow> nat \<Rightarrow> 'd hart" where
  "riscv_store_u16 = store_with (\<lambda>h a v. write_uint16_le h a (ucast v)) 2"

definition riscv_store_u8 :: "'d machine \<Rightarrow> 'd hart \<Rightarrow> u64 \<Rightarrow> nat \<Rightarrow> 'd hart" where
  "riscv_store_u8 = store_with (\<lambda>h a v. write_uint8 h a (ucast v)) 1"

section \<open>Page tables by the architecture\<close>

text \<open>
  The reference for the walk: what a page table maps a virtual page to, level by level.  Level
  \<open>l\<close> indexes with the nine bits of the virtual address above \<open>12 + 9 * l\<close>.  A leaf at level \<open>l\<close>
  maps a naturally aligned region of \<open>12 + 9 * l\<close> address bits, whose frame number is in the bits
  of the entry from 10 on.
\<close>

definition pte_at :: "'d hart \<Rightarrow> u64 \<Rightarrow> u64 \<Rightarrow> nat \<Rightarrow> u64 option" where
  "pte_at vm vaddr table l =
     map_option (read_uint64_le (host vm)) (riscv_phys_access vm (table + shl (shr vaddr (12 + 9 * l) AND 0x1FF) 3))"

text \<open>
  The kind of access is enabled, and the page's U bit matches the mode, unless the access is a
  debugger's, or supervisor data access with the SUM bit set.
\<close>

definition pte_allows :: "'d hart \<Rightarrow> nat \<Rightarrow> u8 \<Rightarrow> u64 \<Rightarrow> bool" where
  "pte_allows vm priv access pte \<longleftrightarrow>
     pte AND ucast access \<noteq> 0
     \<and> ((bit pte 4 \<longleftrightarrow> priv = RISCV_PRIV_USER) \<or> access = RISCV_MMU_DEBUG_ACCESS
        \<or> access \<noteq> RISCV_MMU_EXEC \<and> priv = RISCV_PRIV_SUPERVISOR \<and> bit (status vm) 18)"

inductive sv_maps :: "'d hart \<Rightarrow> u64 \<Rightarrow> nat \<Rightarrow> u8 \<Rightarrow> nat \<Rightarrow> u64 \<Rightarrow> u64 \<Rightarrow> bool"
  for vm vaddr priv access where
  sv_leaf: "\<lbrakk>pte_at vm vaddr table l = Some pte; bit pte 0; bit pte 1 \<or> bit pte 3;
             pte_allows vm priv access pte;
             \<forall>n. 10 \<le> n \<and> n < 10 + 9 * l \<longrightarrow> \<not> bit pte n;
             \<forall>n. bit paddr n \<longleftrightarrow> (if n < 12 + 9 * l then bit vaddr n else n < 56 \<and> bit pte (n - 2))\<rbrakk>
            \<Longrightarrow> sv_maps vm vaddr priv access l table paddr"
| sv_next: "\<lbrakk>pte_at vm vaddr table (Suc l) = Some pte; bit pte 0; \<not> bit pte 1; \<not> bit pte 2; \<not> bit pte 3;
             \<forall>n. bit table' n \<longleftrightarrow> 12 \<le> n \<and> n < 56 \<and> bit pte (n - 2);
             sv_maps vm vaddr priv access l table' paddr\<rbrakk>
            \<Longrightarrow> sv_maps vm vaddr priv access (Suc l) table paddr"

inductive_cases sv_maps_0E: "sv_maps vm vaddr priv access 0 table paddr"
inductive_cases sv_maps_SucE: "sv_maps vm vaddr priv access (Suc l) table paddr"

section \<open>The walk implements the reference\<close>

lemma and_bits:
  fixes pte :: u64
  shows "pte AND 0x1 \<noteq> 0 \<longleftrightarrow> bit pte 0" "pte AND 0x10 \<noteq> 0 \<longleftrightarrow> bit pte 4" "pte AND 0x4 \<noteq> 0 \<longleftrightarrow> bit pte 2"
    "pte AND 0xA \<noteq> 0 \<longleftrightarrow> bit pte 1 \<or> bit pte 3"
proof -
  have one: "pte AND shl 1 k \<noteq> 0 \<longleftrightarrow> bit pte k" if "k < 64" for k
    using shl_and_bit [OF that, of pte] by (simp add: and.commute)
  show "pte AND 0x1 \<noteq> 0 \<longleftrightarrow> bit pte 0" "pte AND 0x10 \<noteq> 0 \<longleftrightarrow> bit pte 4" "pte AND 0x4 \<noteq> 0 \<longleftrightarrow> bit pte 2"
    using one [of 0] one [of 4] one [of 2] by simp_all
  have "pte AND 0xA = (pte AND shl 1 1) OR (pte AND shl 1 3)"
    by (rule word_eqI_64) (simp add: bit_simps)
  then show "pte AND 0xA \<noteq> 0 \<longleftrightarrow> bit pte 1 \<or> bit pte 3"
    using one [of 1] one [of 3] by (simp add: or_eq_0_iff)
qed

lemma sum_bit: "s AND CSR_STATUS_SUM = 0 \<longleftrightarrow> \<not> bit s 18"
  using shl_and_bit [of 18 s] by (simp add: and.commute)

lemma check_priv_eq:
  "riscv_mmu_check_priv vm priv access \<longleftrightarrow> access = RISCV_MMU_DEBUG_ACCESS
     \<or> access \<noteq> RISCV_MMU_EXEC \<and> priv = RISCV_PRIV_SUPERVISOR \<and> bit (status vm) 18"
  by (auto simp: riscv_mmu_check_priv_def sum_bit)

lemma page_masks:
  "(0xFFFFFFFFFFFFF000 :: u64) = NOT (mask 12)" "(0xFFFFFFFFFFFFFF :: u64) = mask 56"
  by (simp_all add: mask_numeral)

lemma superpage_aligned:
  assumes "off \<le> 56"
  shows "shl pte 2 AND bit_mask off AND RISCV_PAGE_PNMASK = 0 \<longleftrightarrow> (\<forall>n. 10 \<le> n \<and> n < off - 2 \<longrightarrow> \<not> bit (pte :: u64) n)"
proof -
  have bits: "bit (shl pte 2 AND bit_mask off AND RISCV_PAGE_PNMASK) k \<longleftrightarrow> 12 \<le> k \<and> k < off \<and> bit pte (k - 2)" for k
    using assms by (auto simp: page_masks bit_mask_eq bit_simps)
  have "shl pte 2 AND bit_mask off AND RISCV_PAGE_PNMASK \<noteq> 0 \<longleftrightarrow> (\<exists>k. 12 \<le> k \<and> k < off \<and> bit pte (k - 2))"
    by (simp only: word_nonzero_bit bits)
  also have "\<dots> \<longleftrightarrow> (\<exists>n. 10 \<le> n \<and> n < off - 2 \<and> bit pte n)"
  proof
    assume "\<exists>k. 12 \<le> k \<and> k < off \<and> bit pte (k - 2)"
    then obtain k where "12 \<le> k" "k < off" "bit pte (k - 2)" by blast
    then show "\<exists>n. 10 \<le> n \<and> n < off - 2 \<and> bit pte n" by (intro exI [of _ "k - 2"]) auto
  next
    assume "\<exists>n. 10 \<le> n \<and> n < off - 2 \<and> bit pte n"
    then obtain n where "10 \<le> n" "n < off - 2" "bit pte n" by blast
    then show "\<exists>k. 12 \<le> k \<and> k < off \<and> bit pte (k - 2)" by (intro exI [of _ "n + 2"]) auto
  qed
  finally show ?thesis by blast
qed

lemma leaf_address_bit:
  assumes "2 \<le> off" "off \<le> 56"
  shows "bit ((shl pte 2 AND shl (bit_mask (56 - off)) off) OR (vaddr AND bit_mask off)) n \<longleftrightarrow>
    (if n < off then bit (vaddr :: u64) n else n < 56 \<and> bit pte (n - 2))"
  using assms bit_imp_le_length [of vaddr n] by (auto simp: bit_mask_eq bit_simps)

lemma next_table_bit:
  "bit (shl (shr pte 10) 12 AND SV64_PHYS_MASK) n \<longleftrightarrow> 12 \<le> n \<and> n < 56 \<and> bit (pte :: u64) (n - 2)"
  by (auto simp: page_masks bit_simps)

text \<open>An entry that is no usable leaf and no pointer is read again until the levels run out.\<close>

lemma walk_stuck:
  assumes "riscv_phys_access vm (table + shl (shr vaddr off AND 0x1FF) 3) = Some ptr"
    and "pte = read_uint64_le (host vm) ptr"
    and "\<not> bit pte 0 \<or> (if bit pte 1 \<or> bit pte 3 then pte AND ucast access = 0 else bit pte 2)"
  shows "sv64_walk vaddr priv access i table off vm = (None, vm)"
proof (induction i)
  case (Suc i)
  show ?case
    using assms and_bits [of pte]
    by (auto simp: Let_def Suc split: if_splits)
qed simp

definition leaf_aligned :: "nat \<Rightarrow> u64 \<Rightarrow> bool" where
  "leaf_aligned l pte \<longleftrightarrow> (\<forall>n. 10 \<le> n \<and> n < 10 + 9 * l \<longrightarrow> \<not> bit pte n)"

definition leaf_paddr :: "nat \<Rightarrow> u64 \<Rightarrow> u64 \<Rightarrow> u64" where
  "leaf_paddr l pte vaddr =
     (shl pte 2 AND shl (bit_mask (56 - (12 + 9 * l))) (12 + 9 * l)) OR (vaddr AND bit_mask (12 + 9 * l))"

definition next_table :: "u64 \<Rightarrow> u64" where
  "next_table pte = shl (shr pte 10) 12 AND SV64_PHYS_MASK"

lemma walk_step:
  assumes "l \<le> 4"
  shows "fst (sv64_walk vaddr priv access (Suc i) table (12 + 9 * l) vm) =
    (case pte_at vm vaddr table l of
       None \<Rightarrow> None
     | Some pte \<Rightarrow>
         if bit pte 0 \<and> (bit pte 1 \<or> bit pte 3) then
           (if pte_allows vm priv access pte \<and> leaf_aligned l pte then Some (leaf_paddr l pte vaddr) else None)
         else if bit pte 0 \<and> \<not> bit pte 2
         then fst (sv64_walk vaddr priv access i (next_table pte) (12 + 9 * l - 9) vm)
         else None)"
proof (cases "riscv_phys_access vm (table + shl (shr vaddr (12 + 9 * l) AND 0x1FF) 3)")
  case None
  then show ?thesis by (simp add: pte_at_def)
next
  case (Some ptr)
  define pte where "pte = read_uint64_le (host vm) ptr"
  have at: "pte_at vm vaddr table l = Some pte" unfolding pte_at_def Some pte_def by simp
  note bits = and_bits [of pte, folded pte_def] and aligned = superpage_aligned [of "12 + 9 * l" pte]
  have stuck: "\<not> bit pte 0 \<or> (if bit pte 1 \<or> bit pte 3 then pte AND ucast access = 0 else bit pte 2) \<Longrightarrow>
      sv64_walk vaddr priv access i table (12 + 9 * l) vm = (None, vm)" for i
    by (rule walk_stuck [OF Some pte_def])
  have eqs: "shl pte 2 AND bit_mask (12 + 9 * l) AND RISCV_PAGE_PNMASK \<noteq> 0 \<longleftrightarrow> \<not> leaf_aligned l pte"
    using aligned assms by (simp add: leaf_aligned_def)
  have four: "pte AND ucast RISCV_MMU_WRITE = 0 \<longleftrightarrow> \<not> bit pte 2" using bits(3) by auto
  show ?thesis
    unfolding at option.case sv64_walk.simps(2) Let_def Some pte_def [symmetric] bits eqs four check_priv_eq
      leaf_paddr_def next_table_def pte_allows_def
    by (cases "bit pte 0"; cases "bit pte 1 \<or> bit pte 3"; cases "pte AND ucast access = 0";
        simp only: stuck [of i] simp_thms if_True if_False fst_conv cong: if_cong) (auto simp: stuck [of i])
qed

lemma leaf_paddr_bit:
  "l \<le> 4 \<Longrightarrow> bit (leaf_paddr l pte vaddr) n \<longleftrightarrow> (if n < 12 + 9 * l then bit vaddr n else n < 56 \<and> bit pte (n - 2))"
  unfolding leaf_paddr_def by (rule leaf_address_bit) auto

lemma leaf_paddr_unique:
  assumes "l \<le> 4"
  shows "(\<forall>n. bit paddr n \<longleftrightarrow> (if n < 12 + 9 * l then bit vaddr n else n < 56 \<and> bit pte (n - 2)))
    \<longleftrightarrow> paddr = leaf_paddr l pte vaddr"
proof
  assume *: "\<forall>n. bit paddr n \<longleftrightarrow> (if n < 12 + 9 * l then bit vaddr n else n < 56 \<and> bit pte (n - 2))"
  show "paddr = leaf_paddr l pte vaddr"
    by (rule bit_word_eqI) (simp only: * [rule_format] leaf_paddr_bit [OF assms])
qed (simp add: leaf_paddr_bit [OF assms])

lemma next_table_unique:
  "(\<forall>n. bit table n \<longleftrightarrow> 12 \<le> n \<and> n < 56 \<and> bit pte (n - 2)) \<longleftrightarrow> table = next_table pte"
proof
  assume *: "\<forall>n. bit table n \<longleftrightarrow> 12 \<le> n \<and> n < 56 \<and> bit pte (n - 2)"
  show "table = next_table pte"
    by (rule bit_word_eqI) (simp only: * [rule_format] next_table_def next_table_bit)
qed (simp add: next_table_def next_table_bit)

lemma sv_maps_step:
  assumes "l \<le> 4"
  shows "sv_maps vm vaddr priv access l table paddr \<longleftrightarrow>
    (\<exists>pte. pte_at vm vaddr table l = Some pte \<and> bit pte 0
      \<and> ((bit pte 1 \<or> bit pte 3) \<and> pte_allows vm priv access pte \<and> leaf_aligned l pte \<and> paddr = leaf_paddr l pte vaddr
         \<or> \<not> bit pte 1 \<and> \<not> bit pte 2 \<and> \<not> bit pte 3
           \<and> (\<exists>k. l = Suc k \<and> sv_maps vm vaddr priv access k (next_table pte) paddr)))"
  (is "?L \<longleftrightarrow> ?R")
proof
  assume ?L
  then show ?R
    by (cases rule: sv_maps.cases) (auto simp: leaf_paddr_unique [OF assms] next_table_unique leaf_aligned_def)
next
  assume ?R
  then obtain pte where pte: "pte_at vm vaddr table l = Some pte" "bit pte 0"
    and "(bit pte 1 \<or> bit pte 3) \<and> pte_allows vm priv access pte \<and> leaf_aligned l pte \<and> paddr = leaf_paddr l pte vaddr
         \<or> \<not> bit pte 1 \<and> \<not> bit pte 2 \<and> \<not> bit pte 3
           \<and> (\<exists>k. l = Suc k \<and> sv_maps vm vaddr priv access k (next_table pte) paddr)" by blast
  from this(3) show ?L
  proof (elim disjE conjE exE)
    fix k assume "\<not> bit pte 1" "\<not> bit pte 2" "\<not> bit pte 3" "l = Suc k"
      "sv_maps vm vaddr priv access k (next_table pte) paddr"
    with pte next_table_unique [of "next_table pte" pte] show ?L by (blast intro: sv_next)
  qed (use pte leaf_paddr_bit [OF assms] in \<open>auto simp: leaf_aligned_def intro: sv_leaf\<close>)
qed

lemma sv64_walk_spec:
  assumes "l \<le> 4"
  shows "fst (sv64_walk vaddr priv access (Suc l) table (12 + 9 * l) vm) = Some paddr
    \<longleftrightarrow> sv_maps vm vaddr priv access l table paddr"
  using assms
proof (induction l arbitrary: table)
  case 0
  then show ?case
    unfolding walk_step [OF 0] sv_maps_step [OF 0]
    by (auto split: option.splits)
next
  case (Suc l)
  have off: "12 + 9 * Suc l - 9 = 12 + 9 * l" by simp
  from Suc show ?case
    unfolding walk_step [OF Suc.prems] sv_maps_step [OF Suc.prems] off
    by (auto split: option.splits simp del: sv64_walk.simps)
qed

lemma translate_rv64_spec:
  assumes "1 \<le> levels" "levels \<le> 5"
  shows "fst (riscv_mmu_translate_rv64 vm vaddr priv access levels) = Some paddr \<longleftrightarrow>
    vaddr = sign_extend vaddr (12 + 9 * levels)
    \<and> sv_maps vm vaddr priv access (levels - 1) (root_page_table vm) paddr"
proof -
  obtain l where l: "levels = Suc l" "l \<le> 4" using assms by (cases levels) auto
  have off: "levels * 9 + 12 - 9 = 12 + 9 * l" "12 + 9 * l + 9 = 12 + 9 * levels" "levels - 1 = l"
    using l by simp_all
  show ?thesis
    using sv64_walk_spec [OF l(2), of vaddr priv access "root_page_table vm" vm paddr]
    unfolding riscv_mmu_translate_rv64_def Let_def off l(1) [symmetric] by simp
qed

section \<open>Effects of a walk\<close>

text \<open>
  A walk touches no state but the accessed and dirty flags of the leaf it uses, and those only if
  they are not set yet.
\<close>

definition ad_update :: "u8 \<Rightarrow> u64 \<Rightarrow> u64" where
  "ad_update access pte = pte OR RISCV_PTE_ACCESSED OR shl (ucast (access AND RISCV_MMU_WRITE)) 5"

definition walk_effect :: "u8 \<Rightarrow> 'd hart \<Rightarrow> u64 option \<Rightarrow> 'd hart \<Rightarrow> bool" where
  "walk_effect access vm r vm' \<longleftrightarrow>
     (case r of
        None \<Rightarrow> vm' = vm
      | Some _ \<Rightarrow> \<exists>ptr pa. riscv_phys_access vm pa = Some ptr \<and> bit (read_uint64_le (host vm) ptr) 0
          \<and> (let pte = read_uint64_le (host vm) ptr; pte_ad = ad_update access pte
             in vm' = (if pte = pte_ad then vm else vm\<lparr>host := write_uint64_le (host vm) ptr pte_ad\<rparr>)))"

lemma sv64_walk_effect:
  "sv64_walk vaddr priv access i table off vm = (r, vm') \<Longrightarrow> walk_effect access vm r vm'"
proof (induction i arbitrary: table off)
  case 0
  then show ?case by (auto simp: walk_effect_def)
next
  case (Suc i)
  show ?case
  proof (cases "riscv_phys_access vm (table + shl (shr vaddr off AND 0x1FF) 3)")
    case None
    with Suc.prems show ?thesis unfolding sv64_walk.simps(2) Let_def by (auto simp: walk_effect_def)
  next
    case (Some ptr)
    define pte where "pte = read_uint64_le (host vm) ptr"
    note w = Suc.prems [unfolded sv64_walk.simps(2) Let_def Some option.case,
        folded pte_def, folded ad_update_def, unfolded and_bits]
    have fail: "walk_effect access vm None vm" by (simp add: walk_effect_def)
    have leaf: "walk_effect access vm (Some pa)
        (if pte \<noteq> ad_update access pte then vm\<lparr>host := write_uint64_le (host vm) ptr (ad_update access pte)\<rparr> else vm)"
      if "bit pte 0" for pa
      using that Some unfolding walk_effect_def Let_def option.case pte_def by (intro exI conjI) auto
    show ?thesis
    proof (cases "bit pte 0 \<and> (bit pte 1 \<or> bit pte 3)")
      case True
      show ?thesis
        using w True leaf fail Suc.IH [of table off]
        by (simp only: simp_thms if_True if_False) (auto split: if_splits)
    next
      case False
      show ?thesis
        using w False Suc.IH by (cases "bit pte 0"; simp only: simp_thms if_True if_False) (auto split: if_splits)
    qed
  qed
qed

lemma sv_maps_leaf:
  assumes "sv_maps vm vaddr priv access l table paddr" "l \<le> 4"
  shows "\<exists>pte k table'. k \<le> l \<and> pte_at vm vaddr table' k = Some pte \<and> bit pte 0 \<and> pte_allows vm priv access pte
    \<and> (\<forall>n. bit paddr n \<longleftrightarrow> (if n < 12 + 9 * k then bit vaddr n else n < 56 \<and> bit pte (n - 2)))"
  using assms
proof (induction rule: sv_maps.induct)
  case (sv_leaf table l pte paddr)
  then show ?case by blast
next
  case (sv_next table l pte table' paddr)
  then obtain pte' k table'' where "k \<le> l" "pte_at vm vaddr table'' k = Some pte'" "bit pte' 0"
    "pte_allows vm priv access pte'"
    "\<forall>n. bit paddr n \<longleftrightarrow> (if n < 12 + 9 * k then bit vaddr n else n < 56 \<and> bit pte' (n - 2))" by auto
  then show ?case by (meson le_SucI)
qed

section \<open>What translations change\<close>

text \<open>Translations change nothing of a hart but memory: the flags of a page table entry.\<close>

definition host_only :: "'d hart \<Rightarrow> 'd hart \<Rightarrow> bool" where
  "host_only vm vm' \<longleftrightarrow> (\<exists>h. vm' = vm\<lparr>host := h\<rparr>)"

lemma host_only_simps [simp]: "host_only vm vm" "host_only vm (vm\<lparr>host := h\<rparr>)"
  by (auto simp: host_only_def intro: exI [of _ "host vm"])

lemma sv32_walk_host: "host_only vm (snd (sv32_walk vaddr priv access i table off vm))"
  by (induction i arbitrary: table off) (auto simp: Let_def split: option.split)

lemma sv64_walk_host: "host_only vm (snd (sv64_walk vaddr priv access i table off vm))"
  by (induction i arbitrary: table off) (auto simp: Let_def split: option.split)

lemma translate_host: "host_only vm (snd (riscv_mmu_translate vm vaddr access))"
  by (simp add: riscv_mmu_translate_def riscv_mmu_translate_sv32_def riscv_mmu_translate_rv64_def sv32_walk_host sv64_walk_host Let_def)

lemma mmu_attr_fields:
  "ucast (mmu_attr attr sz access) = access"
  "mmu_attr attr sz access AND 0x100 = attr AND 0x100" "mmu_attr attr sz access AND 0x200 = attr AND 0x200"
  "mmu_attr attr sz access AND 0x400 = attr AND 0x400" "mmu_attr attr sz access AND 0x800 = attr AND 0x800"
  "sz < 65536 \<Longrightarrow> unat (shr (mmu_attr attr sz access) 16) = sz"
proof -
  have n: "mmu_attr attr sz access = shl (of_nat sz) 16 OR (attr AND shl (mask 8) 8) OR ucast access"
    by (simp add: mmu_attr_def mask_eq_exp_minus_1)
  show "ucast (mmu_attr attr sz access) = access"
    by (rule bit_word_eqI) (auto simp: n bit_simps)
  have m: "mmu_attr attr sz access AND shl 1 k = attr AND shl 1 k" if "8 \<le> k" "k < 16" for k
    using that bit_imp_le_length [of access k] by (intro bit_word_eqI) (auto simp: n bit_simps)
  show "mmu_attr attr sz access AND 0x100 = attr AND 0x100" "mmu_attr attr sz access AND 0x200 = attr AND 0x200"
    "mmu_attr attr sz access AND 0x400 = attr AND 0x400" "mmu_attr attr sz access AND 0x800 = attr AND 0x800"
    using m [of 8] m [of 9] m [of 10] m [of 11] by simp_all
  assume "sz < 65536"
  have "shr (mmu_attr attr sz access) 16 = of_nat sz"
  proof (rule bit_word_eqI)
    fix i assume "i < LENGTH(32)"
    moreover have "bit sz i \<Longrightarrow> i < 16"
      using \<open>sz < 65536\<close> take_bit_nat_eq_self [of sz 16] bit_take_bit_iff [of 16 sz i] by simp
    ultimately show "bit (shr (mmu_attr attr sz access) 16) i \<longleftrightarrow> bit (of_nat sz :: u32) i"
      using \<open>sz < 65536\<close> bit_imp_le_length [of access "16 + i"]
      by (auto simp: n bit_simps)
  qed
  then show "unat (shr (mmu_attr attr sz access) 16) = sz" using \<open>sz < 65536\<close> by (simp add: unat_of_nat)
qed

definition ram_only :: "'d hart \<Rightarrow> 'd hart \<Rightarrow> bool" where
  "ram_only vm vm' \<longleftrightarrow> (\<exists>h t. vm' = vm\<lparr>host := h, tlb := t\<rparr>)"

lemma ptr_translate_ram:
  assumes "riscv_mmu_ptr_translate m vm vaddr buf sz access = (Mhost ptr, buf', vm')"
  shows "ram_only vm vm'"
proof -
  have t: "ram_only vm (riscv_tlb_put v va p a)" if "host_only vm v" for v va p a
    using that by (auto simp: host_only_def ram_only_def riscv_tlb_put_def Let_def)
  have "ram_only vm v'" if "mmu_op_page m vm vaddr buf attr = (Mhost ptr, b, v')" "attr AND RISCV_MMU_ATTR_PTR \<noteq> 0" for attr b v'
    using that by (auto simp: mmu_op_page_def Let_def case_prod_beta intro!: t translate_host split: if_splits option.splits prod.splits)
  moreover have "mmu_attr RISCV_MMU_ATTR_PTR sz access AND RISCV_MMU_ATTR_PTR \<noteq> 0"
    by (simp add: mmu_attr_fields)
  ultimately show ?thesis
    using assms by (auto simp: riscv_mmu_ptr_translate_def riscv_mmu_op_helper_def riscv_mmu_op_internal_def Let_def split: if_splits)
qed

lemma ram_only_refl [simp]: "ram_only vm vm"
  unfolding ram_only_def by (rule exI [of _ "host vm"], rule exI [of _ "tlb vm"]) simp

lemma rmw_translate_ram:
  "riscv_rmw_translate m vm vaddr buf sz = (Mhost ptr, buf', vm') \<Longrightarrow> ram_only vm vm'"
  "riscv_ro_translate m vm vaddr buf sz = (Mhost ptr, buf', vm') \<Longrightarrow> ram_only vm vm'"
  using ptr_translate_ram by (auto simp: riscv_rmw_translate_def riscv_ro_translate_def split: option.splits)

section \<open>Memory round trips\<close>

lemma tlb_put_frame [simp]:
  "registers (riscv_tlb_put vm va p a) = registers vm" "host (riscv_tlb_put vm va p a) = host vm"
  "csr (riscv_tlb_put vm va p a) = csr vm" "priv_mode (riscv_tlb_put vm va p a) = priv_mode vm"
  "mem_addr (riscv_tlb_put vm va p a) = mem_addr vm" "mem_size (riscv_tlb_put vm va p a) = mem_size vm"
  "mem_data (riscv_tlb_put vm va p a) = mem_data vm" "trap (riscv_tlb_put vm va p a) = trap vm"
  "running (riscv_tlb_put vm va p a) = running vm" "mmu_mode (riscv_tlb_put vm va p a) = mmu_mode vm"
  "root_page_table (riscv_tlb_put vm va p a) = root_page_table vm" "devs (riscv_tlb_put vm va p a) = devs vm"
  by (simp_all add: riscv_tlb_put_def Let_def)

lemma tlb_lookup_host [simp]: "tlb_lookup (vm\<lparr>host := h\<rparr>) va a = tlb_lookup vm va a"
  by (simp add: tlb_lookup_def)

lemma tlb_lookup_write_reg [simp]: "tlb_lookup (set_reg vm r v) va a = tlb_lookup vm va a"
  by (simp add: tlb_lookup_def set_reg_def)

lemma put_write_reads:
  "tlb_lookup (riscv_tlb_put vm va p RISCV_MMU_WRITE) va RISCV_MMU_READ = Some p"
proof -
  have "RISCV_MMU_WRITE \<in> mmu_kinds" by (simp add: mmu_kinds_def)
  then show ?thesis by (simp add: tlb_lookup_tag tlb_tag_def put_entry Let_def)
qed

text \<open>
  An access of up to 256 bytes that crosses a page (the sources make none longer than 64) is cut
  into two nonempty parts that do not cross a page.
\<close>

lemma block_parts_in_page:
  assumes cross: "\<not> riscv_block_in_page vaddr sz" and "sz \<le> 256"
    and part: "part = unat (ucast (RISCV_PAGE_SIZE - (vaddr AND RISCV_PAGE_MASK)) :: u8)"
  shows "0 < part" "part < sz" "riscv_block_in_page vaddr part" "riscv_block_in_page (vaddr + of_nat part) (sz - part)"
proof -
  define off where "off = unat (vaddr AND mask 12)"
  have m: "(0xFFF :: u64) = mask 12" by (simp add: mask_eq_exp_minus_1)
  have off: "off < 4096" using word_and_mask_less [of vaddr 12] by (simp add: off_def)
  have at: "vaddr AND mask 12 = of_nat off" by (simp add: off_def)
  have sz: "unat (of_nat off + of_nat n :: u64) = off + n" if "n \<le> 4096" for n
    using off that by (simp add: unat_word_ariths unat_of_nat)
  have gt: "4096 < off + sz"
    using cross assms(2) sz [of sz] unfolding riscv_block_in_page_def m at by (simp add: word_le_nat_alt)
  have "RISCV_PAGE_SIZE - of_nat off = (of_nat (4096 - off) :: u64)" using off by (simp add: of_nat_diff)
  then have "unat (RISCV_PAGE_SIZE - of_nat off :: u64) = 4096 - off"
    by (simp only: unsigned_of_nat) (simp add: take_bit_nat_eq_self)
  then have p: "part = 4096 - off"
    using gt off assms(2) unfolding part m at by (simp add: unsigned_ucast_eq take_bit_nat_eq_self)
  show "0 < part" "part < sz" using p off gt by simp_all
  show "riscv_block_in_page vaddr part"
    unfolding riscv_block_in_page_def m at using sz [of part] p off by (simp add: word_le_nat_alt)
  have mod: "unat (x AND mask 12) = unat x mod 4096" for x :: u64
    by (simp add: unat_mod_distrib take_bit_eq_mod flip: take_bit_eq_mask)
  have "unat (vaddr + of_nat part) mod 4096 = (unat vaddr + part) mod 4096"
    by (simp add: unat_word_ariths unat_of_nat mod_mod_cancel mod_add_right_eq)
  also have "\<dots> = (off + part) mod 4096" by (simp add: off_def mod mod_add_left_eq)
  also have "\<dots> = 0" using p off by simp
  finally have "vaddr + of_nat part AND mask 12 = 0" using mod [of "vaddr + of_nat part"] by (simp add: unat_eq_zero)
  then show "riscv_block_in_page (vaddr + of_nat part) (sz - part)"
    unfolding riscv_block_in_page_def m using assms(2) by (simp add: word_le_nat_alt unat_of_nat take_bit_nat_eq_self)
qed

text \<open>A naturally aligned access of up to a page lies within a page.\<close>

lemma aligned_in_page:
  assumes "vaddr AND mask k = 0" "k \<le> 12"
  shows "riscv_block_in_page vaddr (2 ^ k)"
proof -
  define x where "x = vaddr AND mask 12"
  have "x AND mask k = (vaddr AND mask k) AND mask 12" by (simp add: x_def ac_simps)
  then have "x AND mask k = 0" by (simp add: assms(1))
  then have "take_bit k (unat x) = 0" by (metis take_bit_eq_mask unsigned_0 unsigned_take_bit_eq)
  then have "2 ^ k dvd unat x" by (simp add: take_bit_eq_0_iff)
  then obtain q where q: "unat x = 2 ^ k * q" by blast
  have lt: "unat x < 4096" using word_and_mask_less [of vaddr 12] by (simp add: x_def)
  have page: "(4096 :: nat) = 2 ^ k * 2 ^ (12 - k)" using assms(2) by (simp flip: power_add)
  with q lt have "q < 2 ^ (12 - k)" by simp
  then have "2 ^ k * (q + 1) \<le> (2 :: nat) ^ k * 2 ^ (12 - k)" by (intro mult_le_mono2) simp
  then have "unat x + 2 ^ k \<le> 4096" using q page by simp
  moreover have "unat (of_nat (2 ^ k) :: u64) = 2 ^ k"
    using assms(2) by (simp only: unsigned_of_nat) (simp add: take_bit_nat_eq_self)
  ultimately have "unat (x + of_nat (2 ^ k)) \<le> unat (0x1000 :: u64)"
    by (simp only: unat_word_ariths) simp
  then show ?thesis by (simp add: riscv_block_in_page_def word_le_nat_alt x_def mask_numeral)
qed

lemma mmu_attr_eqs:
  "mmu_attr 0 8 RISCV_MMU_READ = 0x80002" "mmu_attr 0 4 RISCV_MMU_READ = 0x40002"
  "mmu_attr 0 2 RISCV_MMU_READ = 0x20002" "mmu_attr 0 1 RISCV_MMU_READ = 0x10002"
  "mmu_attr 0 8 RISCV_MMU_WRITE = 0x80004" "mmu_attr 0 4 RISCV_MMU_WRITE = 0x40004"
  "mmu_attr 0 2 RISCV_MMU_WRITE = 0x20004" "mmu_attr 0 1 RISCV_MMU_WRITE = 0x10004"
  by (simp_all add: mmu_attr_def)

lemma mmu_op_write_ram:
  assumes "sz \<in> {1, 2, 4, 8}" "riscv_block_in_page vaddr sz"
    and "riscv_mmu_translate vm vaddr RISCV_MMU_WRITE = (Some paddr, vm1)"
    and "riscv_phys_access vm1 paddr = Some ptr"
  shows "riscv_mmu_op m vm vaddr data sz RISCV_MMU_WRITE =
    (True, data, (riscv_tlb_put vm1 vaddr ptr RISCV_MMU_WRITE)\<lparr>host := mem_write (host vm1) ptr (take sz data)\<rparr>)"
proof -
  define attr where "attr = mmu_attr 0 sz RISCV_MMU_WRITE"
  from assms(1) have attr: "ucast attr = RISCV_MMU_WRITE" "unat (shr attr 16) = sz" "attr AND 0x200 = 0"
      "attr AND 0x400 = 0" "attr AND 0x800 = 0"
    unfolding attr_def by (elim insertE emptyE; simp only: mmu_attr_eqs; simp)+
  show ?thesis
    unfolding riscv_mmu_op_def riscv_mmu_op_helper_def riscv_mmu_op_internal_def mmu_op_page_def
      attr_def [symmetric] attr Let_def
    using assms(2-4) by simp
qed

text \<open>
  A writer and a reader of \<^verbatim>\<open>mem_ops.h\<close> that belong together: the reader gets \<open>f v\<close> back where the
  writer put \<open>v\<close>, and the writer stores the bytes it would put into a buffer.
\<close>

definition writer_reader :: "(host_mem \<Rightarrow> u64 \<Rightarrow> u64 \<Rightarrow> host_mem) \<Rightarrow> (host_mem \<Rightarrow> u64 \<Rightarrow> u64) \<Rightarrow> nat \<Rightarrow> (u64 \<Rightarrow> u64) \<Rightarrow> bool" where
  "writer_reader wr conv sz f \<longleftrightarrow>
     (\<forall>h p v. conv (wr h p v) p = f v \<and> mem_write h p (mem_read (wr (\<lambda>_. 0) 0 v) 0 sz) = wr h p v)"

lemma writer_readers:
  "writer_reader write_uint64_le read_uint64_le 8 (\<lambda>v. v)"
  "writer_reader (\<lambda>h a v. write_uint32_le h a (ucast v)) (\<lambda>h a. ucast (read_uint32_le h a)) 4 (\<lambda>v. ucast (ucast v :: u32))"
  "writer_reader (\<lambda>h a v. write_uint32_le h a (ucast v)) (\<lambda>h a. scast (read_uint32_le h a)) 4 (\<lambda>v. scast (ucast v :: u32))"
  "writer_reader (\<lambda>h a v. write_uint16_le h a (ucast v)) (\<lambda>h a. ucast (read_uint16_le h a)) 2 (\<lambda>v. ucast (ucast v :: u16))"
  "writer_reader (\<lambda>h a v. write_uint16_le h a (ucast v)) (\<lambda>h a. scast (read_uint16_le h a)) 2 (\<lambda>v. scast (ucast v :: u16))"
  "writer_reader (\<lambda>h a v. write_uint8 h a (ucast v)) (\<lambda>h a. ucast (read_uint8 h a)) 1 (\<lambda>v. ucast (ucast v :: u8))"
  "writer_reader (\<lambda>h a v. write_uint8 h a (ucast v)) (\<lambda>h a. scast (read_uint8 h a)) 1 (\<lambda>v. scast (ucast v :: u8))"
proof -
  have l: "[0..<8] = [0, 1, 2, 3, 4, 5, 6, 7 :: nat]" "[0..<4] = [0, 1, 2, 3 :: nat]" "[0..<2] = [0, 1 :: nat]"
    by (simp_all add: upt_rec)
  have "mem_write h p (mem_read (write_uint64_le (\<lambda>_. 0) 0 v) 0 8) = write_uint64_le h p v" for h p v
    by (simp add: mem_read_def l write_uint64_le_def add.assoc)
  moreover have "mem_write h p (mem_read (write_uint32_le (\<lambda>_. 0) 0 v) 0 4) = write_uint32_le h p v" for h p v
    by (simp add: mem_read_def l write_uint32_le_def add.assoc)
  moreover have "mem_write h p (mem_read (write_uint16_le (\<lambda>_. 0) 0 v) 0 2) = write_uint16_le h p v" for h p v
    by (simp add: mem_read_def l write_uint16_le_def)
  moreover have "mem_write h p (mem_read (write_uint8 (\<lambda>_. 0) 0 v) 0 1) = write_uint8 h p v" for h p v
    by (simp add: mem_read_def write_uint8_def)
  ultimately show
    "writer_reader write_uint64_le read_uint64_le 8 (\<lambda>v. v)"
    "writer_reader (\<lambda>h a v. write_uint32_le h a (ucast v)) (\<lambda>h a. ucast (read_uint32_le h a)) 4 (\<lambda>v. ucast (ucast v :: u32))"
    "writer_reader (\<lambda>h a v. write_uint32_le h a (ucast v)) (\<lambda>h a. scast (read_uint32_le h a)) 4 (\<lambda>v. scast (ucast v :: u32))"
    "writer_reader (\<lambda>h a v. write_uint16_le h a (ucast v)) (\<lambda>h a. ucast (read_uint16_le h a)) 2 (\<lambda>v. ucast (ucast v :: u16))"
    "writer_reader (\<lambda>h a v. write_uint16_le h a (ucast v)) (\<lambda>h a. scast (read_uint16_le h a)) 2 (\<lambda>v. scast (ucast v :: u16))"
    "writer_reader (\<lambda>h a v. write_uint8 h a (ucast v)) (\<lambda>h a. ucast (read_uint8 h a)) 1 (\<lambda>v. ucast (ucast v :: u8))"
    "writer_reader (\<lambda>h a v. write_uint8 h a (ucast v)) (\<lambda>h a. scast (read_uint8 h a)) 1 (\<lambda>v. scast (ucast v :: u8))"
    by (simp_all only: writer_reader_def read_write_uint64 read_write_uint32 read_write_uint16 read_write_uint8
        simp_thms)
qed

lemma store_load_with:
  assumes wr: "writer_reader wr conv (2 ^ k) f" and "k \<le> 3"
    and al: "vaddr AND mask k = 0" and inv: "tlb_w_reads vm"
    and tr: "riscv_mmu_translate vm vaddr RISCV_MMU_WRITE = (Some paddr, vm1)"
    and ram: "riscv_phys_access vm1 paddr = Some ptr"
  shows "registers (load_with conv (2 ^ k) m (store_with wr (2 ^ k) m vm vaddr r1) vaddr r2) r2 = f (registers vm r1)"
proof -
  have sz: "2 ^ k \<in> {1, 2, 4, 8 :: nat}" using assms(2) by (auto simp: le_Suc_eq numeral_3_eq_3)
  have al': "vaddr AND (of_nat (2 ^ k) - 1) = 0" using al by (simp add: mask_eq_exp_minus_1)
  have blk: "riscv_block_in_page vaddr (2 ^ k)" using al assms(2) by (intro aligned_in_page) simp_all
  obtain p where look: "tlb_lookup (store_with wr (2 ^ k) m vm vaddr r1) vaddr RISCV_MMU_READ = Some p"
    and val: "conv (host (store_with wr (2 ^ k) m vm vaddr r1)) p = f (registers vm r1)"
  proof (cases "tlb_lookup vm vaddr RISCV_MMU_WRITE")
    case None
    then have "store_with wr (2 ^ k) m vm vaddr r1 = (riscv_tlb_put vm1 vaddr ptr RISCV_MMU_WRITE)
        \<lparr>host := mem_write (host vm1) ptr (mem_read (wr (\<lambda>_. 0) 0 (registers vm r1)) 0 (2 ^ k))\<rparr>"
      using mmu_op_write_ram [OF sz blk tr ram] al'
      by (simp add: store_with_def mem_read_def)
    with that [of ptr] wr show ?thesis by (simp add: writer_reader_def put_write_reads)
  next
    case (Some p)
    then have "store_with wr (2 ^ k) m vm vaddr r1 = vm\<lparr>host := wr (host vm) p (registers vm r1)\<rparr>"
      using al' by (simp add: store_with_def)
    with that [of p] wr inv Some show ?thesis by (simp add: writer_reader_def tlb_w_reads_def)
  qed
  then show ?thesis using al' by (simp add: load_with_def)
qed

section \<open>Realigned device reads\<close>

text \<open>A device whose reads return the bytes of a register file without side effects.\<close>

definition reads_bytes :: "'d mmio_dev \<Rightarrow> (u64 \<Rightarrow> u8) \<Rightarrow> bool" where
  "reads_bytes dev reg \<longleftrightarrow>
     (\<exists>rd. md_read dev = Some rd
       \<and> (\<forall>vm tmp off n. rd vm tmp off n = (True, map (\<lambda>i. reg (off + of_nat i)) [0..<n] @ drop n tmp, vm)))"

lemma unaligned_loop_read:
  assumes rd: "reads_bytes dev reg" and "access \<noteq> RISCV_MMU_WRITE"
  shows "\<lbrakk>diff < align; dest + n \<le> length data; n \<le> fuel\<rbrakk> \<Longrightarrow>
    mmio_unaligned_loop fuel dev align access tmp data oa diff dest n vm =
      (True, take dest data @ map (\<lambda>i. reg (oa + of_nat (diff + i))) [0..<n] @ drop (dest + n) data, vm)"
proof (induction fuel arbitrary: tmp data oa diff dest n)
  case 0
  then show ?case by simp
next
  case (Suc fuel)
  from rd obtain f where f: "md_read dev = Some f"
    "\<And>vm tmp off n. f vm tmp off n = (True, map (\<lambda>i. reg (off + of_nat i)) [0..<n] @ drop n tmp, vm)"
    unfolding reads_bytes_def by blast
  show ?case
  proof (cases "n = 0")
    case False
    define k where "k = (if align - diff > n then n else align - diff)"
    have k: "0 < k" "k \<le> n" "diff + k \<le> align" using Suc.prems(1) False by (auto simp: k_def)
    let ?tmp = "map (\<lambda>i. reg (oa + of_nat i)) [0..<align] @ drop align tmp"
    let ?data = "take dest data @ take k (drop diff ?tmp) @ drop (dest + k) data"
    have tk: "take k (drop diff ?tmp) = map (\<lambda>i. reg (oa + of_nat (diff + i))) [0..<k]"
      using k(3) by (intro nth_equalityI) auto
    have step: "mmio_unaligned_loop (Suc fuel) dev align access tmp data oa diff dest n vm =
        mmio_unaligned_loop fuel dev align access ?tmp ?data (oa + of_nat align) 0 (dest + k) (n - k) vm"
      using False assms(2) f by (simp add: Let_def k_def)
    also have "\<dots> = (True, take (dest + k) ?data @ map (\<lambda>i. reg (oa + of_nat align + of_nat (0 + i))) [0..<n - k]
        @ drop (dest + k + (n - k)) ?data, vm)"
      using Suc.prems k by (intro Suc.IH) auto
    also have "take (dest + k) ?data = take dest data @ map (\<lambda>i. reg (oa + of_nat (diff + i))) [0..<k]"
      using Suc.prems(2) k unfolding tk by simp
    also have "drop (dest + k + (n - k)) ?data = drop (dest + n) data"
      using Suc.prems(2) k unfolding tk by (simp add: add.commute)
    also have "(take dest data @ map (\<lambda>i. reg (oa + of_nat (diff + i))) [0..<k])
        @ map (\<lambda>i. reg (oa + of_nat align + of_nat (0 + i))) [0..<n - k] @ drop (dest + n) data =
        take dest data @ map (\<lambda>i. reg (oa + of_nat (diff + i))) [0..<n] @ drop (dest + n) data"
    proof -
      have "n - k = 0 \<or> diff + k = align" using Suc.prems(1) by (auto simp: k_def)
      then have "map (\<lambda>i. reg (oa + of_nat align + of_nat (0 + i))) [0..<n - k] =
          map (\<lambda>i. reg (oa + of_nat (diff + (k + i)))) [0..<n - k]"
        by (auto simp: add.assoc simp flip: of_nat_add)
      moreover have "[0..<n] = [0..<k] @ map (\<lambda>i. k + i) [0..<n - k]"
        using k(2) upt_add_eq_append [of 0 k "n - k"] map_add_upt [of k "n - k"] by (simp add: add.commute)
      ultimately show ?thesis by (simp add: o_def)
    qed
    finally show ?thesis .
  qed simp
qed

lemma offset_low_bits:
  fixes off :: u64
  shows "off - (off AND NOT (mask k)) = off AND mask k"
proof -
  have "(off AND NOT (mask k)) + (off AND mask k) = (off AND NOT (mask k)) OR (off AND mask k)"
    by (rule disjunctive_add) (auto simp: bit_simps)
  also have "\<dots> = off" by (intro bit_word_eqI) (auto simp: bit_simps)
  finally show ?thesis by (metis add_diff_cancel_left')
qed

section \<open>Properties\<close>

text \<open>The privilege mode and the kinds of access that the MPRV and MXR bits substitute.\<close>

definition eff_priv :: "'d hart \<Rightarrow> u8 \<Rightarrow> nat" where
  "eff_priv vm access =
     (if bit (status vm) 17 \<and> access \<noteq> RISCV_MMU_EXEC then unat (bit_cut (status vm) 11 2) else priv_mode vm)"

definition eff_access :: "'d hart \<Rightarrow> u8 \<Rightarrow> u8" where
  "eff_access vm access =
     (if bit (status vm) 19 \<and> access = RISCV_MMU_READ then RISCV_MMU_READ OR RISCV_MMU_EXEC else access)"

lemma mmu_translate_eq:
  "riscv_mmu_translate vm vaddr access =
     (if eff_priv vm access < RISCV_PRIV_MACHINE then
        (if mmu_mode vm = CSR_SATP_MODE_BARE then (Some vaddr, vm)
         else if mmu_mode vm = CSR_SATP_MODE_SV32
         then riscv_mmu_translate_sv32 vm vaddr (eff_priv vm access) (eff_access vm access)
         else if 8 \<le> mmu_mode vm \<and> mmu_mode vm \<le> 10
         then riscv_mmu_translate_rv64 vm vaddr (eff_priv vm access) (eff_access vm access) (mmu_mode vm - 5)
         else (None, vm))
      else (Some vaddr, vm))"
proof -
  have b: "s AND CSR_STATUS_MPRV \<noteq> 0 \<longleftrightarrow> bit s 17" "s AND CSR_STATUS_MXR \<noteq> 0 \<longleftrightarrow> bit s 19" for s :: u64
    using shl_and_bit [of 17 s] shl_and_bit [of 19 s] by (simp_all add: and.commute)
  have "8 \<le> n \<and> n \<le> 10 \<longleftrightarrow> n = 8 \<or> n = 9 \<or> n = (10 :: nat)" for n by auto
  then show ?thesis
    unfolding riscv_mmu_translate_def Let_def b by (auto simp: eff_priv_def eff_access_def)
qed


text \<open>A hart in supervisor mode under Sv39 whose root table maps the first gigabyte to itself.\<close>

definition machine_bare :: "'d machine" where
  "machine_bare = \<lparr>mc_mmio_devs = [], mc_rv64 = True, mc_freq = 10000000, mc_gdbstub_halt = None, mc_arg_sv57 = False,
        mc_random = (\<lambda>h. 0), mc_mimpid = 0, mc_wait = (\<lambda>_ h. h), mc_wfi_rounds = 0\<rparr>"

definition hart_sv39 :: "unit hart" where
  "hart_sv39 = (hart_zero ())\<lparr>mem_size := 0x2000, host := (\<lambda>_. 0)(0 := 0x4F), mmu_mode := 8,
     priv_mode := RISCV_PRIV_SUPERVISOR\<rparr>"




text \<open>
  C5. Accessed and dirty flags.  A translation through Sv39, Sv48 or Sv57 that fails changes
  nothing.  One that succeeds changes at most one word of memory, a valid page table entry inside
  guest RAM, to which it adds the accessed flag and, for a write, the dirty flag.
\<close>

theorem mmu_translate_flags:
  assumes "8 \<le> mmu_mode vm" "mmu_mode vm \<le> 10" "riscv_mmu_translate vm vaddr access = (r, vm')"
  shows "vm' = vm \<or> (\<exists>paddr ptr pa pte. r = Some paddr \<and> riscv_phys_access vm pa = Some ptr
     \<and> pte = read_uint64_le (host vm) ptr \<and> bit pte 0
     \<and> vm' = vm\<lparr>host := write_uint64_le (host vm) ptr (pte OR 0x40 OR (if access AND RISCV_MMU_WRITE = 0 then 0 else 0x80))\<rparr>)"
proof (cases "eff_priv vm access < RISCV_PRIV_MACHINE")
  case False
  with assms(3) show ?thesis by (simp add: mmu_translate_eq)
next
  case True
  let ?a = "eff_access vm access"
  have same: "?a AND RISCV_MMU_WRITE = access AND RISCV_MMU_WRITE" by (simp add: eff_access_def)
  have "walk_effect ?a vm r vm'"
  proof (cases "vm' = vm \<and> r = None")
    case True
    then show ?thesis by (simp add: walk_effect_def)
  next
    case False
    with assms True have "\<exists>priv i table off. sv64_walk vaddr priv ?a i table off vm = (r, vm')"
      by (auto simp: mmu_translate_eq riscv_mmu_translate_rv64_def Let_def split: if_splits)
    then show ?thesis by (elim exE) (rule sv64_walk_effect)
  qed
  moreover have "ad_update ?a pte = pte OR 0x40 OR (if access AND RISCV_MMU_WRITE = 0 then 0 else 0x80)" for pte
  proof -
    have "(access AND 4) = 0 \<or> (access AND 4) = (4 :: u8)" using and_shl_one [of access 2] by simp
    then show ?thesis unfolding ad_update_def same by (auto simp: or.assoc)
  qed
  ultimately show ?thesis by (auto simp: walk_effect_def Let_def split: option.splits if_splits)
qed

theorem mmu_translate_flags_witness:
  "host (snd (riscv_mmu_translate hart_sv39 0x1234 RISCV_MMU_WRITE)) 0 = 0xCF
   \<and> snd (riscv_mmu_translate hart_sv39 0x1234 RISCV_MMU_WRITE) \<noteq> hart_sv39
   \<and> (\<exists>ptr pa. riscv_phys_access hart_sv39 pa = Some ptr \<and> bit (read_uint64_le (host hart_sv39) ptr) 0)"
proof -
  have h: "host (snd (riscv_mmu_translate hart_sv39 0x1234 RISCV_MMU_WRITE)) 0 = 0xCF" "host hart_sv39 0 = 0x4F"
    by code_simp+
  then have n: "snd (riscv_mmu_translate hart_sv39 0x1234 RISCV_MMU_WRITE) \<noteq> hart_sv39" by auto
  obtain r vm' where t: "riscv_mmu_translate hart_sv39 0x1234 RISCV_MMU_WRITE = (r, vm')" by fastforce
  have "8 \<le> mmu_mode hart_sv39" "mmu_mode hart_sv39 \<le> 10" by code_simp+
  from mmu_translate_flags [OF this t] n t h show ?thesis by fastforce
qed

text \<open>
  C6. What a store puts into RAM, a load of the same size at the same place returns, sign- or
  zero-extended as the load says, for every access size at an 8-byte aligned address that
  translates for writing into RAM, whether or not the TLB holds the page already.
\<close>

theorem store_load:
  assumes "vaddr AND mask 3 = 0" "tlb_w_reads vm"
    and "riscv_mmu_translate vm vaddr RISCV_MMU_WRITE = (Some paddr, vm1)"
    and "riscv_phys_access vm1 paddr = Some ptr"
  shows "registers (riscv_load_u64 m (riscv_store_u64 m vm vaddr r1) vaddr r2) r2 = registers vm r1
    \<and> registers (riscv_load_u32 m (riscv_store_u32 m vm vaddr r1) vaddr r2) r2 = ucast (ucast (registers vm r1) :: u32)
    \<and> registers (riscv_load_s32 m (riscv_store_u32 m vm vaddr r1) vaddr r2) r2 = scast (ucast (registers vm r1) :: u32)
    \<and> registers (riscv_load_u16 m (riscv_store_u16 m vm vaddr r1) vaddr r2) r2 = ucast (ucast (registers vm r1) :: u16)
    \<and> registers (riscv_load_s16 m (riscv_store_u16 m vm vaddr r1) vaddr r2) r2 = scast (ucast (registers vm r1) :: u16)
    \<and> registers (riscv_load_u8 m (riscv_store_u8 m vm vaddr r1) vaddr r2) r2 = ucast (ucast (registers vm r1) :: u8)
    \<and> registers (riscv_load_s8 m (riscv_store_u8 m vm vaddr r1) vaddr r2) r2 = scast (ucast (registers vm r1) :: u8)"
proof -
  have al: "vaddr AND mask k = 0" if "k \<le> 3" for k
  proof -
    have "vaddr AND mask k = (vaddr AND mask 3) AND mask k"
      using that by (intro bit_word_eqI) (auto simp: bit_simps)
    then show ?thesis by (simp add: assms(1))
  qed
  note sl = store_load_with [OF _ _ al assms(2-4), of _ _ _ _ m r1 r2]
  show ?thesis
    unfolding riscv_load_u64_def riscv_store_u64_def riscv_load_u32_def riscv_load_s32_def riscv_store_u32_def
      riscv_load_u16_def riscv_load_s16_def riscv_store_u16_def riscv_load_u8_def riscv_load_s8_def riscv_store_u8_def
    using sl [of _ _ 3, simplified] sl [of _ _ 2, simplified] sl [of _ _ 1, simplified] sl [of _ _ 0, simplified]
      writer_readers by simp
qed

theorem store_load_witness:
  "let vm = riscv_tlb_flush ((hart_zero ())\<lparr>registers := (\<lambda>_. 0x80000001), mem_size := 0x2000, priv_mode := RISCV_PRIV_MACHINE\<rparr>)
   in registers (riscv_load_s32 machine_bare (riscv_store_u32 machine_bare vm 0x1008 5) 0x1008 6) 6 = 0xFFFFFFFF80000001"
proof -
  define vm where "vm = riscv_tlb_flush ((hart_zero ())\<lparr>registers := (\<lambda>_. 0x80000001), mem_size := 0x2000, priv_mode := RISCV_PRIV_MACHINE\<rparr>)"
  have f: "priv_mode vm = RISCV_PRIV_MACHINE" "csr vm = csr_zero" "mem_size vm = 0x2000" "mem_addr vm = 0" "mem_data vm = 0"
    "registers vm 5 = 0x80000001"
    by (simp_all add: vm_def riscv_tlb_flush_def hart_zero_def)
  have t: "riscv_mmu_translate vm 0x1008 RISCV_MMU_WRITE = (Some 0x1008, vm)"
    by (simp add: mmu_translate_eq eff_priv_def f csr_zero_def)
  have p: "riscv_phys_access vm 0x1008 = Some 0x1008" by (simp add: riscv_phys_access_def f)
  have w: "tlb_w_reads vm" unfolding vm_def by (rule tlb_w_reads_flush)
  have a: "(0x1008 :: u64) AND mask 3 = 0" by code_simp
  have "scast (ucast (0x80000001 :: u64) :: u32) = (0xFFFFFFFF80000001 :: u64)" by code_simp
  with store_load [OF a w t p, of machine_bare 5 6, unfolded f] show ?thesis unfolding Let_def vm_def by metis
qed

text \<open>
  C39. A debugger's read opens the page to the guest.  The slow path enters a translation made
  without protection checks into the TLB: after the GDB stub has read a byte of a page in RAM
  that the hart may not read, the hart's own load from that page no longer faults and returns
  the byte.
\<close>

theorem debug_read_opens_page:
  assumes "fst (riscv_mmu_translate vm vaddr RISCV_MMU_READ) = None"
    and "riscv_mmu_translate vm vaddr RISCV_MMU_DEBUG_ACCESS = (Some paddr, vm1)"
    and "riscv_phys_access vm1 paddr = Some ptr"
    and "(r, d, vm2) = riscv_mmu_op_helper m vm vaddr (Some [0]) (RISCV_MMU_ATTR_NO_TRAP OR RISCV_MMU_ATTR_NO_PROT)
           1 RISCV_MMU_READ"
  shows "riscv_load_u8 m vm2 vaddr reg = set_reg vm2 reg (ucast (host vm1 ptr))"
proof -
  have "vaddr AND mask 0 = 0" by simp
  from aligned_in_page [OF this] have "riscv_block_in_page vaddr 1" by simp
  with assms(2-4) have "vm2 = riscv_tlb_put vm1 vaddr ptr 66306"
    by (simp add: riscv_mmu_op_helper_def riscv_mmu_op_internal_def mmu_op_page_def mmu_attr_def Let_def)
  also have "(66306 :: u8) = RISCV_MMU_READ" by simp
  finally have vm2: "vm2 = riscv_tlb_put vm1 vaddr ptr RISCV_MMU_READ" .
  have "tlb_lookup vm2 vaddr RISCV_MMU_READ = Some ptr"
    unfolding vm2 using hart_tlb.put_hit [of RISCV_MMU_READ vaddr vaddr vm1 ptr] by (simp add: mmu_kinds_def)
  then show ?thesis by (simp add: riscv_load_u8_def load_with_def read_uint8_def vm2)
qed

theorem debug_read_opens_page_witness:
  "let w = hart_sv39\<lparr>priv_mode := RISCV_PRIV_USER, host := (\<lambda>_. 0)(0 := 0xCF, 0x1234 := 0x5A)\<rparr>;
       w2 = snd (snd (riscv_mmu_op_helper machine_bare
        w 0x1234 (Some [0]) (RISCV_MMU_ATTR_NO_TRAP OR RISCV_MMU_ATTR_NO_PROT) 1 RISCV_MMU_READ))
   in fst (riscv_mmu_translate w 0x1234 RISCV_MMU_READ) = None
    \<and> registers (riscv_load_u8 machine_bare
        w2 0x1234 5) 5 = 0x5A"
proof -
  let ?m = "machine_bare"
  let ?w = "hart_sv39\<lparr>priv_mode := RISCV_PRIV_USER, host := (\<lambda>_. 0)(0 := 0xCF, 0x1234 := 0x5A)\<rparr>"
  let ?o = "riscv_mmu_op_helper ?m ?w 0x1234 (Some [0]) (RISCV_MMU_ATTR_NO_TRAP OR RISCV_MMU_ATTR_NO_PROT) 1 RISCV_MMU_READ"
  let ?t = "riscv_mmu_translate ?w 0x1234 RISCV_MMU_DEBUG_ACCESS"
  have n: "fst (riscv_mmu_translate ?w 0x1234 RISCV_MMU_READ) = None" by code_simp
  have "fst ?t = Some 0x1234" by code_simp
  then have t: "?t = (Some 0x1234, snd ?t)" by (metis prod.collapse)
  have p: "riscv_phys_access (snd ?t) 0x1234 = Some 0x1234" by code_simp
  have h: "host (snd ?t) 0x1234 = 0x5A" by code_simp
  have o: "(fst ?o, fst (snd ?o), snd (snd ?o)) = ?o" by simp
  have "registers (riscv_load_u8 ?m (snd (snd ?o)) 0x1234 5) 5 = ucast (0x5A :: u8)"
    unfolding debug_read_opens_page [OF n t p o] h by (simp add: set_reg_def)
  with n show ?thesis unfolding Let_def by simp
qed

text \<open>
  C32. Realigned device reads.  A read of any size at any offset from a device that is a plain
  register file, with the access size the device requires being a power of two of at most 16
  bytes, terminates and returns exactly the addressed bytes, with the state unchanged.
\<close>

theorem mmio_unaligned_read:
  assumes "reads_bytes dev reg" and "access \<noteq> RISCV_MMU_WRITE" and "n \<le> length data"
    and "(if n < md_min_op_size dev then md_min_op_size dev
          else if n > md_max_op_size dev then md_max_op_size dev else n) = 2 ^ k" and "k \<le> 4"
  shows "riscv_mmio_unaligned_op dev data offset n access vm =
    (True, map (\<lambda>i. reg (offset + of_nat i)) [0..<n] @ drop n data, vm)"
proof -
  have le: "(2 :: nat) ^ k \<le> 16" using power_increasing [OF assms(5), of "2 :: nat"] by simp
  have m: "of_nat (2 ^ k) - 1 = (mask k :: u64)" by (simp add: mask_eq_exp_minus_1)
  have diff: "unat (offset - (offset AND NOT (mask k))) < 2 ^ k"
    unfolding offset_low_bits by (rule word_and_mask_less)
  have oa: "(offset AND NOT (mask k)) + of_nat (unat (offset - (offset AND NOT (mask k))) + i) = offset + of_nat i" for i
    by simp
  show ?thesis
    unfolding riscv_mmio_unaligned_op_def assms(4) Let_def m
    using le unaligned_loop_read [OF assms(1,2) diff, of 0 n data n] assms(3)
    by (simp add: oa)
qed

theorem mmio_unaligned_read_witness:
  "riscv_mmio_unaligned_op \<lparr>md_addr = 0, md_size = 0x100,
      md_read = Some (\<lambda>vm tmp off n. (True, map (\<lambda>i. ucast (off + of_nat i)) [0..<n] @ drop n tmp, vm)),
      md_write = None, md_mapping = None, md_min_op_size = 4, md_max_op_size = 4\<rparr>
      [0, 0, 0] 7 3 RISCV_MMU_READ (hart_zero ()) = (True, [7, 8, 9], hart_zero ())"
proof -
  let ?dev = "\<lparr>md_addr = 0, md_size = 0x100,
      md_read = Some (\<lambda>vm tmp off n. (True, map (\<lambda>i. ucast (off + of_nat i)) [0..<n] @ drop n tmp, vm)),
      md_write = None, md_mapping = None, md_min_op_size = 4, md_max_op_size = 4\<rparr> :: unit mmio_dev"
  have "reads_bytes ?dev ucast" by (simp add: reads_bytes_def)
  from mmio_unaligned_read [OF this, of RISCV_MMU_READ 3 "[0, 0, 0]" 2 7 "hart_zero ()"]
  show ?thesis by (simp add: upt_rec)
qed

end
