(* ===== verification/Csr.thy ===== *)
theory Csr
  imports Mmu
begin

text \<open>
  Control and status registers: \<^verbatim>\<open>src/cpu/riscv_csr.c\<close> and the checks of \<^verbatim>\<open>src/cpu/riscv_csr.h\<close>,
  in the build without the FPU and the vector unit.

  A CSR operation of the source works through the pointer \<^verbatim>\<open>dest\<close>, which holds the operand and
  receives the old value, and returns whether the access was legal.  Here an operation takes the
  operand and returns the triple of the verdict, the old value and the hart.  Helpers that work
  through a pointer to the register take its value and return the new one with the old one.

  The theory shows that a refused access changes nothing, that no access takes a register out of
  its legal values, that no access made below machine mode changes what belongs to machine mode,
  and what a write of \<^verbatim>\<open>satp\<close> does, including the change of paging mode it forgets.
\<close>

section \<open>Constants\<close>

abbreviation (input) CSR_SWAP :: u8 where "CSR_SWAP \<equiv> 1"
abbreviation (input) CSR_SETBITS :: u8 where "CSR_SETBITS \<equiv> 2"
abbreviation (input) CSR_CLEARBITS :: u8 where "CSR_CLEARBITS \<equiv> 3"

abbreviation (input) CSR_SSTATUS_MASK :: u64 where "CSR_SSTATUS_MASK \<equiv> 0x3000DE722"
abbreviation (input) CSR_MSTATUS_MASK :: u64 where "CSR_MSTATUS_MASK \<equiv> 0xF007FFFAA"
abbreviation (input) CSR_MEDELEG_MASK :: u64 where "CSR_MEDELEG_MASK \<equiv> 0xB109"
abbreviation (input) CSR_MIDELEG_MASK :: u64 where "CSR_MIDELEG_MASK \<equiv> 0x222"
abbreviation (input) CSR_MEIP_MASK :: u64 where "CSR_MEIP_MASK \<equiv> 0xAAA"
abbreviation (input) CSR_SEIP_MASK :: u64 where "CSR_SEIP_MASK \<equiv> 0x222"
abbreviation (input) CSR_COUNTEREN_MASK :: u64 where "CSR_COUNTEREN_MASK \<equiv> 7"
abbreviation (input) CSR_MENVCFG_MASK :: u64 where "CSR_MENVCFG_MASK \<equiv> 0x80000000000000D0"
abbreviation (input) CSR_SENVCFG_MASK :: u64 where "CSR_SENVCFG_MASK \<equiv> 0xD0"
abbreviation (input) CSR_MSECCFG_MASK :: u64 where "CSR_MSECCFG_MASK \<equiv> 0x300"

abbreviation (input) CSR_ENVCFG_CBIE :: u64 where "CSR_ENVCFG_CBIE \<equiv> 0x10"
abbreviation (input) CSR_ENVCFG_CBCFE :: u64 where "CSR_ENVCFG_CBCFE \<equiv> 0x40"
abbreviation (input) CSR_ENVCFG_CBZE :: u64 where "CSR_ENVCFG_CBZE \<equiv> 0x80"
abbreviation (input) CSR_ENVCFG_STCE :: u64 where "CSR_ENVCFG_STCE \<equiv> 0x8000000000000000"
abbreviation (input) CSR_MSECCFG_USEED :: u64 where "CSR_MSECCFG_USEED \<equiv> 0x100"
abbreviation (input) CSR_SEED_OPST_ES16 :: u64 where "CSR_SEED_OPST_ES16 \<equiv> 0x80000000"

abbreviation (input) FS_DIRTY :: u64 where "FS_DIRTY \<equiv> 3"

section \<open>Access checks\<close>

definition riscv_csr_privilege :: "u32 \<Rightarrow> nat" where
  "riscv_csr_privilege csr_id = unat (bit_cut (ucast csr_id) 8 2)"

definition riscv_csr_readonly :: "u32 \<Rightarrow> bool" where
  "riscv_csr_readonly csr_id \<longleftrightarrow> bit_cut (ucast csr_id) 10 2 = 3"

definition riscv_csr_envcfg_enabled :: "'d hart \<Rightarrow> u64 \<Rightarrow> bool" where
  "riscv_csr_envcfg_enabled vm msk =
     (let msk = (if priv_mode vm < RISCV_PRIV_MACHINE then msk AND csr_envcfg (csr vm) RISCV_PRIV_MACHINE else msk);
          msk = (if priv_mode vm < RISCV_PRIV_SUPERVISOR then msk AND csr_envcfg (csr vm) RISCV_PRIV_SUPERVISOR else msk)
      in msk \<noteq> 0)"

definition riscv_csr_counter_enabled :: "'d hart \<Rightarrow> u32 \<Rightarrow> bool" where
  "riscv_csr_counter_enabled vm counter =
     (let msk = bit_set32 counter;
          msk = (if priv_mode vm < RISCV_PRIV_MACHINE then msk AND ucast (csr_counteren (csr vm) RISCV_PRIV_MACHINE) else msk);
          msk = (if priv_mode vm < RISCV_PRIV_SUPERVISOR then msk AND ucast (csr_counteren (csr vm) RISCV_PRIV_SUPERVISOR) else msk)
      in msk \<noteq> 0)"

definition riscv_csr_seed_enabled :: "'d hart \<Rightarrow> bool" where
  "riscv_csr_seed_enabled vm =
     (if priv_mode vm = RISCV_PRIV_USER then csr_mseccfg (csr vm) AND CSR_MSECCFG_USEED \<noteq> 0 else True)"

definition riscv_csr_cbi_enabled :: "'d hart \<Rightarrow> bool" where
  "riscv_csr_cbi_enabled vm = riscv_csr_envcfg_enabled vm CSR_ENVCFG_CBIE"

definition riscv_csr_cbcf_enabled :: "'d hart \<Rightarrow> bool" where
  "riscv_csr_cbcf_enabled vm = riscv_csr_envcfg_enabled vm CSR_ENVCFG_CBCFE"

definition riscv_csr_cbz_enabled :: "'d hart \<Rightarrow> bool" where
  "riscv_csr_cbz_enabled vm = riscv_csr_envcfg_enabled vm CSR_ENVCFG_CBZE"

definition riscv_csr_sstc_enabled :: "'d hart \<Rightarrow> bool" where
  "riscv_csr_sstc_enabled vm = riscv_csr_envcfg_enabled vm CSR_ENVCFG_STCE"

section \<open>Generic register updates\<close>

definition riscv_is_csr_write :: "u64 \<Rightarrow> u8 \<Rightarrow> bool" where
  "riscv_is_csr_write dest op \<longleftrightarrow> dest \<noteq> 0 \<or> op = CSR_SWAP"

definition riscv_csr_helper_masked :: "'d hart \<Rightarrow> u64 \<Rightarrow> u64 \<Rightarrow> u64 \<Rightarrow> u8 \<Rightarrow> u64 \<times> u64" where
  "riscv_csr_helper_masked vm reg dest msk op =
     (let msk = (if rv64 vm then msk else msk AND 0xFFFFFFFF);
          reg' = (if op = CSR_SWAP then (reg AND NOT msk) OR (dest AND msk)
                  else if op = CSR_SETBITS then reg OR (dest AND msk)
                  else if op = CSR_CLEARBITS then reg AND NOT (dest AND msk)
                  else reg)
      in (reg', reg AND msk))"

definition riscv_csr_helper :: "'d hart \<Rightarrow> u64 \<Rightarrow> u64 \<Rightarrow> u8 \<Rightarrow> u64 \<times> u64" where
  "riscv_csr_helper vm reg dest op =
     (if rv64 vm then
        ((if op = CSR_SWAP then dest
          else if op = CSR_SETBITS then reg OR dest
          else if op = CSR_CLEARBITS then reg AND NOT dest
          else reg), reg)
      else riscv_csr_helper_masked vm reg dest (-1) op)"

definition riscv_csr_tvec :: "'d hart \<Rightarrow> u64 \<Rightarrow> u64 \<Rightarrow> u8 \<Rightarrow> u64 \<times> u64" where
  "riscv_csr_tvec vm reg dest op =
     (let (reg, dest) = riscv_csr_helper vm reg dest op
      in (bit_replace reg 0 2 (bit_cut reg 0 2 AND 1), dest))"

definition riscv_csr_epc :: "'d hart \<Rightarrow> u64 \<Rightarrow> u64 \<Rightarrow> u8 \<Rightarrow> u64 \<times> u64" where
  "riscv_csr_epc vm reg dest op =
     (let (reg, dest) = riscv_csr_helper vm reg dest op in (reg AND NOT 1, dest))"

definition riscv_csr_helper_l :: "'d hart \<Rightarrow> u64 \<Rightarrow> u64 \<Rightarrow> u64 \<Rightarrow> u8 \<Rightarrow> u64 \<times> u64" where
  "riscv_csr_helper_l vm reg dest msk op =
     (let (tmp, dest) = riscv_csr_helper_masked vm reg dest msk op
      in (if rv64 vm then tmp else bit_replace reg 0 32 tmp, dest))"

text \<open>\<^verbatim>\<open>riscv_csr_helper_h\<close> refuses on a 64-bit hart: \<open>None\<close>.\<close>

definition riscv_csr_helper_h :: "'d hart \<Rightarrow> u64 \<Rightarrow> u64 \<Rightarrow> u64 \<Rightarrow> u8 \<Rightarrow> (u64 \<times> u64) option" where
  "riscv_csr_helper_h vm reg dest msk op =
     (if rv64 vm then None
      else (let (tmp, dest) = riscv_csr_helper_masked vm (shr reg 32) dest (shr msk 32) op
            in Some (bit_replace reg 32 32 tmp, dest)))"

type_synonym 'd csr_ret = "bool \<times> u64 \<times> 'd hart"

text \<open>An operation on one register of the file, given by its reader and its writer.\<close>

definition csr_via :: "(csr_file \<Rightarrow> u64) \<Rightarrow> (u64 \<Rightarrow> csr_file \<Rightarrow> csr_file) \<Rightarrow> (u64 \<Rightarrow> u64 \<times> u64) \<Rightarrow> 'd hart \<Rightarrow> 'd csr_ret" where
  "csr_via get put f vm = (let (reg, dest) = f (get (csr vm)) in (True, dest, upd_csr (put reg) vm))"

definition csr_via_h :: "(csr_file \<Rightarrow> u64) \<Rightarrow> (u64 \<Rightarrow> csr_file \<Rightarrow> csr_file) \<Rightarrow> u64 \<Rightarrow> (u64 \<Rightarrow> (u64 \<times> u64) option) \<Rightarrow> 'd hart \<Rightarrow> 'd csr_ret" where
  "csr_via_h get put dest f vm =
     (case f (get (csr vm)) of
        None \<Rightarrow> (False, dest, vm)
      | Some (reg, dest) \<Rightarrow> (True, dest, upd_csr (put reg) vm))"

definition riscv_csr_const :: "'d hart \<Rightarrow> u64 \<Rightarrow> 'd csr_ret" where
  "riscv_csr_const vm val = (True, val, vm)"

definition riscv_csr_zero :: "'d hart \<Rightarrow> 'd csr_ret" where
  "riscv_csr_zero vm = riscv_csr_const vm 0"

definition riscv_csr_zero_h :: "'d hart \<Rightarrow> u64 \<Rightarrow> 'd csr_ret" where
  "riscv_csr_zero_h vm dest = (if \<not> rv64 vm then riscv_csr_const vm 0 else (False, dest, vm))"

section \<open>Counters, entropy, misa\<close>

definition riscv_csr_counter :: "'d hart \<Rightarrow> u64 \<Rightarrow> u32 \<Rightarrow> 'd csr_ret" where
  "riscv_csr_counter vm dest counter =
     (if riscv_csr_counter_enabled vm counter then riscv_csr_const vm (timer vm) else (False, dest, vm))"

definition riscv_csr_counter_h :: "'d hart \<Rightarrow> u64 \<Rightarrow> u32 \<Rightarrow> 'd csr_ret" where
  "riscv_csr_counter_h vm dest counter =
     (if \<not> rv64 vm \<and> riscv_csr_counter_enabled vm counter then riscv_csr_const vm (shr (timer vm) 32)
      else (False, dest, vm))"

definition riscv_csr_seed :: "'d machine \<Rightarrow> 'd hart \<Rightarrow> u64 \<Rightarrow> u8 \<Rightarrow> 'd csr_ret" where
  "riscv_csr_seed m vm dest op =
     (if op \<noteq> CSR_SWAP then (False, dest, vm)
      else if riscv_csr_seed_enabled vm then
        (let seed = mc_random m vm in riscv_csr_const vm (CSR_SEED_OPST_ES16 OR ucast seed))
      else (False, dest, vm))"

text \<open>
  \<^verbatim>\<open>rvvm_strfind\<close>: the first suffix that starts with the pattern.  The empty string has none.
\<close>

fun str_prefix :: "string \<Rightarrow> string \<Rightarrow> bool" where
  "str_prefix tmp [] = True"
| "str_prefix [] (p # pat) = False"
| "str_prefix (c # tmp) (p # pat) = (c = p \<and> str_prefix tmp pat)"

fun rvvm_strfind :: "string \<Rightarrow> string \<Rightarrow> string option" where
  "rvvm_strfind [] pat = None"
| "rvvm_strfind (c # str) pat = (if str_prefix (c # str) pat then Some (c # str) else rvvm_strfind str pat)"

fun mkmisa_letters :: "string \<Rightarrow> u64 \<Rightarrow> u64" where
  "mkmisa_letters [] ret = ret"
| "mkmisa_letters (c # str) ret =
     (if c = CHR ''_'' then ret
      else if (97 :: nat) \<le> of_char c \<and> of_char c \<le> (122 :: nat)
      then mkmisa_letters str (ret OR shl 1 (of_char c - 97))
      else mkmisa_letters str ret)"

definition riscv_mkmisa :: "string \<Rightarrow> u64" where
  "riscv_mkmisa str =
     (if rvvm_strfind str ''rv64'' \<noteq> None then mkmisa_letters (drop 4 str) CSR_MISA_RV64
      else if rvvm_strfind str ''rv32'' \<noteq> None then mkmisa_letters (drop 4 str) CSR_MISA_RV32
      else mkmisa_letters str 0)"

definition riscv_csr_misa :: "'d machine \<Rightarrow> 'd hart \<Rightarrow> u64 \<Rightarrow> u8 \<Rightarrow> 'd csr_ret" where
  "riscv_csr_misa m vm dest op =
     (let isa = csr_isa (csr vm);
          misa = isa OR riscv_mkmisa ''imacbsu'';
          (misa, dest) = riscv_csr_helper vm misa dest op;
          vm = (if isa AND CSR_MISA_RV64 \<noteq> 0 \<and> misa AND CSR_MISA_RV32 \<noteq> 0 then
                  riscv_update_xlen (upd_csr (\<lambda>c. c\<lparr>csr_isa := CSR_MISA_RV32\<rparr>) vm)
                else if isa AND CSR_MISA_RV32 \<noteq> 0 \<and> misa AND shr CSR_MISA_RV64 32 \<noteq> 0 \<and> mc_rv64 m then
                  riscv_update_xlen (upd_csr (\<lambda>c. c\<lparr>csr_isa := CSR_MISA_RV64\<rparr>) vm)
                else vm)
      in (True, dest, vm))"

section \<open>Status and interrupts\<close>

definition riscv_csr_sd_bit :: "'d hart \<Rightarrow> u64" where
  "riscv_csr_sd_bit vm = (if rv64 vm then 0x8000000000000000 else 0x80000000)"

definition riscv_csr_status_xl_valid :: "u64 \<Rightarrow> bool" where
  "riscv_csr_status_xl_valid xl \<longleftrightarrow> xl = 1 \<or> xl = 2"

text \<open>The validation of the WARL fields of a changed status word.\<close>

definition status_legalize :: "'d machine \<Rightarrow> u64 \<Rightarrow> u64" where
  "status_legalize m st =
     (let st = (if mc_rv64 m \<and> \<not> riscv_csr_status_xl_valid (bit_cut st 32 2) then bit_replace st 32 2 2 else st);
          st = (if mc_rv64 m \<and> \<not> riscv_csr_status_xl_valid (bit_cut st 34 2) then bit_replace st 34 2 2 else st);
          st = (if bit_cut st 11 2 = 2 then bit_replace st 11 2 0 else st);
          st = bit_replace st 13 2 0
      in bit_replace st 9 2 0)"

definition riscv_csr_status :: "'d machine \<Rightarrow> 'd hart \<Rightarrow> u64 \<Rightarrow> u64 \<Rightarrow> u8 \<Rightarrow> 'd csr_ret" where
  "riscv_csr_status m vm dest msk op =
     (let old_status = status vm;
          xs = max (bit_cut old_status 13 2) (bit_cut old_status 9 2);
          st = bit_replace old_status 15 2 xs;
          (st, dest) = riscv_csr_helper_masked vm st dest msk op;
          dest = (if xs = FS_DIRTY then dest OR riscv_csr_sd_bit vm else dest)
      in if st \<noteq> old_status then
           (let st = status_legalize m st;
                vm = (if (st AND 0xA) AND NOT (old_status AND 0xA) \<noteq> 0 then riscv_hart_check_interrupts vm else vm)
            in (True, dest, set_status vm st))
         else (True, dest, vm))"

definition riscv_csr_ie :: "'d hart \<Rightarrow> u64 \<Rightarrow> u64 \<Rightarrow> u8 \<Rightarrow> 'd csr_ret" where
  "riscv_csr_ie vm dest msk op =
     (let (ie, dest) = riscv_csr_helper_masked vm (csr_ie (csr vm)) dest msk op
      in (True, dest, riscv_hart_check_interrupts (upd_csr (\<lambda>c. c\<lparr>csr_ie := ie\<rparr>) vm)))"

definition riscv_csr_ip :: "'d hart \<Rightarrow> u64 \<Rightarrow> u64 \<Rightarrow> u8 \<Rightarrow> 'd csr_ret" where
  "riscv_csr_ip vm dest msk op =
     (let (ip, dest) = riscv_csr_helper_masked vm (csr_ip (csr vm)) dest msk op;
          vm = upd_csr (\<lambda>c. c\<lparr>csr_ip := ip\<rparr>) vm
      in (True, dest OR (ucast (riscv_interrupts_raised vm) AND msk), riscv_hart_check_interrupts vm))"

definition riscv_csr_topi :: "'d hart \<Rightarrow> u64 \<Rightarrow> u64 \<Rightarrow> 'd csr_ret" where
  "riscv_csr_topi vm dest msk =
     (if aia vm \<noteq> None then
        (let pending = riscv_interrupts_pending vm AND ucast msk;
             irq = (if pending \<noteq> 0 then bit_clz32 pending XOR 31 else 0)
         in (True, ucast (of_cbool (irq \<noteq> 0) OR shl irq 16), vm))
      else (False, dest, vm))"

definition riscv_csr_topei :: "'d hart \<Rightarrow> nat \<Rightarrow> u64 \<Rightarrow> u8 \<Rightarrow> 'd csr_ret" where
  "riscv_csr_topei vm priv dest op =
     (if aia vm \<noteq> None then
        (let (irq, vm) = riscv_get_aia_irq vm (priv = RISCV_PRIV_SUPERVISOR) (riscv_is_csr_write dest op)
         in (True, ucast (irq OR shl irq 16), vm))
      else (False, dest, vm))"

definition riscv_csr_stimecmp_set :: "'d hart \<Rightarrow> u64 \<Rightarrow> 'd hart" where
  "riscv_csr_stimecmp_set vm cmp =
     (let vm = vm\<lparr>stimecmp := cmp\<rparr>
      in if rvtimecmp_pending (timer vm) (stimecmp vm) then riscv_interrupt vm RISCV_INTERRUPT_STIMER
         else riscv_interrupt_clear vm RISCV_INTERRUPT_STIMER)"

definition riscv_csr_stimecmp :: "'d hart \<Rightarrow> u64 \<Rightarrow> u8 \<Rightarrow> 'd csr_ret" where
  "riscv_csr_stimecmp vm dest op =
     (if riscv_csr_sstc_enabled vm then
        (let (cmp, dest) = riscv_csr_helper_l vm (stimecmp vm) dest (-1) op
         in (True, dest, riscv_csr_stimecmp_set vm cmp))
      else (False, dest, vm))"

definition riscv_csr_stimecmph :: "'d hart \<Rightarrow> u64 \<Rightarrow> u8 \<Rightarrow> 'd csr_ret" where
  "riscv_csr_stimecmph vm dest op =
     (if \<not> rv64 vm \<and> riscv_csr_sstc_enabled vm then
        (case riscv_csr_helper_h vm (stimecmp vm) dest (-1) op of
           None \<Rightarrow> (True, dest, riscv_csr_stimecmp_set vm (stimecmp vm))
         | Some (cmp, dest) \<Rightarrow> (True, dest, riscv_csr_stimecmp_set vm cmp))
      else (False, dest, vm))"

section \<open>Address translation\<close>

definition riscv_csr_satp :: "'d machine \<Rightarrow> 'd hart \<Rightarrow> u64 \<Rightarrow> u8 \<Rightarrow> 'd csr_ret" where
  "riscv_csr_satp m vm dest op =
     (if status vm AND CSR_STATUS_TVM \<noteq> 0 \<and> priv_mode vm < RISCV_PRIV_MACHINE then (False, dest, vm)
      else
        (let satp = shl (of_nat (mmu_mode vm)) (if rv64 vm then 60 else 31) OR shr (root_page_table vm) 12;
             (satp, dest) = riscv_csr_helper vm satp dest op;
             new_mmu_mode = unat (if rv64 vm then bit_cut satp 60 4 else bit_cut satp 31 1)
         in if rv64 vm \<and> new_mmu_mode \<noteq> CSR_SATP_MODE_BARE
               \<and> (new_mmu_mode < CSR_SATP_MODE_SV39 \<or> new_mmu_mode > CSR_SATP_MODE_SV57)
            then (True, dest, vm)
            else if rv64 vm \<and> new_mmu_mode = CSR_SATP_MODE_SV57 \<and> \<not> mc_arg_sv57 m then (True, dest, vm)
            else
              (let vm = vm\<lparr>root_page_table := shl (satp AND bit_mask (if rv64 vm then 44 else 22)) 12\<rparr>
               in if (mmu_mode vm \<noteq> 0) \<noteq> (new_mmu_mode \<noteq> 0)
                  then (True, dest, (riscv_tlb_flush vm)\<lparr>mmu_mode := new_mmu_mode\<rparr>)
                  else (True, dest, vm))))"

section \<open>Indirect access to the AIA register files\<close>

text \<open>Whether the register was written, its new value and the value read.\<close>

definition riscv_csr_atomic_helper :: "u32 \<Rightarrow> u64 \<Rightarrow> u8 \<Rightarrow> bool \<times> u32 \<times> u64" where
  "riscv_csr_atomic_helper val dest op =
     (if op = CSR_SWAP then (True, ucast dest, ucast val)
      else if op = CSR_SETBITS then (if dest \<noteq> 0 then (True, val OR ucast dest, ucast val) else (False, val, ucast val))
      else if op = CSR_CLEARBITS then (if dest \<noteq> 0 then (True, val AND NOT (ucast dest), ucast val) else (False, val, ucast val))
      else (False, val, dest))"

definition riscv_csr_aia_helper :: "'d hart \<Rightarrow> bool \<Rightarrow> (aia_regfile \<Rightarrow> u32) \<Rightarrow> (u32 \<Rightarrow> aia_regfile \<Rightarrow> aia_regfile) \<Rightarrow> u64 \<Rightarrow> u8 \<Rightarrow> 'd csr_ret" where
  "riscv_csr_aia_helper vm smode get put dest op =
     (let (written, val, dest) = riscv_csr_atomic_helper (get (the (aia vm) smode)) dest op;
          vm = aia_upd smode (put val) vm
      in (True, dest, if written then riscv_update_aia_state vm smode else vm))"

definition riscv_csr_aia_pair_helper :: "'d hart \<Rightarrow> bool \<Rightarrow> u32 \<Rightarrow> (nat \<Rightarrow> aia_regfile \<Rightarrow> u32) \<Rightarrow> (nat \<Rightarrow> u32 \<Rightarrow> aia_regfile \<Rightarrow> aia_regfile) \<Rightarrow> u64 \<Rightarrow> u8 \<Rightarrow> 'd csr_ret" where
  "riscv_csr_aia_pair_helper vm smode reg get put dest op =
     (if rv64 vm \<and> reg AND 1 \<noteq> 0 then (False, dest, vm)
      else if unat reg < RVVM_AIA_ARR_LEN then
        (let top = shr dest 32;
             (_, dest, vm) = riscv_csr_aia_helper vm smode (get (unat reg)) (put (unat reg)) dest op
         in if rv64 vm \<and> unat reg + 1 < RVVM_AIA_ARR_LEN then
              (let (_, top, vm) = riscv_csr_aia_helper vm smode (get (unat reg + 1)) (put (unat reg + 1)) top op
               in (True, dest OR shl top 32, vm))
            else (True, dest, vm))
      else (False, dest, vm))"

definition riscv_csr_indirect :: "'d hart \<Rightarrow> nat \<Rightarrow> u32 \<Rightarrow> u64 \<Rightarrow> u8 \<Rightarrow> 'd csr_ret" where
  "riscv_csr_indirect vm priv csri dest op =
     (let smode = (priv = RISCV_PRIV_SUPERVISOR) in
      if aia vm = None then (False, dest, vm)
      else if csri = 0x70 then
        riscv_csr_aia_helper vm smode eidelivery (\<lambda>v a. a\<lparr>eidelivery := v\<rparr>) (dest AND 1) op
      else if csri = 0x72 then
        riscv_csr_aia_helper vm smode eithreshold (\<lambda>v a. a\<lparr>eithreshold := v\<rparr>) dest op
      else if csri \<ge> 0x30 \<and> csri \<le> 0x3F then riscv_csr_zero vm
      else if csri \<ge> 0x80 \<and> csri \<le> 0xBF then
        riscv_csr_aia_pair_helper vm smode (csri - 0x80) (\<lambda>i a. eip a i) (\<lambda>i v a. a\<lparr>eip := (eip a)(i := v)\<rparr>) dest op
      else if csri \<ge> 0xC0 \<and> csri \<le> 0xFF then
        riscv_csr_aia_pair_helper vm smode (csri - 0xC0) (\<lambda>i a. eie a i) (\<lambda>i v a. a\<lparr>eie := (eie a)(i := v)\<rparr>) dest op
      else (False, dest, vm))"

section \<open>Dispatch\<close>

text \<open>The supervisor half and the machine half of the \<^verbatim>\<open>switch\<close> of \<^verbatim>\<open>riscv_csr_op_internal\<close>.\<close>

definition csr_op_supervisor :: "'d machine \<Rightarrow> 'd hart \<Rightarrow> u32 \<Rightarrow> u64 \<Rightarrow> u8 \<Rightarrow> 'd csr_ret option" where
  "csr_op_supervisor m vm csr_id dest op =
     (let p = RISCV_PRIV_SUPERVISOR in
      if csr_id = 0x015 then Some (riscv_csr_seed m vm dest op)
      else if csr_id = 0xC00 \<or> csr_id = 0xC01 \<or> csr_id = 0xC02 then Some (riscv_csr_counter vm dest (csr_id - 0xC00))
      else if csr_id = 0xC80 \<or> csr_id = 0xC81 \<or> csr_id = 0xC82 then Some (riscv_csr_counter_h vm dest (csr_id - 0xC80))
      else if csr_id = 0x100 then Some (riscv_csr_status m vm dest CSR_SSTATUS_MASK op)
      else if csr_id = 0x104 then Some (riscv_csr_ie vm dest CSR_SEIP_MASK op)
      else if csr_id = 0x114 then Some (riscv_csr_zero_h vm dest)
      else if csr_id = 0x105 then Some (csr_via (\<lambda>c. csr_tvec c p) (\<lambda>v c. c\<lparr>csr_tvec := (csr_tvec c)(p := v)\<rparr>)
        (\<lambda>v. riscv_csr_tvec vm v dest op) vm)
      else if csr_id = 0x106 then Some (csr_via (\<lambda>c. csr_counteren c p) (\<lambda>v c. c\<lparr>csr_counteren := (csr_counteren c)(p := v)\<rparr>)
        (\<lambda>v. riscv_csr_helper_masked vm v dest CSR_COUNTEREN_MASK op) vm)
      else if csr_id = 0x10A then Some (csr_via (\<lambda>c. csr_envcfg c p) (\<lambda>v c. c\<lparr>csr_envcfg := (csr_envcfg c)(p := v)\<rparr>)
        (\<lambda>v. riscv_csr_helper_l vm v dest CSR_SENVCFG_MASK op) vm)
      else if csr_id = 0x120 then Some (riscv_csr_zero vm)
      else if csr_id = 0x150 then Some (csr_via (\<lambda>c. csr_iselect c p) (\<lambda>v c. c\<lparr>csr_iselect := (csr_iselect c)(p := v)\<rparr>)
        (\<lambda>v. riscv_csr_helper vm v dest op) vm)
      else if csr_id = 0x151 then Some (riscv_csr_indirect vm p (ucast (csr_iselect (csr vm) p)) dest op)
      else if csr_id = 0x140 then Some (csr_via (\<lambda>c. csr_scratch c p) (\<lambda>v c. c\<lparr>csr_scratch := (csr_scratch c)(p := v)\<rparr>)
        (\<lambda>v. riscv_csr_helper vm v dest op) vm)
      else if csr_id = 0x141 then Some (csr_via (\<lambda>c. csr_epc c p) (\<lambda>v c. c\<lparr>csr_epc := (csr_epc c)(p := v)\<rparr>)
        (\<lambda>v. riscv_csr_epc vm v dest op) vm)
      else if csr_id = 0x142 then Some (csr_via (\<lambda>c. csr_cause c p) (\<lambda>v c. c\<lparr>csr_cause := (csr_cause c)(p := v)\<rparr>)
        (\<lambda>v. riscv_csr_helper vm v dest op) vm)
      else if csr_id = 0x143 then Some (csr_via (\<lambda>c. csr_tval c p) (\<lambda>v c. c\<lparr>csr_tval := (csr_tval c)(p := v)\<rparr>)
        (\<lambda>v. riscv_csr_helper vm v dest op) vm)
      else if csr_id = 0x144 then Some (riscv_csr_ip vm dest CSR_SEIP_MASK op)
      else if csr_id = 0x154 then Some (riscv_csr_zero_h vm dest)
      else if csr_id = 0x15C then Some (riscv_csr_topei vm p dest op)
      else if csr_id = 0xDB0 then Some (riscv_csr_topi vm dest CSR_SEIP_MASK)
      else if csr_id = 0x14D then Some (riscv_csr_stimecmp vm dest op)
      else if csr_id = 0x15D then Some (riscv_csr_stimecmph vm dest op)
      else if csr_id = 0x180 then Some (riscv_csr_satp m vm dest op)
      else None)"

definition csr_op_machine :: "'d machine \<Rightarrow> 'd hart \<Rightarrow> u32 \<Rightarrow> u64 \<Rightarrow> u8 \<Rightarrow> 'd csr_ret" where
  "csr_op_machine m vm csr_id dest op =
     (let p = RISCV_PRIV_MACHINE in
      if csr_id = 0xF11 then riscv_csr_zero vm
      else if csr_id = 0xF12 then riscv_csr_const vm 0x5256564D
      else if csr_id = 0xF13 then riscv_csr_const vm (ucast (mc_mimpid m))
      else if csr_id = 0xF14 then riscv_csr_const vm (ucast (csr_hartid (csr vm)))
      else if csr_id = 0x300 then riscv_csr_status m vm dest CSR_MSTATUS_MASK op
      else if csr_id = 0x310 then riscv_csr_zero vm
      else if csr_id = 0x301 then riscv_csr_misa m vm dest op
      else if csr_id = 0x302 then csr_via (\<lambda>c. csr_edeleg c p) (\<lambda>v c. c\<lparr>csr_edeleg := (csr_edeleg c)(p := v)\<rparr>)
        (\<lambda>v. riscv_csr_helper_masked vm v dest CSR_MEDELEG_MASK op) vm
      else if csr_id = 0x303 then csr_via (\<lambda>c. csr_ideleg c p) (\<lambda>v c. c\<lparr>csr_ideleg := (csr_ideleg c)(p := v)\<rparr>)
        (\<lambda>v. riscv_csr_helper_masked vm v dest CSR_MIDELEG_MASK op) vm
      else if csr_id = 0x313 then riscv_csr_zero_h vm dest
      else if csr_id = 0x304 then riscv_csr_ie vm dest CSR_MEIP_MASK op
      else if csr_id = 0x314 then riscv_csr_zero_h vm dest
      else if csr_id = 0x305 then csr_via (\<lambda>c. csr_tvec c p) (\<lambda>v c. c\<lparr>csr_tvec := (csr_tvec c)(p := v)\<rparr>)
        (\<lambda>v. riscv_csr_tvec vm v dest op) vm
      else if csr_id = 0x306 then csr_via (\<lambda>c. csr_counteren c p) (\<lambda>v c. c\<lparr>csr_counteren := (csr_counteren c)(p := v)\<rparr>)
        (\<lambda>v. riscv_csr_helper_masked vm v dest CSR_COUNTEREN_MASK op) vm
      else if csr_id = 0x340 then csr_via (\<lambda>c. csr_scratch c p) (\<lambda>v c. c\<lparr>csr_scratch := (csr_scratch c)(p := v)\<rparr>)
        (\<lambda>v. riscv_csr_helper vm v dest op) vm
      else if csr_id = 0x341 then csr_via (\<lambda>c. csr_epc c p) (\<lambda>v c. c\<lparr>csr_epc := (csr_epc c)(p := v)\<rparr>)
        (\<lambda>v. riscv_csr_epc vm v dest op) vm
      else if csr_id = 0x342 then csr_via (\<lambda>c. csr_cause c p) (\<lambda>v c. c\<lparr>csr_cause := (csr_cause c)(p := v)\<rparr>)
        (\<lambda>v. riscv_csr_helper vm v dest op) vm
      else if csr_id = 0x343 then csr_via (\<lambda>c. csr_tval c p) (\<lambda>v c. c\<lparr>csr_tval := (csr_tval c)(p := v)\<rparr>)
        (\<lambda>v. riscv_csr_helper vm v dest op) vm
      else if csr_id = 0x344 then riscv_csr_ip vm dest CSR_MEIP_MASK op
      else if csr_id = 0x354 then riscv_csr_zero_h vm dest
      else if csr_id = 0x35C then riscv_csr_topei vm p dest op
      else if csr_id = 0xFB0 then riscv_csr_topi vm dest CSR_MEIP_MASK
      else if csr_id = 0x30A then csr_via (\<lambda>c. csr_envcfg c p) (\<lambda>v c. c\<lparr>csr_envcfg := (csr_envcfg c)(p := v)\<rparr>)
        (\<lambda>v. riscv_csr_helper_l vm v dest CSR_MENVCFG_MASK op) vm
      else if csr_id = 0x31A then csr_via_h (\<lambda>c. csr_envcfg c p) (\<lambda>v c. c\<lparr>csr_envcfg := (csr_envcfg c)(p := v)\<rparr>) dest
        (\<lambda>v. riscv_csr_helper_h vm v dest CSR_MENVCFG_MASK op) vm
      else if csr_id = 0x747 then csr_via csr_mseccfg (\<lambda>v c. c\<lparr>csr_mseccfg := v\<rparr>)
        (\<lambda>v. riscv_csr_helper_l vm v dest CSR_MSECCFG_MASK op) vm
      else if csr_id = 0x757 then csr_via_h csr_mseccfg (\<lambda>v c. c\<lparr>csr_mseccfg := v\<rparr>) dest
        (\<lambda>v. riscv_csr_helper_h vm v dest CSR_MSECCFG_MASK op) vm
      else if csr_id \<ge> 0x3A0 \<and> csr_id \<le> 0x3A3 then riscv_csr_zero vm
      else if csr_id \<ge> 0x3B0 \<and> csr_id \<le> 0x3BF then riscv_csr_zero vm
      else if csr_id = 0xB00 \<or> csr_id \<ge> 0xB02 \<and> csr_id \<le> 0xB1F then riscv_csr_zero vm
      else if csr_id = 0xB80 \<or> csr_id \<ge> 0xB82 \<and> csr_id \<le> 0xB9F then riscv_csr_zero_h vm dest
      else if csr_id = 0x320 then riscv_csr_zero vm
      else if csr_id = 0x350 then csr_via (\<lambda>c. csr_iselect c p) (\<lambda>v c. c\<lparr>csr_iselect := (csr_iselect c)(p := v)\<rparr>)
        (\<lambda>v. riscv_csr_helper vm v dest op) vm
      else if csr_id = 0x351 then riscv_csr_indirect vm p (ucast (csr_iselect (csr vm) p)) dest op
      else (False, dest, vm))"

definition riscv_csr_op_internal :: "'d machine \<Rightarrow> 'd hart \<Rightarrow> u32 \<Rightarrow> u64 \<Rightarrow> u8 \<Rightarrow> 'd csr_ret" where
  "riscv_csr_op_internal m vm csr_id dest op =
     (case csr_op_supervisor m vm csr_id dest op of
        Some r \<Rightarrow> r
      | None \<Rightarrow> csr_op_machine m vm csr_id dest op)"

definition riscv_csr_op :: "'d machine \<Rightarrow> 'd hart \<Rightarrow> u32 \<Rightarrow> u64 \<Rightarrow> u8 \<Rightarrow> 'd csr_ret" where
  "riscv_csr_op m vm csr_id dest op =
     (if riscv_csr_readonly csr_id \<and> (op = CSR_SWAP \<or> dest \<noteq> 0) then (False, dest, vm)
      else if riscv_csr_privilege csr_id > priv_mode vm then (False, dest, vm)
      else
        (let (ret, dest, vm) = riscv_csr_op_internal m vm csr_id dest op
         in (ret, if rv64 vm then dest else scast (ucast dest :: u32), vm)))"

definition riscv_csr_init :: "'d hart \<Rightarrow> 'd hart" where
  "riscv_csr_init vm =
     (let vm = upd_csr (\<lambda>c. c\<lparr>csr_edeleg := (csr_edeleg c)(RISCV_PRIV_HYPERVISOR := 0xFFFFFFFF),
                             csr_ideleg := (csr_ideleg c)(RISCV_PRIV_HYPERVISOR := 0xFFFFFFFF)\<rparr>) vm
      in if rv64 vm then upd_csr (\<lambda>c. c\<lparr>csr_status := 0xA00000000, csr_isa := CSR_MISA_RV64\<rparr>) vm
         else upd_csr (\<lambda>c. c\<lparr>csr_isa := CSR_MISA_RV32\<rparr>) vm)"

section \<open>A refused access changes nothing\<close>

definition quiet :: "'d hart \<Rightarrow> 'd csr_ret \<Rightarrow> bool" where
  "quiet vm r \<longleftrightarrow> fst r \<or> snd (snd r) = vm"

named_theorems csr_quiet

lemma quiet_ok [csr_quiet]: "quiet vm (True, d, vm')" "quiet vm (b, d, vm)"
  by (simp_all add: quiet_def)

lemma quiet_via [csr_quiet]: "quiet vm (csr_via get put f vm)" "quiet vm (csr_via_h get put dest g vm)"
  "quiet vm (riscv_csr_const vm v)" "quiet vm (riscv_csr_zero vm)" "quiet vm (riscv_csr_zero_h vm dest)"
  "quiet vm (riscv_csr_counter vm dest n)" "quiet vm (riscv_csr_counter_h vm dest n)"
  "quiet vm (riscv_csr_seed m vm dest op)" "quiet vm (riscv_csr_misa m vm dest op)"
  "quiet vm (riscv_csr_status m vm dest msk op)" "quiet vm (riscv_csr_ie vm dest msk op)"
  "quiet vm (riscv_csr_ip vm dest msk op)" "quiet vm (riscv_csr_topi vm dest msk)"
  "quiet vm (riscv_csr_topei vm p dest op)" "quiet vm (riscv_csr_stimecmp vm dest op)"
  "quiet vm (riscv_csr_stimecmph vm dest op)" "quiet vm (riscv_csr_satp m vm dest op)"
  "quiet vm (riscv_csr_aia_helper vm s ga pa dest op)" "quiet vm (riscv_csr_aia_pair_helper vm s r gp pp dest op)"
  by (simp_all add: csr_via_def csr_via_h_def riscv_csr_const_def riscv_csr_zero_def riscv_csr_zero_h_def
      riscv_csr_counter_def riscv_csr_counter_h_def riscv_csr_seed_def riscv_csr_misa_def riscv_csr_status_def
      riscv_csr_ie_def riscv_csr_ip_def riscv_csr_topi_def riscv_csr_topei_def riscv_csr_stimecmp_def
      riscv_csr_stimecmph_def riscv_csr_satp_def riscv_csr_aia_helper_def riscv_csr_aia_pair_helper_def
      quiet_def Let_def split: prod.splits option.splits)

lemma quiet_indirect [csr_quiet]: "quiet vm (riscv_csr_indirect vm p csri dest op)"
  by (simp add: riscv_csr_indirect_def csr_quiet Let_def)

lemma quiet_internal: "quiet vm (riscv_csr_op_internal m vm csr_id dest op)"
  by (simp add: riscv_csr_op_internal_def csr_op_supervisor_def csr_op_machine_def csr_quiet Let_def)

lemma csr_refused: "riscv_csr_op m vm csr_id dest op = (False, d, vm') \<Longrightarrow> vm' = vm"
  using quiet_internal [of vm m csr_id dest op]
  by (auto simp: riscv_csr_op_def quiet_def split: if_splits prod.splits)

section \<open>What machine mode owns\<close>

lemma privilege_nat: "riscv_csr_privilege csr_id = unat csr_id div 256 mod 4"
proof -
  have "unat (bit_cut (ucast csr_id) 8 2) = take_bit 2 (drop_bit 8 (unat csr_id))"
    by (simp only: bit_cut_eq) (simp add: unsigned_take_bit_eq unsigned_ucast_eq unat_drop_bit_eq drop_bit_take_bit flip: take_bit_eq_mask)
  then show ?thesis by (simp add: riscv_csr_privilege_def take_bit_eq_mod drop_bit_eq_div)
qed

lemma csr_op_machine_private:
  assumes "riscv_csr_privilege csr_id < RISCV_PRIV_MACHINE"
  shows "csr_op_machine m vm csr_id dest op = (False, dest, vm)"
proof -
  have n: "unat csr_id div 256 mod 4 < 3" using assms by (simp add: privilege_nat)
  have neq: "csr_id \<noteq> k" if "unat k div 256 mod 4 = 3" for k using n that by auto
  have rng: "\<not> (k \<le> csr_id \<and> csr_id \<le> l)" if "unat k div 256 = unat l div 256" "unat k div 256 mod 4 = 3" for k l
  proof
    assume "k \<le> csr_id \<and> csr_id \<le> l"
    then have "unat k div 256 \<le> unat csr_id div 256" "unat csr_id div 256 \<le> unat l div 256"
      by (simp_all add: word_le_nat_alt div_le_mono)
    with that n show False by simp
  qed
  have r: "(0x3A0 \<le> csr_id \<and> csr_id \<le> 0x3A3) = False" "(0x3B0 \<le> csr_id \<and> csr_id \<le> 0x3BF) = False"
    "(0xB02 \<le> csr_id \<and> csr_id \<le> 0xB1F) = False" "(0xB82 \<le> csr_id \<and> csr_id \<le> 0xB9F) = False"
    using rng [of "0x3A0" "0x3A3"] rng [of "0x3B0" "0x3BF"]
      rng [of "0xB02" "0xB1F"] rng [of "0xB82" "0xB9F"] by simp_all
  show ?thesis using neq by (simp add: csr_op_machine_def Let_def r)
qed

text \<open>What a masked update leaves alone, and what it can produce.\<close>

lemma helper_masked_outside [simp]:
  "fst (riscv_csr_helper_masked vm reg dest msk op) AND NOT msk = reg AND NOT msk"
  by (rule bit_word_eqI) (auto simp: riscv_csr_helper_masked_def bit_simps Let_def)

lemma eq_outside_bit:
  "x AND NOT msk = y AND NOT msk \<Longrightarrow> n < LENGTH('a) \<Longrightarrow> \<not> bit msk n \<Longrightarrow> bit x n = bit (y :: 'a::len word) n"
  by (drule arg_cong [where f = "\<lambda>w. bit w n"]) (simp add: bit_simps)

lemma bit_cut_cong:
  assumes "pos + bits \<le> 64" "0 < bits" "\<And>n. pos \<le> n \<Longrightarrow> n < pos + bits \<Longrightarrow> bit x n = bit y n"
  shows "bit_cut x pos bits = bit_cut y pos bits"
  using assms(1,2) by (intro bit_word_eqI) (auto simp: bitfield_simps assms(3))

lemma cut2_cong:
  assumes "pos \<le> 62" "bit x pos = bit y pos" "bit x (Suc pos) = bit y (Suc pos)"
  shows "bit_cut x pos 2 = bit_cut y pos 2"
  using assms by (intro bit_cut_cong) (auto simp: numeral_2_eq_2 less_Suc_eq le_eq_less_or_eq)

lemma status_outside:
  assumes "x AND NOT CSR_SSTATUS_MASK = y AND NOT CSR_SSTATUS_MASK"
  shows "bit_cut x 34 2 = bit_cut y 34 2" "bit_cut x 11 2 = bit_cut y 11 2"
proof -
  have b: "\<not> bit CSR_SSTATUS_MASK 34" "\<not> bit CSR_SSTATUS_MASK 35" "\<not> bit CSR_SSTATUS_MASK 11" "\<not> bit CSR_SSTATUS_MASK 12"
    by code_simp+
  show "bit_cut x 34 2 = bit_cut y 34 2" "bit_cut x 11 2 = bit_cut y 11 2"
    using eq_outside_bit [OF assms _ b(1)] eq_outside_bit [OF assms _ b(2)]
      eq_outside_bit [OF assms _ b(3)] eq_outside_bit [OF assms _ b(4)]
    by (auto intro!: cut2_cong)
qed

lemma replace_outside:
  assumes "pos \<le> 62" "bit msk pos" "bit msk (Suc pos)"
  shows "bit_replace v pos 2 f AND NOT msk = v AND NOT msk"
proof (rule bit_word_eqI)
  fix n
  have "pos \<le> n \<and> n < pos + 2 \<Longrightarrow> bit msk n" using assms(2,3) by (auto simp: numeral_2_eq_2 less_Suc_eq le_eq_less_or_eq)
  then show "bit (bit_replace v pos 2 f AND NOT msk) n = bit (v AND NOT msk) n" if "n < LENGTH(64)"
    using that assms(1) by (auto simp: bitfield_simps bit_simps)
qed

lemma legalize_outside:
  assumes "mc_rv64 m \<Longrightarrow> riscv_csr_status_xl_valid (bit_cut st 34 2)" "bit_cut st 11 2 \<noteq> 2"
  shows "status_legalize m st AND NOT CSR_SSTATUS_MASK = st AND NOT CSR_SSTATUS_MASK"
proof -
  have b: "bit CSR_SSTATUS_MASK 32" "bit CSR_SSTATUS_MASK 33" "bit CSR_SSTATUS_MASK 13" "bit CSR_SSTATUS_MASK 14"
    "bit CSR_SSTATUS_MASK 9" "bit CSR_SSTATUS_MASK 10"
    by code_simp+
  have r: "bit_replace v 32 2 f AND NOT CSR_SSTATUS_MASK = v AND NOT CSR_SSTATUS_MASK"
    "bit_replace v 13 2 f AND NOT CSR_SSTATUS_MASK = v AND NOT CSR_SSTATUS_MASK"
    "bit_replace v 9 2 f AND NOT CSR_SSTATUS_MASK = v AND NOT CSR_SSTATUS_MASK" for v f
    by (rule replace_outside; use b in simp)+
  have o: "bit_cut (bit_replace st 32 2 f) 34 2 = bit_cut st 34 2" "bit_cut (bit_replace st 32 2 f) 11 2 = bit_cut st 11 2" for f
    by (simp_all add: bit_cut_replace_other)
  show ?thesis
    using assms unfolding status_legalize_def Let_def by (auto simp only: r o split: if_split)
qed

text \<open>
  The part of a hart that machine mode owns and supervisor software must not be able to change:
  the machine's fields of \<^verbatim>\<open>mstatus\<close>, \<^verbatim>\<open>mie\<close> and \<^verbatim>\<open>mip\<close>, delegation, the machine's own
  trap registers and configuration, its interrupt lines, its AIA register file and its timer,
  together with the privilege mode itself, the integer registers and memory.
\<close>

definition keeps_machine :: "'d hart \<Rightarrow> 'd hart \<Rightarrow> bool" where
  "keeps_machine vm vm' \<longleftrightarrow>
     (let c = csr vm; c' = csr vm'; p = RISCV_PRIV_MACHINE in
      csr_status c' AND NOT CSR_SSTATUS_MASK = csr_status c AND NOT CSR_SSTATUS_MASK
      \<and> csr_ie c' AND NOT CSR_SEIP_MASK = csr_ie c AND NOT CSR_SEIP_MASK
      \<and> csr_ip c' AND NOT CSR_SEIP_MASK = csr_ip c AND NOT CSR_SEIP_MASK
      \<and> csr_isa c' = csr_isa c \<and> csr_edeleg c' = csr_edeleg c \<and> csr_ideleg c' = csr_ideleg c
      \<and> csr_mseccfg c' = csr_mseccfg c \<and> csr_hartid c' = csr_hartid c
      \<and> csr_tvec c' p = csr_tvec c p \<and> csr_scratch c' p = csr_scratch c p \<and> csr_epc c' p = csr_epc c p
      \<and> csr_cause c' p = csr_cause c p \<and> csr_tval c' p = csr_tval c p \<and> csr_iselect c' p = csr_iselect c p
      \<and> csr_counteren c' p = csr_counteren c p \<and> csr_envcfg c' p = csr_envcfg c p
      \<and> pending_irqs vm' AND NOT (ucast CSR_SEIP_MASK) = pending_irqs vm AND NOT (ucast CSR_SEIP_MASK)
      \<and> map_option (\<lambda>a. a False) (aia vm') = map_option (\<lambda>a. a False) (aia vm)
      \<and> mtimecmp vm' = mtimecmp vm \<and> priv_mode vm' = priv_mode vm \<and> rv64 vm' = rv64 vm
      \<and> registers vm' = registers vm \<and> host vm' = host vm \<and> devs vm' = devs vm
      \<and> mem_addr vm' = mem_addr vm \<and> mem_size vm' = mem_size vm \<and> mem_data vm' = mem_data vm)"

lemma keeps_machine_refl [simp]: "keeps_machine vm vm"
  by (simp add: keeps_machine_def Let_def)

lemma keeps_machine_trans: "keeps_machine a b \<Longrightarrow> keeps_machine b c \<Longrightarrow> keeps_machine a c"
  by (simp add: keeps_machine_def Let_def)

lemma keeps_dispatch [simp]: "keeps_machine vm (riscv_restart_dispatch vm)" "keeps_machine vm (riscv_tlb_flush vm)"
  "keeps_machine vm (riscv_hart_check_interrupts vm)" "keeps_machine vm (rvvm_event_wake vm)"
  by (simp_all add: keeps_machine_def Let_def riscv_hart_check_interrupts_def riscv_restart_dispatch_def
      riscv_tlb_flush_def rvvm_event_wake_def)

lemma keeps_irq: 
  assumes "irq = RISCV_INTERRUPT_STIMER \<or> irq = RISCV_INTERRUPT_SEXTERNAL"
  shows "keeps_machine vm (riscv_interrupt vm irq)" "keeps_machine vm (riscv_interrupt_clear vm irq)"
proof -
  have b: "(v OR shl 1 5) AND NOT (ucast CSR_SEIP_MASK) = v AND NOT (ucast CSR_SEIP_MASK)"
      "(v OR shl 1 9) AND NOT (ucast CSR_SEIP_MASK) = v AND NOT (ucast CSR_SEIP_MASK)"
      "(v AND NOT (shl 1 5)) AND NOT (ucast CSR_SEIP_MASK) = v AND NOT (ucast CSR_SEIP_MASK)"
      "(v AND NOT (shl 1 9)) AND NOT (ucast CSR_SEIP_MASK) = v AND NOT (ucast CSR_SEIP_MASK)" for v :: u32
    by (rule word_eqI_32, simp add: bit_simps)+
  show "keeps_machine vm (riscv_interrupt vm irq)" "keeps_machine vm (riscv_interrupt_clear vm irq)"
    using assms b
    by (auto simp: keeps_machine_def Let_def riscv_interrupt_def riscv_interrupt_set_def riscv_interrupt_clear_def
      riscv_hart_notify_def rvvm_event_wake_def riscv_restart_dispatch_def)
qed

lemma keeps_aia_upd [simp]: "keeps_machine vm (aia_upd True f vm)"
  by (simp add: keeps_machine_def aia_upd_def option.map_comp comp_def Let_def)


lemma aia_scan_inv:
  assumes "\<And>h. P h \<Longrightarrow> P (riscv_interrupt h (aia_msip smode))" "\<And>h f. P h \<Longrightarrow> P (aia_upd smode f h)"
  shows "P vm \<Longrightarrow> P (snd (aia_scan smode update claim regs is ret vm))"
proof (induction "is" arbitrary: ret vm)
  case (Cons i "is")
  then show ?case by (cases update; cases claim; simp add: assms Let_def)
qed simp

lemma update_aia_inv:
  assumes "\<And>h. P h \<Longrightarrow> P (riscv_interrupt h (aia_msip smode))" "\<And>h f. P h \<Longrightarrow> P (aia_upd smode f h)"
    and "\<And>h. P h \<Longrightarrow> P (riscv_interrupt_clear h (aia_msip smode))"
  shows "P vm \<Longrightarrow> P (snd (riscv_update_aia_internal vm smode update claim))"
  using assms aia_scan_inv [of P smode] by (simp add: riscv_update_aia_internal_def Let_def split: option.split)

lemma keeps_aia_state: "keeps_machine vm (snd (riscv_update_aia_internal vm True update claim))"
proof (rule update_aia_inv [where P = "keeps_machine vm"])
  have s: "aia_msip True = RISCV_INTERRUPT_STIMER \<or> aia_msip True = RISCV_INTERRUPT_SEXTERNAL" by (simp add: aia_msip_def)
  fix h f assume h: "keeps_machine vm h"
  show "keeps_machine vm (riscv_interrupt h (aia_msip True))" "keeps_machine vm (riscv_interrupt_clear h (aia_msip True))"
    "keeps_machine vm (aia_upd True f h)"
    using keeps_irq [OF s] keeps_aia_upd by (blast intro: keeps_machine_trans [OF h])+
qed simp

section \<open>Access below machine mode\<close>

abbreviation ret_keeps :: "'d hart \<Rightarrow> 'd csr_ret \<Rightarrow> bool" where
  "ret_keeps vm r \<equiv> keeps_machine vm (snd (snd r))"

named_theorems csr_keeps

lemma keeps_simple [csr_keeps]:
  "ret_keeps vm (riscv_csr_zero vm)" "ret_keeps vm (riscv_csr_zero_h vm dest)"
  "ret_keeps vm (riscv_csr_counter vm dest n)" "ret_keeps vm (riscv_csr_counter_h vm dest n)"
  "ret_keeps vm (riscv_csr_seed m vm dest op)" "ret_keeps vm (riscv_csr_topi vm dest msk)"
  by (simp_all add: riscv_csr_const_def riscv_csr_zero_def riscv_csr_zero_h_def riscv_csr_counter_def
      riscv_csr_counter_h_def riscv_csr_seed_def riscv_csr_topi_def Let_def)

lemma keeps_via [csr_keeps]:
  "(\<And>v. keeps_machine vm (upd_csr (put v) vm)) \<Longrightarrow> ret_keeps vm (csr_via get put f vm)"
  by (simp add: csr_via_def split: prod.split)

lemma keeps_status [csr_keeps]:
  assumes "mc_rv64 m \<Longrightarrow> riscv_csr_status_xl_valid (bit_cut (status vm) 34 2)" "bit_cut (status vm) 11 2 \<noteq> 2"
  shows "ret_keeps vm (riscv_csr_status m vm dest CSR_SSTATUS_MASK op)"
proof -
  define st0 where "st0 = bit_replace (status vm) 15 2 (max (bit_cut (status vm) 13 2) (bit_cut (status vm) 9 2))"
  define st where "st = fst (riscv_csr_helper_masked vm st0 dest CSR_SSTATUS_MASK op)"
  have "bit CSR_SSTATUS_MASK 15" "bit CSR_SSTATUS_MASK 16" by code_simp+
  then have "st0 AND NOT CSR_SSTATUS_MASK = status vm AND NOT CSR_SSTATUS_MASK"
    unfolding st0_def by (intro replace_outside) simp_all
  moreover have "st AND NOT CSR_SSTATUS_MASK = st0 AND NOT CSR_SSTATUS_MASK"
    unfolding st_def by (rule helper_masked_outside)
  ultimately have st: "st AND NOT CSR_SSTATUS_MASK = status vm AND NOT CSR_SSTATUS_MASK" by simp
  have "status_legalize m st AND NOT CSR_SSTATUS_MASK = st AND NOT CSR_SSTATUS_MASK"
    using assms by (intro legalize_outside) (simp_all add: status_outside [OF st])
  then have "keeps_machine h (set_status h (status_legalize m st))" if "status h = status vm" for h :: "'a hart"
    using that st by (simp add: keeps_machine_def Let_def set_status_def upd_csr_def)
  moreover have "snd (snd (riscv_csr_status m vm dest CSR_SSTATUS_MASK op)) \<in>
      {vm, set_status vm (status_legalize m st), set_status (riscv_hart_check_interrupts vm) (status_legalize m st)}"
    by (auto simp: riscv_csr_status_def Let_def st_def st0_def split: prod.split)
  moreover have "status (riscv_hart_check_interrupts vm) = status vm" by (simp add: riscv_hart_check_interrupts_def)
  ultimately show ?thesis by (auto intro: keeps_machine_trans [OF keeps_dispatch(3)])
qed

lemma keeps_ie_ip [csr_keeps]:
  "ret_keeps vm (riscv_csr_ie vm dest CSR_SEIP_MASK op)" "ret_keeps vm (riscv_csr_ip vm dest CSR_SEIP_MASK op)"
proof -
  have "keeps_machine vm (upd_csr (\<lambda>c. c\<lparr>csr_ie := fst (riscv_csr_helper_masked vm (csr_ie (csr vm)) dest CSR_SEIP_MASK op)\<rparr>) vm)"
    "keeps_machine vm (upd_csr (\<lambda>c. c\<lparr>csr_ip := fst (riscv_csr_helper_masked vm (csr_ip (csr vm)) dest CSR_SEIP_MASK op)\<rparr>) vm)"
    using helper_masked_outside [of vm _ dest CSR_SEIP_MASK op] by (simp_all add: keeps_machine_def upd_csr_def Let_def)
  then show "ret_keeps vm (riscv_csr_ie vm dest CSR_SEIP_MASK op)" "ret_keeps vm (riscv_csr_ip vm dest CSR_SEIP_MASK op)"
    by (auto simp: riscv_csr_ie_def riscv_csr_ip_def Let_def split: prod.split
      intro: keeps_machine_trans [OF _ keeps_dispatch(3)])
qed

lemma keeps_timer [csr_keeps]:
  "ret_keeps vm (riscv_csr_stimecmp vm dest op)" "ret_keeps vm (riscv_csr_stimecmph vm dest op)"
proof -
  have "keeps_machine vm (riscv_csr_stimecmp_set vm v)" for v
  proof -
    have "keeps_machine vm (vm\<lparr>stimecmp := v\<rparr>)" by (simp add: keeps_machine_def Let_def)
    with keeps_irq [of RISCV_INTERRUPT_STIMER "vm\<lparr>stimecmp := v\<rparr>"] show ?thesis
      by (auto simp: riscv_csr_stimecmp_set_def Let_def intro: keeps_machine_trans)
  qed
  then show "ret_keeps vm (riscv_csr_stimecmp vm dest op)" "ret_keeps vm (riscv_csr_stimecmph vm dest op)"
    by (simp_all add: riscv_csr_stimecmp_def riscv_csr_stimecmph_def split: prod.split option.split)
qed

lemma keeps_topei [unfolded One_nat_def, csr_keeps]: "ret_keeps vm (riscv_csr_topei vm RISCV_PRIV_SUPERVISOR dest op)"
  by (simp add: riscv_csr_topei_def riscv_get_aia_irq_def keeps_aia_state case_prod_beta)

lemma keeps_satp [csr_keeps]: "ret_keeps vm (riscv_csr_satp m vm dest op)"
  by (simp add: riscv_csr_satp_def Let_def split: prod.split)
    (simp add: keeps_machine_def Let_def riscv_tlb_flush_def riscv_restart_dispatch_def)

lemma keeps_aia_helper [csr_keeps]: "ret_keeps vm (riscv_csr_aia_helper vm True get put dest op)"
  by (simp add: riscv_csr_aia_helper_def riscv_update_aia_state_def keeps_machine_trans [OF keeps_aia_upd keeps_aia_state]
    Let_def case_prod_beta)

lemma keeps_aia_pair [csr_keeps]: "ret_keeps vm (riscv_csr_aia_pair_helper vm True reg get put dest op)"
  by (simp add: riscv_csr_aia_pair_helper_def keeps_aia_helper keeps_machine_trans [OF keeps_aia_helper keeps_aia_helper]
    Let_def case_prod_beta)

lemma keeps_indirect [unfolded One_nat_def, csr_keeps]: "ret_keeps vm (riscv_csr_indirect vm RISCV_PRIV_SUPERVISOR csri dest op)"
  by (simp add: riscv_csr_indirect_def csr_keeps Let_def)

lemma keeps_supervisor_op:
  assumes "mc_rv64 m \<Longrightarrow> riscv_csr_status_xl_valid (bit_cut (status vm) 34 2)" "bit_cut (status vm) 11 2 \<noteq> 2"
    and "csr_op_supervisor m vm csr_id dest op = Some r"
  shows "ret_keeps vm r"
proof -
  have u: "keeps_machine vm (upd_csr (\<lambda>c. c\<lparr>csr_tvec := (csr_tvec c)(Suc 0 := v)\<rparr>) vm)"
    "keeps_machine vm (upd_csr (\<lambda>c. c\<lparr>csr_counteren := (csr_counteren c)(Suc 0 := v)\<rparr>) vm)"
    "keeps_machine vm (upd_csr (\<lambda>c. c\<lparr>csr_envcfg := (csr_envcfg c)(Suc 0 := v)\<rparr>) vm)"
    "keeps_machine vm (upd_csr (\<lambda>c. c\<lparr>csr_iselect := (csr_iselect c)(Suc 0 := v)\<rparr>) vm)"
    "keeps_machine vm (upd_csr (\<lambda>c. c\<lparr>csr_scratch := (csr_scratch c)(Suc 0 := v)\<rparr>) vm)"
    "keeps_machine vm (upd_csr (\<lambda>c. c\<lparr>csr_epc := (csr_epc c)(Suc 0 := v)\<rparr>) vm)"
    "keeps_machine vm (upd_csr (\<lambda>c. c\<lparr>csr_cause := (csr_cause c)(Suc 0 := v)\<rparr>) vm)"
    "keeps_machine vm (upd_csr (\<lambda>c. c\<lparr>csr_tval := (csr_tval c)(Suc 0 := v)\<rparr>) vm)" for v
    by (simp_all add: keeps_machine_def upd_csr_def Let_def)
  show ?thesis
    using assms(1,2,3) by (auto simp: csr_op_supervisor_def csr_keeps u Let_def split: if_splits)
qed

section \<open>Legal values\<close>

definition within :: "u64 \<Rightarrow> u64 \<Rightarrow> bool" where
  "within x m \<longleftrightarrow> x AND NOT m = 0"

lemma within_bits: "within x m \<longleftrightarrow> (\<forall>n. bit x n \<longrightarrow> bit m n)"
proof
  assume "within x m"
  then have *: "bit (x AND NOT m) n = bit 0 n" for n by (simp add: within_def)
  show "\<forall>n. bit x n \<longrightarrow> bit m n"
  proof (intro allI impI)
    fix n assume "bit x n"
    with * [of n] bit_imp_le_length [of x n] show "bit m n" by (simp add: bit_simps)
  qed
next
  assume "\<forall>n. bit x n \<longrightarrow> bit m n"
  then show "within x m" unfolding within_def by (intro bit_word_eqI) (auto simp: bit_simps)
qed

lemma within_refl [simp]: "within m m"
  by (simp add: within_bits)

lemma within_trans: "within x a \<Longrightarrow> within a b \<Longrightarrow> within x b"
  by (simp add: within_bits)

lemma within_masked:
  "within reg m \<Longrightarrow> within msk m \<Longrightarrow> within (fst (riscv_csr_helper_masked vm reg dest msk op)) m"
  by (auto simp: within_bits riscv_csr_helper_masked_def bit_simps Let_def split: if_splits)

lemma within_helper_l: "within reg m \<Longrightarrow> within (fst (riscv_csr_helper_l vm reg dest m op)) m"
  using within_masked [of reg m m vm dest op]
  by (auto simp: riscv_csr_helper_l_def within_bits bitfield_simps case_prod_beta split: if_splits)

lemma within_helper_h:
  assumes "within reg m" "riscv_csr_helper_h vm reg dest m op = Some (reg', d)"
  shows "within reg' m"
proof -
  let ?t = "fst (riscv_csr_helper_masked vm (shr reg 32) dest (shr m 32) op)"
  have "within (shr reg 32) (shr m 32)" using assms(1) by (auto simp: within_bits bit_simps)
  then have "within ?t (shr m 32)" by (rule within_masked) (simp add: within_def)
  then show ?thesis
    using assms
    by (auto simp: riscv_csr_helper_h_def within_bits bitfield_simps bit_simps case_prod_beta split: if_splits)
qed

lemma tvec_legal: "\<not> bit (fst (riscv_csr_tvec vm reg dest op)) 1"
  by (simp add: riscv_csr_tvec_def case_prod_beta bitfield_simps bit_simps)

lemma epc_legal: "\<not> bit (fst (riscv_csr_epc vm reg dest op)) 0"
  by (simp add: riscv_csr_epc_def case_prod_beta bit_simps)

definition status_ok :: "'d machine \<Rightarrow> u64 \<Rightarrow> bool" where
  "status_ok m s \<longleftrightarrow> within s CSR_MSTATUS_MASK \<and> bit_cut s 11 2 \<noteq> 2 \<and> bit_cut s 13 2 = 0 \<and> bit_cut s 9 2 = 0
     \<and> (mc_rv64 m \<longrightarrow> riscv_csr_status_xl_valid (bit_cut s 32 2) \<and> riscv_csr_status_xl_valid (bit_cut s 34 2))"

lemma within_replace:
  assumes "within v m" "pos \<le> 62" "bit m pos" "bit m (Suc pos)"
  shows "within (bit_replace v pos 2 f) m"
proof -
  have "pos \<le> n \<Longrightarrow> n < pos + 2 \<Longrightarrow> n = pos \<or> n = Suc pos" for n by auto
  with assms show ?thesis
    unfolding within_bits by (auto simp: bitfield_simps split: if_splits)
qed

lemma mstatus_bits: "bit CSR_MSTATUS_MASK n" if "n \<in> {9, 10, 11, 12, 13, 14, 15, 16, 32, 33, 34, 35}"
proof -
  have "list_all (bit CSR_MSTATUS_MASK) [9, 10, 11, 12, 13, 14, 15, 16, 32, 33, 34, 35]" by code_simp
  with that show ?thesis by auto
qed

lemma within_status_fields:
  assumes "within v CSR_MSTATUS_MASK" "pos \<in> {9, 11, 13, 15, 32, 34}"
  shows "within (bit_replace v pos 2 f) CSR_MSTATUS_MASK"
  using assms mstatus_bits [of pos] mstatus_bits [of "Suc pos"] by (intro within_replace) auto

lemma legalize_ok:
  assumes "within st CSR_MSTATUS_MASK"
  shows "status_ok m (status_legalize m st)"
proof -
  define s1 where "s1 = (if mc_rv64 m \<and> \<not> riscv_csr_status_xl_valid (bit_cut st 32 2) then bit_replace st 32 2 2 else st)"
  define s2 where "s2 = (if mc_rv64 m \<and> \<not> riscv_csr_status_xl_valid (bit_cut s1 34 2) then bit_replace s1 34 2 2 else s1)"
  define s3 where "s3 = (if bit_cut s2 11 2 = 2 then bit_replace s2 11 2 0 else s2)"
  have l: "status_legalize m st = bit_replace (bit_replace s3 13 2 0) 9 2 0"
    by (simp add: status_legalize_def s1_def s2_def s3_def Let_def)
  have w: "within s1 CSR_MSTATUS_MASK" "within s2 CSR_MSTATUS_MASK" "within s3 CSR_MSTATUS_MASK"
    using assms by (auto simp: s1_def s2_def s3_def intro!: within_status_fields)
  have two: "2 AND mask 2 = (2 :: u64)" by code_simp
  have x1: "mc_rv64 m \<Longrightarrow> riscv_csr_status_xl_valid (bit_cut s1 32 2)"
    by (auto simp: s1_def riscv_csr_status_xl_valid_def bit_cut_replace_same two)
  have x2: "mc_rv64 m \<Longrightarrow> riscv_csr_status_xl_valid (bit_cut s2 34 2)" "bit_cut s2 32 2 = bit_cut s1 32 2"
    by (auto simp: s2_def riscv_csr_status_xl_valid_def bit_cut_replace_same two bit_cut_replace_other)
  have x3: "bit_cut s3 34 2 = bit_cut s2 34 2" "bit_cut s3 32 2 = bit_cut s2 32 2" "bit_cut s3 11 2 \<noteq> 2"
    by (auto simp: s3_def bit_cut_replace_same bit_cut_replace_other)
  have "within (status_legalize m st) CSR_MSTATUS_MASK"
    unfolding l by (intro within_status_fields w) simp_all
  then show ?thesis
    using x1 x2 x3 by (simp add: status_ok_def l bit_cut_replace_same bit_cut_replace_other)
qed

text \<open>
  The legal values.  Exception PCs are even as long as the program counter is; the flag says
  whether this is part of the claim.
\<close>

definition csr_legal :: "bool \<Rightarrow> 'd machine \<Rightarrow> 'd hart \<Rightarrow> bool" where
  "csr_legal ev m vm \<longleftrightarrow>
     (let c = csr vm in
      status_ok m (csr_status c)
      \<and> within (csr_ie c) CSR_MEIP_MASK \<and> within (csr_ip c) CSR_MEIP_MASK
      \<and> within (csr_edeleg c 3) CSR_MEDELEG_MASK \<and> within (csr_ideleg c 3) CSR_MIDELEG_MASK
      \<and> csr_edeleg c 2 = 0xFFFFFFFF \<and> csr_ideleg c 2 = 0xFFFFFFFF \<and> csr_edeleg c 1 = 0 \<and> csr_ideleg c 1 = 0
      \<and> \<not> bit (csr_tvec c 1) 1 \<and> \<not> bit (csr_tvec c 3) 1 \<and> (ev \<longrightarrow> \<not> bit (csr_epc c 1) 0 \<and> \<not> bit (csr_epc c 3) 0)
      \<and> within (csr_counteren c 1) CSR_COUNTEREN_MASK \<and> within (csr_counteren c 3) CSR_COUNTEREN_MASK
      \<and> within (csr_envcfg c 1) CSR_SENVCFG_MASK \<and> within (csr_envcfg c 3) CSR_MENVCFG_MASK
      \<and> within (csr_mseccfg c) CSR_MSECCFG_MASK
      \<and> (csr_isa c = CSR_MISA_RV32 \<or> csr_isa c = CSR_MISA_RV64 \<and> mc_rv64 m)
      \<and> (mmu_mode vm = CSR_SATP_MODE_BARE \<or> mmu_mode vm = CSR_SATP_MODE_SV32 \<or> mmu_mode vm = CSR_SATP_MODE_SV39
         \<or> mmu_mode vm = CSR_SATP_MODE_SV48 \<or> mmu_mode vm = CSR_SATP_MODE_SV57 \<and> mc_arg_sv57 m)
      \<and> within (root_page_table vm) 0xFFFFFFFFFFF000)"

lemma csr_legal_frame:
  assumes "csr vm' = csr vm" "mmu_mode vm' = mmu_mode vm" "root_page_table vm' = root_page_table vm"
  shows "csr_legal ev m vm' = csr_legal ev m vm"
  using assms by (simp add: csr_legal_def Let_def)

lemma irq_csr_frame [simp]:
  "csr (riscv_interrupt vm i) = csr vm" "mmu_mode (riscv_interrupt vm i) = mmu_mode vm"
  "root_page_table (riscv_interrupt vm i) = root_page_table vm"
  "csr (riscv_interrupt_clear vm i) = csr vm" "mmu_mode (riscv_interrupt_clear vm i) = mmu_mode vm"
  "root_page_table (riscv_interrupt_clear vm i) = root_page_table vm"
  "csr (aia_upd s f vm) = csr vm" "mmu_mode (aia_upd s f vm) = mmu_mode vm"
  "root_page_table (aia_upd s f vm) = root_page_table vm"
  by (simp_all add: riscv_interrupt_def riscv_interrupt_set_def riscv_hart_notify_def rvvm_event_wake_def
      riscv_interrupt_clear_def aia_upd_def Let_def)

lemma csr_legal_control [simp]:
  "csr_legal ev m (riscv_interrupt vm i) = csr_legal ev m vm" "csr_legal ev m (riscv_interrupt_clear vm i) = csr_legal ev m vm"
  "csr_legal ev m (aia_upd s f vm) = csr_legal ev m vm" "csr_legal ev m (riscv_restart_dispatch vm) = csr_legal ev m vm"
  "csr_legal ev m (riscv_tlb_flush vm) = csr_legal ev m vm" "csr_legal ev m (riscv_hart_check_interrupts vm) = csr_legal ev m vm"
  "csr_legal ev m (riscv_update_xlen vm) = csr_legal ev m vm" "csr_legal ev m (riscv_switch_priv vm p) = csr_legal ev m vm"
  "csr_legal ev m (vm\<lparr>stimecmp := t\<rparr>) = csr_legal ev m vm"
  by (rule csr_legal_frame; simp add: riscv_hart_check_interrupts_def)+

lemma csr_legal_aia_state [simp]:
  "csr_legal ev m vm \<Longrightarrow> csr_legal ev m (snd (riscv_update_aia_internal vm s u c))"
  by (rule update_aia_inv [where P = "csr_legal ev m"]) simp_all

abbreviation ret_legal :: "bool \<Rightarrow> 'd machine \<Rightarrow> 'd csr_ret \<Rightarrow> bool" where
  "ret_legal ev m r \<equiv> csr_legal ev m (snd (snd r))"

named_theorems csr_warl

lemma legal_simple [csr_warl]:
  assumes "csr_legal ev m vm"
  shows "ret_legal ev m (riscv_csr_zero vm)" "ret_legal ev m (riscv_csr_zero_h vm dest)" "ret_legal ev m (riscv_csr_const vm v)"
    "ret_legal ev m (riscv_csr_counter vm dest n)" "ret_legal ev m (riscv_csr_counter_h vm dest n)"
    "ret_legal ev m (riscv_csr_seed m vm dest op)" "ret_legal ev m (riscv_csr_topi vm dest msk)"
    "ret_legal ev m (riscv_csr_topei vm p dest op)" "ret_legal ev m (riscv_csr_stimecmp vm dest op)"
    "ret_legal ev m (riscv_csr_stimecmph vm dest op)"
  using assms
  by (simp_all add: riscv_csr_const_def riscv_csr_zero_def riscv_csr_zero_h_def riscv_csr_counter_def
      riscv_csr_counter_h_def riscv_csr_seed_def riscv_csr_topi_def riscv_csr_topei_def riscv_get_aia_irq_def
      riscv_csr_stimecmp_def riscv_csr_stimecmph_def riscv_csr_stimecmp_set_def Let_def case_prod_beta split: option.split)

lemma legal_aia [csr_warl]:
  assumes "csr_legal ev m vm"
  shows "ret_legal ev m (riscv_csr_aia_helper vm s get put dest op)"
    "ret_legal ev m (riscv_csr_aia_pair_helper vm s reg gp pp dest op)"
    "ret_legal ev m (riscv_csr_indirect vm p csri dest op)"
proof -
  have h: "csr_legal ev m h \<Longrightarrow> ret_legal ev m (riscv_csr_aia_helper h s get put dest op)" for h s get put dest op
    by (simp add: riscv_csr_aia_helper_def riscv_update_aia_state_def Let_def case_prod_beta)
  then have p: "csr_legal ev m h \<Longrightarrow> ret_legal ev m (riscv_csr_aia_pair_helper h s reg gp pp dest op)" for h s reg gp pp dest op
    by (simp add: riscv_csr_aia_pair_helper_def Let_def case_prod_beta)
  show "ret_legal ev m (riscv_csr_aia_helper vm s get put dest op)" "ret_legal ev m (riscv_csr_aia_pair_helper vm s reg gp pp dest op)"
    "ret_legal ev m (riscv_csr_indirect vm p csri dest op)"
    using assms h p by (simp_all add: riscv_csr_indirect_def csr_warl Let_def)
qed

lemma legal_via:
  "(\<And>v. csr_legal ev m vm \<Longrightarrow> f (get (csr vm)) = v \<Longrightarrow> csr_legal ev m (upd_csr (put (fst v)) vm)) \<Longrightarrow> csr_legal ev m vm \<Longrightarrow>
   ret_legal ev m (csr_via get put f vm)"
  by (simp add: csr_via_def case_prod_beta)

lemma legal_status [csr_warl]:
  assumes "csr_legal ev m vm" "within msk CSR_MSTATUS_MASK"
  shows "ret_legal ev m (riscv_csr_status m vm dest msk op)"
proof -
  define st0 where "st0 = bit_replace (status vm) 15 2 (max (bit_cut (status vm) 13 2) (bit_cut (status vm) 9 2))"
  define st where "st = fst (riscv_csr_helper_masked vm st0 dest msk op)"
  have "within (status vm) CSR_MSTATUS_MASK" using assms(1) by (simp add: csr_legal_def status_ok_def Let_def)
  then have "within st0 CSR_MSTATUS_MASK" unfolding st0_def by (rule within_status_fields) simp
  then have "within st CSR_MSTATUS_MASK" unfolding st_def by (rule within_masked [OF _ assms(2)])
  then have "status_ok m (status_legalize m st)" by (rule legalize_ok)
  then have "csr_legal ev m (set_status h (status_legalize m st))" if "csr_legal ev m h" for h
    using that by (simp add: csr_legal_def Let_def)
  moreover have "snd (snd (riscv_csr_status m vm dest msk op)) \<in>
      {vm, set_status vm (status_legalize m st), set_status (riscv_hart_check_interrupts vm) (status_legalize m st)}"
    by (auto simp: riscv_csr_status_def Let_def st_def st0_def split: prod.split)
  ultimately show ?thesis using assms(1) by auto
qed

lemma legal_ie_ip [csr_warl]:
  assumes "csr_legal ev m vm" "within msk CSR_MEIP_MASK"
  shows "ret_legal ev m (riscv_csr_ie vm dest msk op)" "ret_legal ev m (riscv_csr_ip vm dest msk op)"
  using assms within_masked [of _ CSR_MEIP_MASK msk vm dest op]
  by (simp_all add: riscv_csr_ie_def riscv_csr_ip_def Let_def case_prod_beta) (simp_all add: csr_legal_def Let_def)

lemma legal_misa [csr_warl]: "csr_legal ev m vm \<Longrightarrow> ret_legal ev m (riscv_csr_misa m vm dest op)"
  by (simp add: riscv_csr_misa_def Let_def case_prod_beta) (simp add: csr_legal_def Let_def)

lemma within_root: "n \<le> 44 \<Longrightarrow> within (shl (x AND bit_mask n) 12) 0xFFFFFFFFFFF000"
proof -
  assume "n \<le> 44"
  have c: "(0xFFFFFFFFFFF000 :: u64) = shl (mask 44) 12" by code_simp
  show ?thesis unfolding within_bits c using \<open>n \<le> 44\<close> by (auto simp only: bit_mask_eq bit_simps)
qed

lemma legal_satp [csr_warl]:
  assumes "csr_legal ev m vm"
  shows "ret_legal ev m (riscv_csr_satp m vm dest op)"
proof -
  have up: "csr_legal ev m (vm\<lparr>root_page_table := shl (x AND bit_mask (if rv64 vm then 44 else 22)) 12\<rparr>)" for x
    using assms within_root [of "if rv64 vm then 44 else 22" x] by (simp add: csr_legal_def Let_def split: if_splits)
  have mode: "csr_legal ev m (h\<lparr>mmu_mode := n\<rparr>)"
    if "csr_legal ev m h" "n = 0 \<or> n = 1 \<or> n = 8 \<or> n = 9 \<or> n = 10 \<and> mc_arg_sv57 m" for h n
    using that by (simp add: csr_legal_def Let_def)
  have one: "unat (bit_cut x 31 1) = 0 \<or> unat (bit_cut x 31 1) = 1" for x
    using unat_bit_cut_less [of 31 1 x] by simp linarith
  have mode32: "csr_legal ev m h \<Longrightarrow> csr_legal ev m (h\<lparr>mmu_mode := unat (bit_cut x 31 1)\<rparr>)" for h x
    using mode [of h "unat (bit_cut x 31 1)"] one by blast
  show ?thesis
  proof (cases "rv64 vm")
    case True
    then show ?thesis
      using assms up by (auto simp: riscv_csr_satp_def Let_def case_prod_beta intro!: mode)
  next
    case False
    then show ?thesis
      using assms up by (auto simp: riscv_csr_satp_def Let_def case_prod_beta intro!: mode32 [unfolded One_nat_def])
  qed
qed

lemma mask_subsets: "within CSR_SSTATUS_MASK CSR_MSTATUS_MASK" "within CSR_MSTATUS_MASK CSR_MSTATUS_MASK"
  "within CSR_SEIP_MASK CSR_MEIP_MASK" "within CSR_MEIP_MASK CSR_MEIP_MASK"
  by code_simp+

lemma legal_supervisor_op:
  assumes "csr_legal ev m vm" "csr_op_supervisor m vm csr_id dest op = Some r"
  shows "ret_legal ev m r"
proof -
  note c = csr_legal_def Let_def
  have t: "\<not> bit (fst (riscv_csr_tvec vm v dest op)) (Suc 0)" for v using tvec_legal by simp
  have s: "ret_legal ev m (csr_via (\<lambda>c. csr_tvec c 1) (\<lambda>v c. c\<lparr>csr_tvec := (csr_tvec c)(1 := v)\<rparr>) (\<lambda>v. riscv_csr_tvec vm v dest op) vm)"
    "ret_legal ev m (csr_via (\<lambda>c. csr_counteren c 1) (\<lambda>v c. c\<lparr>csr_counteren := (csr_counteren c)(1 := v)\<rparr>)
        (\<lambda>v. riscv_csr_helper_masked vm v dest CSR_COUNTEREN_MASK op) vm)"
    "ret_legal ev m (csr_via (\<lambda>c. csr_envcfg c 1) (\<lambda>v c. c\<lparr>csr_envcfg := (csr_envcfg c)(1 := v)\<rparr>)
        (\<lambda>v. riscv_csr_helper_l vm v dest CSR_SENVCFG_MASK op) vm)"
    "ret_legal ev m (csr_via (\<lambda>c. csr_epc c 1) (\<lambda>v c. c\<lparr>csr_epc := (csr_epc c)(1 := v)\<rparr>) (\<lambda>v. riscv_csr_epc vm v dest op) vm)"
    "ret_legal ev m (csr_via (\<lambda>c. csr_iselect c 1) (\<lambda>v c. c\<lparr>csr_iselect := (csr_iselect c)(1 := v)\<rparr>) f vm)"
    "ret_legal ev m (csr_via (\<lambda>c. csr_scratch c 1) (\<lambda>v c. c\<lparr>csr_scratch := (csr_scratch c)(1 := v)\<rparr>) f vm)"
    "ret_legal ev m (csr_via (\<lambda>c. csr_cause c 1) (\<lambda>v c. c\<lparr>csr_cause := (csr_cause c)(1 := v)\<rparr>) f vm)"
    "ret_legal ev m (csr_via (\<lambda>c. csr_tval c 1) (\<lambda>v c. c\<lparr>csr_tval := (csr_tval c)(1 := v)\<rparr>) f vm)" for f
    using assms(1) by (auto simp: csr_via_def case_prod_beta c t epc_legal within_helper_l within_masked)
  show ?thesis
    using assms by (auto simp: csr_op_supervisor_def csr_warl mask_subsets s [unfolded One_nat_def] Let_def split: if_splits)
qed

lemma legal_machine_op:
  assumes "csr_legal ev m vm"
  shows "ret_legal ev m (csr_op_machine m vm csr_id dest op)"
proof -
  note c = csr_legal_def Let_def
  have t: "\<not> bit (fst (riscv_csr_tvec vm v dest op)) (Suc 0)" for v using tvec_legal by simp
  have s: "ret_legal ev m (csr_via (\<lambda>c. csr_tvec c 3) (\<lambda>v c. c\<lparr>csr_tvec := (csr_tvec c)(3 := v)\<rparr>) (\<lambda>v. riscv_csr_tvec vm v dest op) vm)"
    "ret_legal ev m (csr_via (\<lambda>c. csr_edeleg c 3) (\<lambda>v c. c\<lparr>csr_edeleg := (csr_edeleg c)(3 := v)\<rparr>)
        (\<lambda>v. riscv_csr_helper_masked vm v dest CSR_MEDELEG_MASK op) vm)"
    "ret_legal ev m (csr_via (\<lambda>c. csr_ideleg c 3) (\<lambda>v c. c\<lparr>csr_ideleg := (csr_ideleg c)(3 := v)\<rparr>)
        (\<lambda>v. riscv_csr_helper_masked vm v dest CSR_MIDELEG_MASK op) vm)"
    "ret_legal ev m (csr_via (\<lambda>c. csr_counteren c 3) (\<lambda>v c. c\<lparr>csr_counteren := (csr_counteren c)(3 := v)\<rparr>)
        (\<lambda>v. riscv_csr_helper_masked vm v dest CSR_COUNTEREN_MASK op) vm)"
    "ret_legal ev m (csr_via (\<lambda>c. csr_envcfg c 3) (\<lambda>v c. c\<lparr>csr_envcfg := (csr_envcfg c)(3 := v)\<rparr>)
        (\<lambda>v. riscv_csr_helper_l vm v dest CSR_MENVCFG_MASK op) vm)"
    "ret_legal ev m (csr_via csr_mseccfg (\<lambda>v c. c\<lparr>csr_mseccfg := v\<rparr>)
        (\<lambda>v. riscv_csr_helper_l vm v dest CSR_MSECCFG_MASK op) vm)"
    "ret_legal ev m (csr_via (\<lambda>c. csr_epc c 3) (\<lambda>v c. c\<lparr>csr_epc := (csr_epc c)(3 := v)\<rparr>) (\<lambda>v. riscv_csr_epc vm v dest op) vm)"
    "ret_legal ev m (csr_via (\<lambda>c. csr_iselect c 3) (\<lambda>v c. c\<lparr>csr_iselect := (csr_iselect c)(3 := v)\<rparr>) f vm)"
    "ret_legal ev m (csr_via (\<lambda>c. csr_scratch c 3) (\<lambda>v c. c\<lparr>csr_scratch := (csr_scratch c)(3 := v)\<rparr>) f vm)"
    "ret_legal ev m (csr_via (\<lambda>c. csr_cause c 3) (\<lambda>v c. c\<lparr>csr_cause := (csr_cause c)(3 := v)\<rparr>) f vm)"
    "ret_legal ev m (csr_via (\<lambda>c. csr_tval c 3) (\<lambda>v c. c\<lparr>csr_tval := (csr_tval c)(3 := v)\<rparr>) f vm)" for f
    using assms by (auto simp: csr_via_def case_prod_beta c t epc_legal within_helper_l within_masked)
  have h: "ret_legal ev m (csr_via_h (\<lambda>c. csr_envcfg c 3) (\<lambda>v c. c\<lparr>csr_envcfg := (csr_envcfg c)(3 := v)\<rparr>) dest
        (\<lambda>v. riscv_csr_helper_h vm v dest CSR_MENVCFG_MASK op) vm)"
    "ret_legal ev m (csr_via_h csr_mseccfg (\<lambda>v c. c\<lparr>csr_mseccfg := v\<rparr>) dest
        (\<lambda>v. riscv_csr_helper_h vm v dest CSR_MSECCFG_MASK op) vm)"
    using assms within_helper_h by (auto simp: csr_via_h_def c split: option.split)
  show ?thesis
    using assms by (simp add: csr_op_machine_def csr_warl mask_subsets s h Let_def)
qed

lemma legal_csr_op:
  assumes "csr_legal ev m vm"
  shows "ret_legal ev m (riscv_csr_op m vm csr_id dest op)"
  using assms legal_supervisor_op [OF assms] legal_machine_op [OF assms]
  by (auto simp: riscv_csr_op_def riscv_csr_op_internal_def Let_def case_prod_beta split: option.split)

lemma csr_init_legal:
  "rv64 vm = mc_rv64 m \<Longrightarrow> csr vm = csr_zero \<Longrightarrow> mmu_mode vm = 0 \<Longrightarrow> root_page_table vm = 0 \<Longrightarrow>
   csr_legal ev m (riscv_csr_init vm)"
proof -
  have "status_ok m 0xA00000000" if "mc_rv64 m" 
    unfolding status_ok_def by code_simp
  moreover have "status_ok m 0" if "\<not> mc_rv64 m"
    using that unfolding status_ok_def by (auto simp: within_def bit_cut_eq)
  ultimately show "rv64 vm = mc_rv64 m \<Longrightarrow> csr vm = csr_zero \<Longrightarrow> mmu_mode vm = 0 \<Longrightarrow> root_page_table vm = 0 \<Longrightarrow>
   csr_legal ev m (riscv_csr_init vm)"
    by (simp add: riscv_csr_init_def csr_legal_def csr_zero_def within_def Let_def)
qed

section \<open>Properties\<close>

text \<open>
  An access that is refused, and so raises an illegal instruction exception, leaves the hart
  exactly as it was: no CSR operation changes state before it discovers that it must fail.
\<close>

theorem csr_refused_no_effect:
  assumes "riscv_csr_op m vm csr_id dest op = (False, d, vm')"
  shows "vm' = vm"
  using assms by (rule csr_refused)

theorem csr_refused_no_effect_witness:
  "snd (snd (riscv_csr_op machine_bare (hart_zero ()) 0x300 0xFF CSR_SWAP)) = hart_zero ()"
proof -
  have "riscv_csr_op machine_bare (hart_zero ()) 0x300 0xFF CSR_SWAP = (False, 0xFF, hart_zero ())"
    by (simp add: riscv_csr_op_def privilege_nat riscv_csr_readonly_def hart_zero_def bit_cut_eq)
  from csr_refused_no_effect [OF this] show ?thesis
    by (simp add: riscv_csr_op_def privilege_nat riscv_csr_readonly_def hart_zero_def bit_cut_eq)
qed

text \<open>
  C11. Registers keep legal values.  Whatever value is written to whatever CSR at whatever
  privilege, every WARL field of the hart keeps a legal value: the previous mode is never the
  reserved one, the register widths of the lower modes are 32 or 64 bits, FPU and vector state
  are off, delegation, enable, pending and configuration registers stay within their masks, trap
  vectors have a legal mode, exception PCs, if even before, stay even, \<^verbatim>\<open>misa\<close> is one of the two supported values,
  the paging mode is a supported one and the root page table is a page below 56 bits.
\<close>

theorem csr_values_legal:
  assumes "csr_legal ev m vm"
  shows "csr_legal ev m (snd (snd (riscv_csr_op m vm csr_id dest op)))"
  using assms by (rule legal_csr_op)

theorem csr_values_legal_witness:
  "csr_legal True machine_bare (snd (snd (riscv_csr_op machine_bare (riscv_csr_init ((hart_zero ())\<lparr>rv64 := True, priv_mode := 3\<rparr>)) 0x300 (-1) CSR_SWAP)))"
  by (rule csr_values_legal, rule csr_init_legal) (simp_all add: machine_bare_def hart_zero_def)

text \<open>
  C12. Isolation of machine mode.  An access made below machine mode, whatever the register and
  the value, does not change what belongs to machine mode: its fields of the status and interrupt
  registers, delegation, its trap registers and configuration, its interrupt lines, AIA register
  file and timer, nor the privilege mode, the integer registers or memory.
\<close>

theorem csr_isolation:
  assumes "csr_legal ev m vm" "priv_mode vm < RISCV_PRIV_MACHINE"
  shows "keeps_machine vm (snd (snd (riscv_csr_op m vm csr_id dest op)))"
proof (cases "riscv_csr_privilege csr_id > priv_mode vm")
  case True
  then show ?thesis by (simp add: riscv_csr_op_def)
next
  case False
  then have "csr_op_machine m vm csr_id dest op = (False, dest, vm)"
    using assms(2) by (intro csr_op_machine_private) simp
  moreover have "ret_keeps vm r" if "csr_op_supervisor m vm csr_id dest op = Some r" for r
    using assms(1) by (intro keeps_supervisor_op [OF _ _ that]) (simp_all add: csr_legal_def status_ok_def Let_def)
  ultimately show ?thesis
    by (simp add: riscv_csr_op_def riscv_csr_op_internal_def Let_def case_prod_beta split: option.split)
qed

theorem csr_isolation_witness:
  "let vm = riscv_csr_init ((hart_zero ())\<lparr>rv64 := True, priv_mode := 1\<rparr>) in
   csr_ie (csr (snd (snd (riscv_csr_op machine_bare vm 0x104 (-1) CSR_SWAP)))) = 0x222
   \<and> csr_ie (csr (snd (snd (riscv_csr_op machine_bare vm 0x104 (-1) CSR_SWAP)))) AND NOT CSR_SEIP_MASK = csr_ie (csr vm) AND NOT CSR_SEIP_MASK"
proof -
  let ?vm = "riscv_csr_init ((hart_zero ())\<lparr>rv64 := True, priv_mode := 1\<rparr>)"
  have "csr_legal True machine_bare ?vm" by (rule csr_init_legal) (simp_all add: machine_bare_def hart_zero_def)
  moreover have "priv_mode ?vm < RISCV_PRIV_MACHINE" by (simp add: riscv_csr_init_def Let_def)
  ultimately have "keeps_machine ?vm (snd (snd (riscv_csr_op machine_bare ?vm 0x104 (-1) CSR_SWAP)))"
    by (rule csr_isolation)
  moreover have "csr_ie (csr (snd (snd (riscv_csr_op machine_bare ?vm 0x104 (-1) CSR_SWAP)))) = 0x222" by code_simp
  ultimately show ?thesis by (simp add: keeps_machine_def Let_def)
qed

text \<open>
  A change between paging modes is lost.  When \<^verbatim>\<open>satp\<close> is written with a supported paging
  mode while another one is active, the access succeeds and installs the new root page table but
  keeps the old mode, so that the walk interprets the new table with the wrong number of levels.
\<close>

theorem satp_mode_change_lost:
  assumes "rv64 vm" "priv_mode vm = RISCV_PRIV_MACHINE" "mmu_mode vm = CSR_SATP_MODE_SV39"
    and "bit_cut v 60 4 = of_nat CSR_SATP_MODE_SV48"
  shows "\<exists>old. riscv_csr_op m vm 0x180 v CSR_SWAP =
     (True, old, vm\<lparr>root_page_table := shl (v AND bit_mask 44) 12\<rparr>)"
  using assms
  by (simp add: riscv_csr_op_def riscv_csr_op_internal_def csr_op_supervisor_def riscv_csr_satp_def riscv_csr_helper_def
      privilege_nat riscv_csr_readonly_def bit_cut_eq Let_def)

theorem satp_mode_change_lost_witness:
  "mmu_mode (snd (snd (riscv_csr_op machine_bare ((hart_zero ())\<lparr>rv64 := True, priv_mode := 3, mmu_mode := 8\<rparr>)
      0x180 0x9000000000080000 CSR_SWAP))) = 8"
proof -
  have v: "bit_cut 0x9000000000080000 60 4 = of_nat CSR_SATP_MODE_SV48" by code_simp
  obtain old where "riscv_csr_op machine_bare ((hart_zero ())\<lparr>rv64 := True, priv_mode := 3, mmu_mode := 8\<rparr>)
      0x180 0x9000000000080000 CSR_SWAP = (True, old, ((hart_zero ())\<lparr>rv64 := True, priv_mode := 3, mmu_mode := 8\<rparr>)
        \<lparr>root_page_table := shl (0x9000000000080000 AND bit_mask 44) 12\<rparr>)"
    using satp_mode_change_lost [OF _ _ _ v, of "(hart_zero ())\<lparr>rv64 := True, priv_mode := 3, mmu_mode := 8\<rparr>" machine_bare]
    by auto
  then show ?thesis by simp
qed

end
