(* ===== verification/Timer.thy ===== *)
theory Timer
  imports Hart
begin

text \<open>
  Timers: \<^verbatim>\<open>src/util/rvtimer.c\<close> and \<^verbatim>\<open>src/util/rvtimer.h\<close>.  A timer is its frequency and the
  value of the clock source, in its own ticks, at which it read zero; the clock source of the
  host is an argument.  The theory shows that converting between frequencies computes the exact
  quotient whenever the intermediate products fit, and how a timer reads after it was rebased.
\<close>

definition rvtimer_convert_freq :: "u64 \<Rightarrow> u64 \<Rightarrow> u64 \<Rightarrow> u64" where
  "rvtimer_convert_freq clk src_freq dst_freq =
     (let mul128 = (ucast clk :: 128 word) * ucast dst_freq in
      if shr mul128 64 = 0 then ucast mul128 div src_freq
      else
        (let clk_div = clk div src_freq;
             clk_rem = clk - clk_div * src_freq
         in clk_div * dst_freq + clk_rem * dst_freq div src_freq))"

definition rvtimecmp_delay_ns :: "u64 \<Rightarrow> u64 \<Rightarrow> u64 \<Rightarrow> u64" where
  "rvtimecmp_delay_ns freq now timecmp = rvtimer_convert_freq (rvtimecmp_delay now timecmp) freq 1000000000"

record rvtimer =
  rt_begin :: u64
  rt_freq :: u64

definition rvtimer_get :: "(u64 \<Rightarrow> u64) \<Rightarrow> rvtimer \<Rightarrow> u64" where
  "rvtimer_get clocksource t = clocksource (rt_freq t) - rt_begin t"

definition rvtimer_rebase :: "(u64 \<Rightarrow> u64) \<Rightarrow> rvtimer \<Rightarrow> u64 \<Rightarrow> rvtimer" where
  "rvtimer_rebase clocksource t time = t\<lparr>rt_begin := clocksource (rt_freq t) - time\<rparr>"

definition rvtimer_init :: "(u64 \<Rightarrow> u64) \<Rightarrow> u64 \<Rightarrow> rvtimer" where
  "rvtimer_init clocksource freq = rvtimer_rebase clocksource \<lparr>rt_begin = 0, rt_freq = freq\<rparr> 0"

definition rvtimer_freq :: "rvtimer \<Rightarrow> u64" where
  "rvtimer_freq t = rt_freq t"

lemma timer_elapsed:
  "rvtimer_get later (rvtimer_rebase now t time) = time + (later (rt_freq t) - now (rt_freq t))"
  by (simp add: rvtimer_get_def rvtimer_rebase_def)

lemma unat_ucast_128: "unat (ucast (x :: u64) :: 128 word) = unat x"
proof -
  have "unat x < 2 ^ 128" using unsigned_less [of x, where 'a = nat] by simp
  then show ?thesis by (simp add: unsigned_ucast_eq take_bit_nat_eq_self)
qed

lemma unat_high_half: "unat (shr (p :: 128 word) 64) = unat p div 2 ^ 64"
proof -
  have "unat (shr p 64) = drop_bit 64 (unat p)" by (rule unat_drop_bit_eq)
  then show ?thesis by (simp only: drop_bit_eq_div)
qed

lemma convert_fast:
  assumes "unat clk * unat dst < 2 ^ 64"
  shows "unat (rvtimer_convert_freq clk src dst) = unat clk * unat dst div unat src"
proof -
  define p where "p = (ucast clk :: 128 word) * ucast dst"
  have u: "unat p = unat clk * unat dst"
    using assms by (simp add: p_def unat_word_ariths unat_ucast_128)
  then have "unat (shr p 64) = 0" using assms by (simp only: unat_high_half) simp
  then have z: "shr p 64 = 0" by (simp add: unat_eq_zero)
  have "unat (ucast p :: u64) = unat clk * unat dst"
    using assms u by (simp add: unsigned_ucast_eq take_bit_nat_eq_self)
  with z show ?thesis by (simp add: rvtimer_convert_freq_def p_def Let_def unat_div)
qed

lemma convert_slow:
  assumes "2 ^ 64 \<le> unat clk * unat dst" "0 < unat src" "unat src * unat dst < 2 ^ 64" "unat clk * unat dst div unat src < 2 ^ 64"
  shows "unat (rvtimer_convert_freq clk src dst) = unat clk * unat dst div unat src"
proof -
  define p where "p = (ucast clk :: 128 word) * ucast dst"
  define q where "q = unat clk div unat src"
  define r where "r = unat clk mod unat src"
  have clk: "unat clk = q * unat src + r" and r: "r < unat src" using assms(2) by (simp_all add: q_def r_def)
  have val: "unat clk * unat dst div unat src = q * unat dst + r * unat dst div unat src"
  proof -
    have "unat clk * unat dst = r * unat dst + q * unat dst * unat src" by (simp add: clk algebra_simps)
    then show ?thesis using assms(2) by simp
  qed
  have "unat clk * unat dst < 2 ^ 64 * 2 ^ 64"
    using unsigned_less [of clk, where 'a = nat] unsigned_less [of dst, where 'a = nat] by (intro mult_strict_mono) simp_all
  then have u: "unat p = unat clk * unat dst"
    by (simp add: p_def unat_word_ariths unat_ucast_128)
  then have "unat (shr p 64) \<noteq> 0" using assms(1) by (simp only: unat_high_half) (simp add: div_eq_0_iff)
  then have z: "shr p 64 \<noteq> 0" by (metis unsigned_0)
  have d: "unat (clk div src) = q" by (simp add: q_def unat_div)
  have "r * unat dst \<le> unat src * unat dst" using r by simp
  with assms(3) have rd: "r * unat dst < 2 ^ 64" by linarith
  have "q * unat src < 2 ^ 64" using clk unsigned_less [of clk, where 'a = nat] by simp
  then have qs: "unat (clk div src * src) = q * unat src" by (simp add: unat_word_ariths(1,2) d)
  then have m: "unat (clk - clk div src * src) = r" using clk by (simp add: unat_sub word_le_nat_alt)
  have e: "unat ((clk - clk div src * src) * dst div src) = r * unat dst div unat src"
    using rd by (simp add: unat_div unat_word_ariths(1,2) m)
  have "q * unat dst < 2 ^ 64" using assms(4) val by linarith
  then have f: "unat (clk div src * dst) = q * unat dst" by (simp add: unat_word_ariths(1,2) d)
  have "unat (clk div src * dst + (clk - clk div src * src) * dst div src) = q * unat dst + r * unat dst div unat src"
    using assms(4) val e f by (simp add: unat_word_ariths(1))
  with z show ?thesis by (simp add: rvtimer_convert_freq_def p_def [symmetric] Let_def val)
qed

text \<open>
  C31. Conversion between frequencies is exact: for a nonzero source frequency, with frequencies
  whose product fits into 64 bits, the result is the number of whole destination ticks in the
  given number of source ticks, on both paths, whenever that number fits into 64 bits.
\<close>

theorem convert_freq_exact:
  assumes "0 < unat src" "unat src * unat dst < 2 ^ 64" "unat clk * unat dst div unat src < 2 ^ 64"
  shows "unat (rvtimer_convert_freq clk src dst) = unat clk * unat dst div unat src"
  using convert_fast convert_slow assms by (meson linorder_not_less)

theorem convert_freq_exact_witness:
  "unat (rvtimer_convert_freq 0x7000000000000000 1000000000 10000000) = 0x7000000000000000 * 10000000 div 1000000000"
  using convert_freq_exact [of 1000000000 10000000 "0x7000000000000000"] by simp

end
