(* ===== verification/Priv.thy ===== *)
theory Priv
  imports Csr Timer
begin

text \<open>
  Privileged instructions: \<^verbatim>\<open>src/cpu/riscv_priv.c\<close>, the SYSTEM and MISC-MEM opcodes.

  Fences, yields and hints have no effect on the state of a hart.  \<^verbatim>\<open>wfi\<close> sleeps until another
  thread or the timer clears the \<open>running\<close> flag; the effect of a sleep on the hart is the
  machine's \<open>mc_wait\<close>, and a sleep that is not over after \<open>mc_wfi_rounds\<close> rounds is \<open>None\<close>: the
  instruction does not return.

  The theory shows that returning from a trap undoes it, which instructions a mode may not
  execute, that control state stays legal under every operation of this layer, and that \<^verbatim>\<open>wfi\<close>
  returns once the timer has run out.
\<close>

abbreviation (input) RISCV_INSN_ECALL :: u32 where "RISCV_INSN_ECALL \<equiv> 0x00000073"
abbreviation (input) RISCV_INSN_EBREAK :: u32 where "RISCV_INSN_EBREAK \<equiv> 0x00100073"
abbreviation (input) RISCV_INSN_SRET :: u32 where "RISCV_INSN_SRET \<equiv> 0x10200073"
abbreviation (input) RISCV_INSN_MRET :: u32 where "RISCV_INSN_MRET \<equiv> 0x30200073"
abbreviation (input) RISCV_INSN_WFI :: u32 where "RISCV_INSN_WFI \<equiv> 0x10500073"
abbreviation (input) RISCV_INSN_WRS_NT :: u32 where "RISCV_INSN_WRS_NT \<equiv> 0x00D00073"
abbreviation (input) RISCV_INSN_WRS_ST :: u32 where "RISCV_INSN_WRS_ST \<equiv> 0x01D00073"
abbreviation (input) RISCV_SFENCE_MASK :: u32 where "RISCV_SFENCE_MASK \<equiv> 0xFE007FFF"
abbreviation (input) RISCV_SFENCE_VMA :: u32 where "RISCV_SFENCE_VMA \<equiv> 0x12000073"

definition riscv_mstatus_allowed :: "'d hart \<Rightarrow> u64 \<Rightarrow> bool" where
  "riscv_mstatus_allowed vm flag \<longleftrightarrow>
     (priv_mode vm \<ge> RISCV_PRIV_SUPERVISOR \<and> status vm AND flag = 0) \<or> priv_mode vm = RISCV_PRIV_MACHINE"

section \<open>Return from traps\<close>

definition insn_sret :: "'d hart \<Rightarrow> 'd hart" where
  "insn_sret vm =
     (let next_priv = unat (bit_ext_u32 (ucast (status vm)) 8 1);
          vm = set_status vm (bit_replace (status vm) 8 1 0);
          vm = set_status vm (bit_replace (status vm) 1 1 (ucast (bit_ext_u32 (ucast (status vm)) 5 1)));
          vm = set_status vm (bit_replace (status vm) 5 1 1);
          vm = set_pc vm (csr_epc (csr vm) RISCV_PRIV_SUPERVISOR - 4)
      in riscv_hart_check_interrupts (riscv_switch_priv vm next_priv))"

definition insn_mret :: "'d hart \<Rightarrow> 'd hart" where
  "insn_mret vm =
     (let next_priv = unat (bit_ext_u32 (ucast (status vm)) 11 2);
          vm = (if next_priv < RISCV_PRIV_MACHINE then set_status vm (status vm AND NOT CSR_STATUS_MPRV) else vm);
          vm = set_status vm (bit_replace (status vm) 11 2 0);
          vm = set_status vm (bit_replace (status vm) 3 1 (ucast (bit_ext_u32 (ucast (status vm)) 7 1)));
          vm = set_status vm (bit_replace (status vm) 7 1 1);
          vm = set_pc vm (csr_epc (csr vm) RISCV_PRIV_MACHINE - 4)
      in riscv_hart_check_interrupts (riscv_switch_priv vm next_priv))"

section \<open>Waiting for an interrupt\<close>

definition wfi_delay :: "'d machine \<Rightarrow> 'd hart \<Rightarrow> u64" where
  "wfi_delay m vm =
     (let delay = -1;
          delay = (if csr_ie (csr vm) AND shl 1 7 \<noteq> 0 then rvtimecmp_delay_ns (mc_freq m) (timer vm) (mtimecmp vm) else delay)
      in if csr_ie (csr vm) AND shl 1 5 \<noteq> 0
         then min delay (rvtimecmp_delay_ns (mc_freq m) (timer vm) (stimecmp vm)) else delay)"

primrec wfi_loop :: "nat \<Rightarrow> 'd machine \<Rightarrow> 'd hart \<Rightarrow> 'd hart option" where
  "wfi_loop 0 m vm = (if running vm then None else Some vm)"
| "wfi_loop (Suc rounds) m vm =
     (if running vm then wfi_loop rounds m (riscv_hart_check_timer (mc_wait m (wfi_delay m vm) vm))
      else Some vm)"

definition insn_wfi :: "'d machine \<Rightarrow> 'd hart \<Rightarrow> 'd hart option" where
  "insn_wfi m vm = (if riscv_interrupts_pending vm = 0 then wfi_loop (mc_wfi_rounds m) m vm else Some vm)"

section \<open>The SYSTEM opcode\<close>

definition csr_insn :: "'d machine \<Rightarrow> 'd hart \<Rightarrow> u32 \<Rightarrow> u64 \<Rightarrow> u8 \<Rightarrow> 'd hart" where
  "csr_insn m vm insn val op =
     (let rds = unat (bit_ext_u32 insn 7 5); csr_id = shr insn 20 in
      case riscv_csr_op m vm csr_id val op of
        (True, val, vm) \<Rightarrow> set_reg vm rds val
      | (False, _, vm) \<Rightarrow> riscv_illegal_insn vm insn)"

definition riscv_emulate_opc_system :: "'d machine \<Rightarrow> 'd hart \<Rightarrow> u32 \<Rightarrow> 'd hart option" where
  "riscv_emulate_opc_system m vm insn =
     (let funct3 = bit_ext_u32 insn 12 3;
          rs1 = unat (bit_ext_u32 insn 15 5);
          imm = ucast (bit_ext_u32 insn 15 5)
      in if insn = RISCV_INSN_ECALL then Some (riscv_trap vm (RISCV_TRAP_ECALL_UMODE + of_nat (priv_mode vm)) 0)
         else if insn = RISCV_INSN_EBREAK then Some (riscv_breakpoint m vm)
         else if insn = RISCV_INSN_SRET \<and> riscv_mstatus_allowed vm CSR_STATUS_TSR then Some (insn_sret vm)
         else if insn = RISCV_INSN_MRET \<and> priv_mode vm = RISCV_PRIV_MACHINE then Some (insn_mret vm)
         else if insn = RISCV_INSN_WFI \<and> riscv_mstatus_allowed vm CSR_STATUS_TW then insn_wfi m vm
         else if insn = RISCV_INSN_WRS_NT \<or> insn = RISCV_INSN_WRS_ST then Some vm
         else if funct3 = 0 then
           (if insn AND RISCV_SFENCE_MASK = RISCV_SFENCE_VMA \<and> riscv_mstatus_allowed vm CSR_STATUS_TVM
            then Some (if rs1 \<noteq> 0 then riscv_tlb_flush_page vm (registers vm rs1) else riscv_tlb_flush vm)
            else Some (riscv_illegal_insn vm insn))
         else if funct3 = 1 then Some (csr_insn m vm insn (registers vm rs1) CSR_SWAP)
         else if funct3 = 2 then Some (csr_insn m vm insn (registers vm rs1) CSR_SETBITS)
         else if funct3 = 3 then Some (csr_insn m vm insn (registers vm rs1) CSR_CLEARBITS)
         else if funct3 = 4 then
           (if insn AND 0xB0000000 = 0x80000000 then Some vm else Some (riscv_illegal_insn vm insn))
         else if funct3 = 5 then Some (csr_insn m vm insn imm CSR_SWAP)
         else if funct3 = 6 then Some (csr_insn m vm insn imm CSR_SETBITS)
         else if funct3 = 7 then Some (csr_insn m vm insn imm CSR_CLEARBITS)
         else Some (riscv_illegal_insn vm insn))"

section \<open>The MISC-MEM opcode\<close>

definition riscv_cbo_zero :: "'d machine \<Rightarrow> 'd hart \<Rightarrow> u64 \<Rightarrow> 'd hart" where
  "riscv_cbo_zero m vm vaddr =
     (case riscv_rmw_translate m vm (vaddr AND NOT 63) None 64 of
        (Mhost ptr, _, vm) \<Rightarrow> vm\<lparr>host := mem_write (host vm) ptr (replicate 64 0)\<rparr>
      | (_, _, vm) \<Rightarrow> vm)"

definition riscv_emulate_opc_misc_mem :: "'d machine \<Rightarrow> 'd hart \<Rightarrow> u32 \<Rightarrow> 'd hart" where
  "riscv_emulate_opc_misc_mem m vm insn =
     (let funct3 = bit_ext_u32 insn 12 3;
          rds = unat (bit_ext_u32 insn 7 5);
          rs1 = unat (bit_ext_u32 insn 15 5);
          imm = shr insn 20
      in if funct3 = 0 \<or> funct3 = 1 then vm
         else if funct3 = 2 then
           (if imm = 0 \<and> rds = 0 \<and> riscv_csr_cbi_enabled vm then vm
            else if (imm = 1 \<or> imm = 2) \<and> rds = 0 \<and> riscv_csr_cbcf_enabled vm then vm
            else if imm = 4 \<and> rds = 0 \<and> riscv_csr_cbz_enabled vm then riscv_cbo_zero m vm (registers vm rs1)
            else riscv_illegal_insn vm insn)
         else riscv_illegal_insn vm insn)"

section \<open>Returns as functions of the status word\<close>

lemma ext_low: "0 < n \<Longrightarrow> p + n \<le> 32 \<Longrightarrow> ucast (bit_ext_u32 (ucast s) p n) = bit_cut s p n"
  by (intro bit_word_eqI) (auto simp: bitfield_simps bit_simps)

lemma unat_ext_low: "0 < n \<Longrightarrow> p + n \<le> 32 \<Longrightarrow> unat (bit_ext_u32 (ucast s) p n) = unat (bit_cut s p n)"
proof -
  assume a: "0 < n" "p + n \<le> 32"
  have "unat (ucast (bit_ext_u32 (ucast s) p n) :: u64) = unat (bit_ext_u32 (ucast s) p n)"
    by (simp add: unsigned_ucast_eq take_bit_nat_eq_self unsigned_less [where 'a = nat, THEN less_trans])
  then show ?thesis using ext_low [OF a] by simp
qed

lemma mprv_cut:
  assumes "0 < n" "p + n \<le> 17 \<or> 18 \<le> p \<and> p + n \<le> 64"
  shows "bit_cut (s AND NOT CSR_STATUS_MPRV) p n = bit_cut s p n"
proof -
  have c: "CSR_STATUS_MPRV = 2 ^ 17" by code_simp
  have m: "bit CSR_STATUS_MPRV k \<longleftrightarrow> k = 17" for k unfolding c bit_exp_iff by auto
  have "bit (s AND NOT CSR_STATUS_MPRV) k = bit s k" if "k < 64" "k \<noteq> 17" for k
    unfolding bit_and_iff bit_not_iff m using that by simp
  with assms show ?thesis by (intro bit_cut_cong) auto
qed

definition mret_status :: "u64 \<Rightarrow> u64" where
  "mret_status s =
     (let s' = (if unat (bit_cut s 11 2) < RISCV_PRIV_MACHINE then s AND NOT CSR_STATUS_MPRV else s)
      in bit_replace (bit_replace (bit_replace s' 11 2 0) 3 1 (bit_cut s 7 1)) 7 1 1)"

definition sret_status :: "u64 \<Rightarrow> u64" where
  "sret_status s = bit_replace (bit_replace (bit_replace s 8 1 0) 1 1 (bit_cut s 5 1)) 5 1 1"

lemma set_status_twice: "set_status (set_status vm a) b = set_status vm b"
  by (simp add: set_status_def upd_csr_def)

lemma insn_mret_eq:
  "insn_mret vm = riscv_hart_check_interrupts (riscv_switch_priv
     (set_pc (set_status vm (mret_status (status vm))) (csr_epc (csr vm) RISCV_PRIV_MACHINE - 4))
     (unat (bit_cut (status vm) 11 2)))"
  by (simp add: insn_mret_def mret_status_def ext_low unat_ext_low set_status_twice bit_cut_replace_other mprv_cut [simplified] Let_def)

lemma insn_sret_eq:
  "insn_sret vm = riscv_hart_check_interrupts (riscv_switch_priv
     (set_pc (set_status vm (sret_status (status vm))) (csr_epc (csr vm) RISCV_PRIV_SUPERVISOR - 4))
     (unat (bit_cut (status vm) 8 1)))"
  by (simp add: insn_sret_def sret_status_def ext_low unat_ext_low set_status_twice bit_cut_replace_other Let_def)

lemma check_interrupts_frame [simp]:
  "registers (riscv_hart_check_interrupts vm) = registers vm" "csr (riscv_hart_check_interrupts vm) = csr vm"
  "priv_mode (riscv_hart_check_interrupts vm) = priv_mode vm" "host (riscv_hart_check_interrupts vm) = host vm"
  "trap (riscv_hart_check_interrupts vm) = trap vm" "mmu_mode (riscv_hart_check_interrupts vm) = mmu_mode vm"
  "root_page_table (riscv_hart_check_interrupts vm) = root_page_table vm"
  "trap_pc (riscv_hart_check_interrupts vm) = trap_pc vm"
  by (simp_all add: riscv_hart_check_interrupts_def)

lemma set_pc_frame [simp]:
  "csr (set_pc vm pc) = csr vm" "priv_mode (set_pc vm pc) = priv_mode vm" "registers (set_pc vm pc) = (registers vm)(32 := pc)"
  "mmu_mode (set_pc vm pc) = mmu_mode vm" "root_page_table (set_pc vm pc) = root_page_table vm"
  "host (set_pc vm pc) = host vm" "trap (set_pc vm pc) = trap vm"
  "trap_pc (set_pc vm pc) = trap_pc vm"
  by (simp_all add: set_pc_def set_reg_def)


section \<open>Control state stays legal\<close>

text \<open>Legal control state: legal CSRs, an existing privilege mode, and, if the flag is set, an even
  program counter.\<close>

definition control_legal :: "bool \<Rightarrow> 'd machine \<Rightarrow> 'd hart \<Rightarrow> bool" where
  "control_legal ev m vm \<longleftrightarrow> csr_legal ev m vm \<and> priv_mode vm \<in> {0, 1, 3} \<and> (ev \<longrightarrow> \<not> bit (reg_pc vm) 0)
     \<and> (ev \<and> trap vm \<longrightarrow> \<not> bit (trap_pc vm) 0)"

lemma within_replace1: "within v m \<Longrightarrow> bit m pos \<Longrightarrow> pos < 64 \<Longrightarrow> within (bit_replace v pos (Suc 0) f) m"
  unfolding within_bits
proof (intro allI impI)
  fix n assume v: "\<forall>n. bit v n \<longrightarrow> bit m n" "bit m pos" "pos < 64" and b: "bit (bit_replace v pos (Suc 0) f) n"
  show "bit m n"
  proof (cases "n = pos")
    case False
    then have "bit (bit_replace v pos (Suc 0) f) n = bit v n"
      using v(3) bit_imp_le_length [of v n] by (auto simp: bitfield_simps)
    with b v(1) show ?thesis by simp
  qed (simp add: v(2))
qed

lemma mstatus_flags: "within v CSR_MSTATUS_MASK \<Longrightarrow> pos \<in> {1, 3, 5, 7, 8} \<Longrightarrow> within (bit_replace v pos (Suc 0) f) CSR_MSTATUS_MASK"
proof -
  assume w: "within v CSR_MSTATUS_MASK" and p: "pos \<in> {1, 3, 5, 7, 8}"
  have "list_all (bit CSR_MSTATUS_MASK) [1, 3, 5, 7, 8]" by code_simp
  with p have "bit CSR_MSTATUS_MASK pos" "pos < 64" by auto
  with w show ?thesis by (rule within_replace1)
qed

lemma status_ok_flag:
  "status_ok m s \<Longrightarrow> pos \<in> {1, 3, 5, 7, 8} \<Longrightarrow> status_ok m (bit_replace s pos (Suc 0) f)"
  unfolding status_ok_def using mstatus_flags [of s pos f] by (auto simp: bit_cut_replace_other)

lemma status_ok_mpp:
  assumes "status_ok m s" "f AND mask 2 \<noteq> 2"
  shows "status_ok m (bit_replace s 11 2 f)"
  using assms within_status_fields [of s 11 f] by (simp add: status_ok_def bit_cut_replace_same bit_cut_replace_other)

lemma status_ok_trap:
  assumes "status_ok m s" "cur \<in> {0, 1, 3}" "p \<in> {1, 3}"
  shows "status_ok m (trap_status p cur s)"
proof -
  have "of_nat cur AND mask 2 \<noteq> (2 :: u64)" using assms(2) by (auto simp: mask_numeral)
  moreover have "p = 1 \<or> p = 3" using assms(3) by simp
  ultimately show ?thesis using assms(1) by (elim disjE) (simp_all add: trap_status_def status_ok_flag status_ok_mpp)
qed

lemma status_ok_returns:
  assumes "status_ok m s"
  shows "status_ok m (mret_status s)" "status_ok m (sret_status s)"
proof -
  have "within s CSR_MSTATUS_MASK" using assms by (simp add: status_ok_def)
  then have "within (s AND NOT CSR_STATUS_MPRV) CSR_MSTATUS_MASK" unfolding within_bits by (simp add: bit_and_iff)
  then have "status_ok m (s AND NOT CSR_STATUS_MPRV)"
    using assms by (simp add: status_ok_def mprv_cut [simplified])
  then show "status_ok m (mret_status s)" "status_ok m (sret_status s)"
    using assms by (simp_all add: mret_status_def sret_status_def Let_def status_ok_flag status_ok_mpp)
qed

lemma csr_legal_status: "csr_legal ev m vm \<Longrightarrow> status_ok m s \<Longrightarrow> csr_legal ev m (set_status vm s)"
  by (simp add: csr_legal_def Let_def)

lemma csr_legal_pc: "csr_legal ev m (set_pc vm pc) = csr_legal ev m vm"
  by (rule csr_legal_frame) simp_all

lemma legal_previous_mode: "csr_legal ev m vm \<Longrightarrow> unat (bit_cut (status vm) 11 2) \<in> {0, 1, 3}"
proof -
  assume "csr_legal ev m vm"
  then have "bit_cut (status vm) 11 2 \<noteq> 2" by (simp add: csr_legal_def status_ok_def Let_def)
  then have "unat (bit_cut (status vm) 11 2) \<noteq> 2" using word_unat_eq_iff [of "bit_cut (status vm) 11 2" 2] by simp
  moreover have "unat (bit_cut (status vm) 11 2) < 4" using unat_bit_cut_less [of 11 2 "status vm"] by simp
  ultimately show ?thesis by auto
qed

lemma legal_trap_target:
  assumes "csr_legal ev m vm" "priv_mode vm \<in> {0, 1, 3}" "unat cause < 32"
  shows "trap_target (csr_edeleg (csr vm)) (priv_mode vm) cause RISCV_PRIV_MACHINE \<in> {1, 3}"
proof -
  have e: "csr_edeleg (csr vm) 2 = 0xFFFFFFFF" "csr_edeleg (csr vm) 1 = 0"
    using assms(1) by (simp_all add: csr_legal_def Let_def)
  have "list_all (\<lambda>n. (0xFFFFFFFF :: u64) AND shl 1 n \<noteq> 0) [0..<32]" by code_simp
  from list_all_uptD [OF this assms(3)] have n: "(0xFFFFFFFF :: u64) AND shl 1 (unat cause) \<noteq> 0" .
  have t: "trap_target d cur cause 3 =
      (if 3 > cur \<and> d 3 AND shl 1 (unat cause) \<noteq> 0
       then (if 2 > cur \<and> d 2 AND shl 1 (unat cause) \<noteq> 0
             then (if 1 > cur \<and> d 1 AND shl 1 (unat cause) \<noteq> 0 then 0 else 1) else 2)
       else 3)" for d cur
    by (simp add: numeral_3_eq_3 numeral_2_eq_2)
  show ?thesis unfolding t e using assms(2) n by auto
qed

lemma csr_legal_record:
  assumes "csr_legal ev m vm" "ev \<longrightarrow> \<not> bit pc 0"
  shows "csr_legal ev m (upd_csr (\<lambda>c. c\<lparr>csr_epc := (csr_epc c)(p := pc), csr_cause := (csr_cause c)(p := x),
    csr_tval := (csr_tval c)(p := y)\<rparr>) vm)"
  using assms by (simp add: csr_legal_def Let_def)

lemma csr_legal_user:
  "csr_legal ev m vm \<Longrightarrow> csr_legal ev m (upd_csr (\<lambda>c. c\<lparr>csr_cause := (csr_cause c)(p := x), csr_tval := (csr_tval c)(p := y)\<rparr>) vm)"
  by (simp add: csr_legal_def Let_def)

lemma csr_legal_restart [simp]:
  "csr_legal ev m (riscv_restart_at_pc vm pc) = csr_legal ev m vm" "csr_legal ev m (vm\<lparr>trap_pc := pc\<rparr>) = csr_legal ev m vm"
  by (rule csr_legal_frame; simp)+

lemma and_not_3_even: "\<not> bit (x AND NOT 3 :: u64) 0"
  by (simp add: bit_simps)

lemma legal_trap:
  assumes "control_legal ev m vm" "unat cause < 32"
  shows "control_legal ev m (riscv_trap vm cause tval)"
proof -
  have l: "csr_legal ev m vm" "priv_mode vm \<in> {0, 1, 3}" "ev \<longrightarrow> \<not> bit (reg_pc vm) 0"
    using assms(1) by (simp_all add: control_legal_def)
  define p where "p = trap_target (csr_edeleg (csr vm)) (priv_mode vm) cause RISCV_PRIV_MACHINE"
  have p: "p \<in> {1, 3}" unfolding p_def by (rule legal_trap_target [OF l(1,2) assms(2)])
  let ?vm1 = "upd_csr (\<lambda>c. c\<lparr>csr_epc := (csr_epc c)(p := reg_pc vm), csr_cause := (csr_cause c)(p := ucast cause),
      csr_tval := (csr_tval c)(p := tval)\<rparr>) vm"
  have c: "csr_legal ev m (set_status ?vm1 (trap_status p (priv_mode vm) (status vm)))"
    using l p by (intro csr_legal_status csr_legal_record status_ok_trap)
      (simp_all add: csr_legal_def Let_def)
  show ?thesis
  proof (cases "trap vm \<or> userland vm")
    case True
    then show ?thesis
      using assms(1) l by (auto simp: riscv_trap_def control_legal_def Let_def reg_pc_def intro!: csr_legal_user)
  next
    case False
    then show ?thesis
      using c p l by (auto simp: riscv_trap_def control_legal_def p_def [symmetric] trap_priv_helper_eq and_not_3_even [simplified] reg_pc_def Let_def)
  qed
qed

lemma legal_irq_target:
  assumes "csr_legal ev m vm" "pending \<noteq> 0" "irq_target (csr_ideleg (csr vm)) RISCV_PRIV_MACHINE pending = (p, irqs)"
  shows "p \<in> {1, 3}"
proof -
  have e: "csr_ideleg (csr vm) 2 = 0xFFFFFFFF" "csr_ideleg (csr vm) 1 = 0"
    using assms(1) by (simp_all add: csr_legal_def Let_def)
  have all: "(ucast (0xFFFFFFFF :: u64) :: u32) = -1" by code_simp
  have t: "irq_target d 3 pending =
      (let irqs = pending AND NOT (ucast (d 3)) in if irqs \<noteq> 0 then (3, irqs)
       else let pending = pending AND ucast (d 3); irqs = pending AND NOT (ucast (d 2)) in if irqs \<noteq> 0 then (2, irqs)
       else let pending = pending AND ucast (d 2); irqs = pending AND NOT (ucast (d 1)) in if irqs \<noteq> 0 then (1, irqs)
       else (0, 0))" for d
    by (simp add: numeral_3_eq_3 numeral_2_eq_2 Let_def)
  have split: "pending = (pending AND NOT (ucast (csr_ideleg (csr vm) 3))) OR (pending AND ucast (csr_ideleg (csr vm) 3))"
    by (intro bit_word_eqI) (auto simp: bit_simps)
  show ?thesis
    using assms(2,3) split unfolding t e all by (auto simp: Let_def split: if_splits)
qed

lemma legal_handle_irqs:
  assumes "control_legal ev m vm"
  shows "control_legal ev m (riscv_handle_irqs vm)"
proof -
  have l: "csr_legal ev m vm" "priv_mode vm \<in> {0, 1, 3}" "ev \<longrightarrow> \<not> bit (reg_pc vm) 0"
    using assms by (simp_all add: control_legal_def)
  obtain p irqs where t: "irq_target (csr_ideleg (csr vm)) RISCV_PRIV_MACHINE (riscv_interrupts_pending vm) = (p, irqs)"
    by fastforce
  show ?thesis
  proof (cases "riscv_interrupts_pending vm = 0 \<or> priv_mode vm > p \<or> priv_mode vm = p \<and> shl 1 (priv_mode vm) AND status vm = 0")
    case True
    then show ?thesis using assms t by (auto simp: riscv_handle_irqs_def Let_def)
  next
    case False
    have p: "p \<in> {1, 3}" using False by (intro legal_irq_target [OF l(1) _ t]) simp
    let ?vm1 = "riscv_switch_priv (set_status vm (trap_status p (priv_mode vm) (status vm))) p"
    have pc: "reg_pc ?vm1 = reg_pc vm" by (simp add: reg_pc_def)
    have c: "csr_legal ev m (upd_csr (\<lambda>c. c\<lparr>csr_epc := (csr_epc c)(p := reg_pc vm), csr_cause := (csr_cause c)(p := x),
        csr_tval := (csr_tval c)(p := 0)\<rparr>) ?vm1)" for x
      using l p by (intro csr_legal_record) (auto intro!: csr_legal_status status_ok_trap simp: csr_legal_def Let_def)
    have odd: "\<not> bit ((x AND NOT 3) + ucast (shl (y :: u32) 2) :: u64) 0" for x y
    proof -
      have "\<not> bit (ucast (shl y 2) :: u64) 0" by (simp add: bit_simps)
      then show ?thesis using and_not_3_even [of x] unfolding bit_0 by simp
    qed
    show ?thesis
      using False t c pc p assms and_not_3_even odd [of _ "bit_clz32 irqs XOR 31"]
      by (auto simp: riscv_handle_irqs_def control_legal_def trap_priv_helper_eq csr_legal_pc reg_pc_def Let_def)
  qed
qed

lemma legal_return:
  assumes "control_legal ev m vm"
  shows "control_legal ev m (insn_mret vm)" "control_legal ev m (insn_sret vm)"
proof -
  have l: "csr_legal ev m vm" "ev \<longrightarrow> \<not> bit (csr_epc (csr vm) 3) 0" "ev \<longrightarrow> \<not> bit (csr_epc (csr vm) 1) 0" "status_ok m (status vm)"
    using assms by (simp_all add: control_legal_def csr_legal_def Let_def)
  have s: "unat (bit_cut (status vm) 8 1) \<in> {0, 1, 3}" using unat_bit_cut_less [of 8 1 "status vm"] by auto
  have e: "\<not> bit (x - 4 :: u64) 0 \<longleftrightarrow> \<not> bit x 0" for x unfolding bit_0 by simp
  show "control_legal ev m (insn_mret vm)" "control_legal ev m (insn_sret vm)"
    using assms l legal_previous_mode [OF l(1)] s status_ok_returns [OF l(4)]
    by (auto simp: control_legal_def insn_mret_eq insn_sret_eq csr_legal_pc csr_legal_status e reg_pc_def)
qed

lemma tlb_flush_page_frame [simp]:
  "registers (riscv_tlb_flush_page vm a) = registers vm" "csr (riscv_tlb_flush_page vm a) = csr vm"
  "priv_mode (riscv_tlb_flush_page vm a) = priv_mode vm" "mmu_mode (riscv_tlb_flush_page vm a) = mmu_mode vm"
  "root_page_table (riscv_tlb_flush_page vm a) = root_page_table vm" "trap (riscv_tlb_flush_page vm a) = trap vm"
  "trap_pc (riscv_tlb_flush_page vm a) = trap_pc vm" "host (riscv_tlb_flush_page vm a) = host vm"
  by (simp_all add: riscv_tlb_flush_page_def Let_def)

lemma csr_legal_write_reg [simp]: "csr_legal ev m (set_reg vm r v) = csr_legal ev m vm"
  by (rule csr_legal_frame) (simp_all add: set_reg_def)


section \<open>CSR operations and the rest of the hart\<close>

text \<open>
  What the CSR operations do to a hart, as a contract: a predicate that the few ways in which they
  change it keep, holds after every CSR operation.
\<close>

locale csr_invariant =
  fixes R :: "'d hart \<Rightarrow> bool"
  assumes dispatch: "R h \<Longrightarrow> R (riscv_restart_dispatch h)" and flush: "R h \<Longrightarrow> R (riscv_tlb_flush h)"
    and csr_write: "R h \<Longrightarrow> R (upd_csr f h)" and aia_write: "R h \<Longrightarrow> R (aia_upd smode fa h)"
    and irq: "R h \<Longrightarrow> R (riscv_interrupt h i)" and irq_clear: "R h \<Longrightarrow> R (riscv_interrupt_clear h i)"
    and timer: "R h \<Longrightarrow> R (h\<lparr>stimecmp := t\<rparr>)" and mode: "R h \<Longrightarrow> R (h\<lparr>mmu_mode := n\<rparr>)"
    and root: "R h \<Longrightarrow> R (h\<lparr>root_page_table := shl r 12\<rparr>)" and width: "R h \<Longrightarrow> R (h\<lparr>rv64 := w\<rparr>)"
begin

lemma control:
  "R h \<Longrightarrow> R (set_status h s)" "R h \<Longrightarrow> R (riscv_hart_check_interrupts h)" "R h \<Longrightarrow> R (riscv_update_xlen h)"
  by (simp_all add: set_status_def csr_write riscv_hart_check_interrupts_def dispatch riscv_update_xlen_def width Let_def)

lemma aia_internal: "R h \<Longrightarrow> R (snd (riscv_update_aia_internal h s u c))"
  by (rule update_aia_inv [where P = R]) (simp_all add: aia_write irq irq_clear)

lemma aia_helper: "R h \<Longrightarrow> R (snd (snd (riscv_csr_aia_helper h s g p d op)))"
  by (simp add: riscv_csr_aia_helper_def riscv_update_aia_state_def aia_internal aia_write Let_def case_prod_beta)

lemma aia_pair_helper: "R h \<Longrightarrow> R (snd (snd (riscv_csr_aia_pair_helper h s r gp pp d op)))"
  by (simp add: riscv_csr_aia_pair_helper_def riscv_update_aia_state_def aia_internal aia_write aia_helper Let_def case_prod_beta)

lemma indirect: "R h \<Longrightarrow> R (snd (snd (riscv_csr_indirect h p csri d op)))"
  by (simp add: riscv_csr_indirect_def aia_helper aia_pair_helper riscv_csr_zero_def riscv_csr_const_def Let_def)

lemma helpers:
  assumes "R vm"
  shows "R (snd (snd (csr_via g p f vm)))" "R (snd (snd (csr_via_h g p d fh vm)))"
    "R (snd (snd (riscv_csr_const vm v)))" "R (snd (snd (riscv_csr_zero vm)))"
    "R (snd (snd (riscv_csr_zero_h vm d)))" "R (snd (snd (riscv_csr_counter vm d n)))"
    "R (snd (snd (riscv_csr_counter_h vm d n)))" "R (snd (snd (riscv_csr_seed m vm d op)))"
    "R (snd (snd (riscv_csr_misa m vm d op)))" "R (snd (snd (riscv_csr_status m vm d msk op)))"
    "R (snd (snd (riscv_csr_ie vm d msk op)))" "R (snd (snd (riscv_csr_ip vm d msk op)))"
    "R (snd (snd (riscv_csr_topi vm d msk)))" "R (snd (snd (riscv_csr_topei vm p' d op)))"
    "R (snd (snd (riscv_csr_stimecmp vm d op)))" "R (snd (snd (riscv_csr_stimecmph vm d op)))"
    "R (snd (snd (riscv_csr_satp m vm d op)))"
  using assms
  by (simp_all add: csr_via_def csr_via_h_def riscv_csr_const_def riscv_csr_zero_def riscv_csr_zero_h_def
      riscv_csr_counter_def riscv_csr_counter_h_def riscv_csr_seed_def riscv_csr_misa_def riscv_csr_status_def
      riscv_csr_ie_def riscv_csr_ip_def riscv_csr_topi_def riscv_csr_topei_def riscv_csr_stimecmp_def riscv_get_aia_irq_def
      riscv_csr_stimecmph_def riscv_csr_stimecmp_set_def riscv_csr_satp_def control dispatch flush csr_write irq irq_clear
      timer mode root aia_internal Let_def case_prod_beta del: push_bit_and split: option.splits)

lemma csr_op:
  assumes "R vm"
  shows "R (snd (snd (riscv_csr_op m vm csr_id d op)))"
proof -
  note h = helpers [OF assms] indirect [OF assms]
  have "R (snd (snd r))" if "csr_op_supervisor m vm csr_id d op = Some r" for r
    using that by (auto simp: csr_op_supervisor_def h assms Let_def split: if_splits)
  moreover have "R (snd (snd (csr_op_machine m vm csr_id d op)))"
    by (simp add: csr_op_machine_def h assms Let_def)
  ultimately show ?thesis
    by (simp add: riscv_csr_op_def riscv_csr_op_internal_def assms Let_def case_prod_beta split: option.split)
qed

end

text \<open>No CSR operation touches the registers, the privilege mode, memory or a pending trap.\<close>

definition same_core :: "'d hart \<Rightarrow> 'd hart \<Rightarrow> bool" where
  "same_core vm vm' \<longleftrightarrow> registers vm' = registers vm \<and> priv_mode vm' = priv_mode vm \<and> trap vm' = trap vm
     \<and> trap_pc vm' = trap_pc vm \<and> host vm' = host vm \<and> userland vm' = userland vm"

lemmas control_defs = riscv_hart_check_interrupts_def riscv_interrupt_def riscv_interrupt_set_def
  riscv_hart_notify_def rvvm_event_wake_def riscv_interrupt_clear_def aia_upd_def set_status_def Let_def

interpretation core: csr_invariant "same_core vm"
  by unfold_locales (auto simp: same_core_def control_defs)

lemma unat_ext_u32_less: "0 < n \<Longrightarrow> p + n \<le> 32 \<Longrightarrow> unat (bit_ext_u32 w p n) < 2 ^ n"
proof -
  assume a: "0 < n" "p + n \<le> 32"
  have "ucast (ucast w :: u64) = w" by (rule bit_word_eqI) (auto simp: bit_simps)
  then show ?thesis using unat_ext_low [OF a, of "ucast w"] unat_bit_cut_less [of p n "ucast w"] a by simp
qed

lemma legal_csr_insn:
  assumes "control_legal ev m vm"
  shows "control_legal ev m (csr_insn m vm insn val op)"
proof -
  obtain r v vm' where op: "riscv_csr_op m vm (shr insn 20) val op = (r, v, vm')" by (cases "riscv_csr_op m vm (shr insn 20) val op")
  have rd: "unat (bit_ext_u32 insn 7 5) < 32" using unat_ext_u32_less [of 5 7 insn] by simp
  have "csr_legal ev m vm'" using legal_csr_op [of ev m vm "shr insn 20" val op] assms op by (simp add: control_legal_def)
  moreover have "same_core vm vm'" using core.csr_op [of vm vm m "shr insn 20" val op] op by (simp add: same_core_def)
  ultimately have l: "control_legal ev m vm'" using assms by (simp add: control_legal_def same_core_def reg_pc_def)
  then have "control_legal ev m (riscv_illegal_insn vm' insn)"
    unfolding riscv_illegal_insn_def by (rule legal_trap) simp
  moreover have "control_legal ev m (set_reg vm' (unat (bit_ext_u32 insn 7 5)) v)"
    using l rd by (simp add: control_legal_def reg_pc_def) (simp add: set_reg_def)
  ultimately show ?thesis by (cases r) (simp_all add: csr_insn_def op)
qed

lemma legal_check_timer: "control_legal ev m vm \<Longrightarrow> control_legal ev m (riscv_hart_check_timer vm)"
proof -
  have f: "control_legal ev m (riscv_restart_dispatch h) = control_legal ev m h"
    "control_legal ev m (h\<lparr>pending_irqs := x\<rparr>) = control_legal ev m h" for h x
    by (simp_all add: control_legal_def reg_pc_def csr_legal_def)
  show "control_legal ev m vm \<Longrightarrow> control_legal ev m (riscv_hart_check_timer vm)"
    by (simp add: riscv_hart_check_timer_def riscv_interrupt_set_def f Let_def)
qed

lemma legal_wfi:
  assumes "\<And>d h. control_legal ev m h \<Longrightarrow> control_legal ev m (mc_wait m d h)"
  shows "control_legal ev m vm \<Longrightarrow> wfi_loop n m vm = Some vm' \<Longrightarrow> control_legal ev m vm'"
proof (induction n arbitrary: vm)
  case (Suc n)
  then show ?case
    using legal_check_timer [OF assms [OF Suc.prems(1)]] by (auto split: if_splits)
qed (simp split: if_splits)

lemma legal_system:
  assumes w: "\<And>d h. control_legal ev m h \<Longrightarrow> control_legal ev m (mc_wait m d h)"
    and l: "control_legal ev m vm" and r: "riscv_emulate_opc_system m vm insn = Some vm'"
  shows "control_legal ev m vm'"
proof -
  have i: "control_legal ev m (riscv_illegal_insn vm insn)" unfolding riscv_illegal_insn_def by (rule legal_trap [OF l]) simp
  have e: "control_legal ev m (riscv_trap vm (8 + of_nat (priv_mode vm)) 0)"
    using l by (intro legal_trap) (auto simp: control_legal_def)
  have b: "control_legal ev m (riscv_breakpoint m vm)"
    using legal_trap [OF l, of 3 0] l by (auto simp: riscv_breakpoint_def control_legal_def reg_pc_def)
  have f: "control_legal ev m (riscv_tlb_flush_page vm a)" "control_legal ev m (riscv_tlb_flush vm)" for a
    using l by (auto simp: control_legal_def reg_pc_def csr_legal_def)
  have wf: "insn_wfi m vm = Some vm' \<Longrightarrow> control_legal ev m vm'"
    using legal_wfi [OF w l] l by (auto simp: insn_wfi_def split: if_splits)
  show ?thesis
    using r i e b f wf l legal_return [OF l] legal_csr_insn [OF l]
    by (auto simp: riscv_emulate_opc_system_def Let_def split: if_splits)
qed

section \<open>Properties\<close>

text \<open>
  C13. Returning from a trap undoes it.  A trap taken to machine mode by a hart in a legal state,
  followed by \<^verbatim>\<open>mret\<close>, leads back to the privilege mode, the machine interrupt enable and, after
  the interpreter's increment, the program counter from before the trap; one taken to supervisor
  mode, followed by \<^verbatim>\<open>sret\<close>, does the same with the supervisor's interrupt enable.
\<close>

theorem trap_return:
  assumes "control_legal ev m vm" "\<not> trap vm" "\<not> userland vm"
    and "trap_target (csr_edeleg (csr vm)) (priv_mode vm) cause RISCV_PRIV_MACHINE = p"
    and "riscv_emulate_opc_system m (riscv_trap vm cause tval)
           (if p = RISCV_PRIV_MACHINE then RISCV_INSN_MRET else RISCV_INSN_SRET) = Some vm'"
    and "p = RISCV_PRIV_SUPERVISOR \<and> \<not> bit (status vm) 22 \<and> priv_mode vm \<le> RISCV_PRIV_SUPERVISOR \<or> p = RISCV_PRIV_MACHINE"
  shows "priv_mode vm' = priv_mode vm \<and> reg_pc vm' + 4 = reg_pc vm \<and> bit (status vm') p = bit (status vm) p"
proof -
  have mode: "priv_mode vm \<in> {0, 1, 3}" using assms(1) by (simp add: control_legal_def)
  define t where "t = riscv_trap vm cause tval"
  have t: "priv_mode t = p" "status t = trap_status p (priv_mode vm) (status vm)" "csr_epc (csr t) p = reg_pc vm"
    using assms(2-4) by (simp_all add: t_def riscv_trap_def trap_priv_helper_eq Let_def)
  have one: "of_nat n AND mask (Suc 0) = (of_nat n :: u64)" if "n \<le> 1" for n using that by (auto simp: le_Suc_eq)
  have two: "of_nat (priv_mode vm) AND mask 2 = (of_nat (priv_mode vm) :: u64)" "unat (of_nat (priv_mode vm) :: u64) = priv_mode vm"
    using mode by (auto simp: mask_numeral)
  have b: "bit x n = bit (bit_cut x n (Suc 0)) 0" if "n < 64" for x n using that by (simp add: bitfield_simps)
  show ?thesis
  proof (cases "p = RISCV_PRIV_MACHINE")
    case True
    then have "vm' = insn_mret t" using assms(5) t(1) by (simp add: riscv_emulate_opc_system_def t_def)
    moreover have "bit_cut (status t) 11 2 = of_nat (priv_mode vm)" "bit_cut (status t) 7 1 = bit_cut (status vm) 3 1"
      using True two by (simp_all add: t(2) trap_status_def bit_cut_replace_same bit_cut_replace_other)
    ultimately show ?thesis
      using True two t(3) b [of 3]
      by (simp add: insn_mret_eq mret_status_def reg_pc_def bit_cut_replace_same bit_cut_replace_other Let_def)
  next
    case False
    then have p: "p = 1" "\<not> bit (status vm) 22" "priv_mode vm \<le> 1" using assms(6) by simp_all
    have "\<not> bit (status t) 22" using p(1,2) by (simp add: t(2) trap_status_def bitfield_simps)
    then have "riscv_mstatus_allowed t CSR_STATUS_TSR"
      using and_shl_one [of "status t" 22] t(1) p(1) by (simp add: riscv_mstatus_allowed_def)
    then have "vm' = insn_sret t" using assms(5) False by (simp add: riscv_emulate_opc_system_def t_def)
    moreover have "bit_cut (status t) 8 1 = of_nat (priv_mode vm)" "bit_cut (status t) 5 1 = bit_cut (status vm) 1 1"
      using p one [of "priv_mode vm"] by (simp_all add: t(2) trap_status_def bit_cut_replace_same bit_cut_replace_other)
    ultimately show ?thesis
      using p two t(3) b [of 1]
      by (simp add: insn_sret_eq sret_status_def reg_pc_def bit_cut_replace_same bit_cut_replace_other Let_def)
  qed
qed

text \<open>A hart in supervisor mode as the firmware leaves it, with machine interrupts enabled.\<close>

definition hart_smode :: "unit hart" where
  "hart_smode = riscv_csr_init ((hart_zero ())\<lparr>rv64 := True, priv_mode := RISCV_PRIV_SUPERVISOR,
     registers := (\<lambda>_. 0)(RISCV_REG_PC := 0x80000000)\<rparr>)"

lemma hart_smode_legal: "control_legal True machine_bare hart_smode"
proof -
  have "csr_legal True machine_bare hart_smode"
    unfolding hart_smode_def by (rule csr_init_legal) (simp_all add: machine_bare_def hart_zero_def)
  moreover have "priv_mode hart_smode = 1" "\<not> bit (reg_pc hart_smode) 0" "\<not> trap hart_smode" by code_simp+
  ultimately show ?thesis by (simp add: control_legal_def)
qed

theorem trap_return_witness:
  "\<exists>vm'. riscv_emulate_opc_system machine_bare (riscv_trap hart_smode 2 0) RISCV_INSN_MRET = Some vm'
     \<and> priv_mode vm' = RISCV_PRIV_SUPERVISOR \<and> reg_pc vm' + 4 = 0x80000000"
proof -
  have t: "trap_target (csr_edeleg (csr hart_smode)) (priv_mode hart_smode) 2 RISCV_PRIV_MACHINE = RISCV_PRIV_MACHINE"
    "\<not> trap hart_smode" "\<not> userland hart_smode" "reg_pc hart_smode = 0x80000000" "priv_mode hart_smode = RISCV_PRIV_SUPERVISOR"
    by code_simp+
  have "priv_mode (riscv_trap hart_smode 2 0) = RISCV_PRIV_MACHINE"
    using t(1-3) by (simp add: riscv_trap_def trap_priv_helper_eq Let_def)
  then have "riscv_emulate_opc_system machine_bare (riscv_trap hart_smode 2 0) RISCV_INSN_MRET = Some (insn_mret (riscv_trap hart_smode 2 0))"
    by (simp add: riscv_emulate_opc_system_def)
  with trap_return [OF hart_smode_legal t(2,3,1), of 0] t(4,5) show ?thesis by auto
qed

definition privileged_insn :: "u32 \<Rightarrow> bool" where
  "privileged_insn insn \<longleftrightarrow> insn = RISCV_INSN_SRET \<or> insn = RISCV_INSN_MRET \<or> insn = RISCV_INSN_WFI
     \<or> insn AND RISCV_SFENCE_MASK = RISCV_SFENCE_VMA
     \<or> bit_ext_u32 insn 12 3 \<in> {1, 2, 3, 5, 6, 7} \<and> riscv_csr_privilege (shr insn 20) > RISCV_PRIV_USER"

text \<open>
  C14. User mode executes no privileged instruction: \<^verbatim>\<open>sret\<close>, \<^verbatim>\<open>mret\<close>, \<^verbatim>\<open>wfi\<close>, \<^verbatim>\<open>sfence.vma\<close> and
  accesses to CSRs of a more privileged mode do nothing but raise an illegal instruction trap.
\<close>

theorem user_mode_confined:
  assumes "priv_mode vm = RISCV_PRIV_USER" "privileged_insn insn"
  shows "riscv_emulate_opc_system m vm insn = Some (riscv_illegal_insn vm insn)"
proof -
  have e: "bit_ext_u32 RISCV_INSN_ECALL 12 3 = 0" "bit_ext_u32 RISCV_INSN_EBREAK 12 3 = 0"
    "bit_ext_u32 RISCV_INSN_SRET 12 3 = 0" "bit_ext_u32 RISCV_INSN_MRET 12 3 = 0" "bit_ext_u32 RISCV_INSN_WFI 12 3 = 0"
    "bit_ext_u32 RISCV_INSN_WRS_NT 12 3 = 0" "bit_ext_u32 RISCV_INSN_WRS_ST 12 3 = 0"
    by code_simp+
  have f: "bit_ext_u32 insn 12 3 = 0" if "insn AND RISCV_SFENCE_MASK = RISCV_SFENCE_VMA"
  proof (rule bit_word_eqI)
    fix n assume "n < LENGTH(32)"
    have "\<not> bit insn (12 + n)" if "n < 3" for n
    proof -
      have "list_all (\<lambda>k. bit RISCV_SFENCE_MASK (12 + k) \<and> \<not> bit RISCV_SFENCE_VMA (12 + k)) [0..<3]" by code_simp
      from list_all_uptD [OF this \<open>n < 3\<close>] have "bit RISCV_SFENCE_MASK (12 + n)" "\<not> bit RISCV_SFENCE_VMA (12 + n)" by auto
      then show ?thesis
        using arg_cong [OF \<open>insn AND RISCV_SFENCE_MASK = RISCV_SFENCE_VMA\<close>, of "\<lambda>w. bit w (12 + n)"]
        by (simp only: bit_and_iff) simp
    qed
    then show "bit (bit_ext_u32 insn 12 3) n = bit 0 n" by (auto simp: bitfield_simps)
  qed
  have c: "riscv_csr_op m vm (shr insn 20) val op = (False, val, vm)" if "riscv_csr_privilege (shr insn 20) > RISCV_PRIV_USER" for val op
    using that assms(1) by (simp add: riscv_csr_op_def)
  note sys = riscv_emulate_opc_system_def riscv_mstatus_allowed_def assms(1) Let_def
  consider "insn \<in> {RISCV_INSN_SRET, RISCV_INSN_MRET, RISCV_INSN_WFI}" | "insn AND RISCV_SFENCE_MASK = RISCV_SFENCE_VMA"
    | "bit_ext_u32 insn 12 3 \<in> {1, 2, 3, 5, 6, 7}" "riscv_csr_privilege (shr insn 20) > RISCV_PRIV_USER"
    using assms(2) unfolding privileged_insn_def by (elim disjE conjE) simp_all
  then show ?thesis
  proof cases
    case 1
    then show ?thesis using e by (elim insertE emptyE) (simp_all add: sys)
  next
    case 2
    then have "insn \<noteq> RISCV_INSN_ECALL" "insn \<noteq> RISCV_INSN_EBREAK" "insn \<noteq> RISCV_INSN_WRS_NT" "insn \<noteq> RISCV_INSN_WRS_ST"
      by auto
    then show ?thesis using f [OF 2] by (simp add: sys)
  next
    case 3
    have n: "insn \<noteq> k" if "bit_ext_u32 k 12 3 = 0" for k using 3(1) that by auto
    show ?thesis using 3(1) by (elim insertE emptyE) (simp_all add: sys n e csr_insn_def c [OF 3(2)])
  qed
qed

theorem user_mode_confined_witness:
  "riscv_emulate_opc_system machine_bare (hart_zero ()) RISCV_INSN_MRET = Some (riscv_illegal_insn (hart_zero ()) RISCV_INSN_MRET)"
  by (rule user_mode_confined) (simp_all add: hart_zero_def privileged_insn_def)



text \<open>
  \<^verbatim>\<open>sret\<close> executed in machine mode leaves MPRV set.  If the previous machine mode is machine
  mode, data accesses of the less privileged mode it returns to bypass translation and protection:
  they are made with physical addresses.
\<close>

theorem sret_keeps_mprv:
  assumes "priv_mode vm = RISCV_PRIV_MACHINE" "bit (status vm) 17" "bit_cut (status vm) 11 2 = 3"
  shows "\<exists>vm'. riscv_emulate_opc_system m vm RISCV_INSN_SRET = Some vm' \<and> priv_mode vm' < RISCV_PRIV_MACHINE
    \<and> riscv_mmu_translate vm' vaddr RISCV_MMU_WRITE = (Some vaddr, vm')"
proof -
  have p: "unat (bit_cut (status vm) 8 1) < RISCV_PRIV_MACHINE" using unat_bit_cut_less [of 8 1 "status vm"] by simp
  have "bit (sret_status (status vm)) 17" "bit_cut (sret_status (status vm)) 11 2 = 3"
    using assms by (simp_all add: sret_status_def bitfield_simps bit_cut_replace_other)
  then have "eff_priv (insn_sret vm) RISCV_MMU_WRITE = RISCV_PRIV_MACHINE"
    by (simp add: insn_sret_eq eff_priv_def)
  moreover have "priv_mode (insn_sret vm) < RISCV_PRIV_MACHINE" using p by (simp add: insn_sret_eq)
  moreover have "riscv_emulate_opc_system m vm RISCV_INSN_SRET = Some (insn_sret vm)"
    using assms(1) by (simp add: riscv_emulate_opc_system_def riscv_mstatus_allowed_def)
  ultimately show ?thesis by (simp add: mmu_translate_eq)
qed

theorem sret_keeps_mprv_witness:
  "let vm = set_status ((hart_zero ())\<lparr>priv_mode := RISCV_PRIV_MACHINE, mmu_mode := 8\<rparr>) 0x21800 in
   \<exists>vm'. riscv_emulate_opc_system machine_bare vm RISCV_INSN_SRET = Some vm' \<and> priv_mode vm' < RISCV_PRIV_MACHINE
    \<and> riscv_mmu_translate vm' 0x1000 RISCV_MMU_WRITE = (Some 0x1000, vm')"
proof -
  let ?vm = "set_status ((hart_zero ())\<lparr>priv_mode := RISCV_PRIV_MACHINE, mmu_mode := 8\<rparr>) 0x21800"
  have "bit (status ?vm) 17" "bit_cut (status ?vm) 11 2 = 3" "priv_mode ?vm = RISCV_PRIV_MACHINE" by code_simp+
  from sret_keeps_mprv [OF this(3,1,2)] show ?thesis unfolding Let_def by blast
qed

end
