(* ===== verification/Atomics.thy ===== *)
theory Atomics
  imports Priv
begin

text \<open>
  Atomic memory operations: the host primitives of \<^verbatim>\<open>src/util/atomics.h\<close> on a little-endian host,
  and the AMO opcode of \<^verbatim>\<open>src/cpu/riscv_atomics.h\<close> (extensions A, Zabha and Zacas).

  A primitive takes the memory, an address and its operands, and returns the value the C function
  returns with the new memory.  The model follows one hart, so that a primitive is one step; what
  other threads write to memory happens between instructions.

  The interpreter is a template: \<^verbatim>\<open>riscv32_interpreter.c\<close> and \<^verbatim>\<open>riscv64_interpreter.c\<close> include
  the same headers with \<^verbatim>\<open>xlen_t\<close> of 32 or 64 bits.  Its functions here take the word type of
  \<^verbatim>\<open>xlen_t\<close> as their first argument, and \<open>riscv64\<close> decides the conditional compilation.
\<close>

definition riscv64 :: "'x::len itself \<Rightarrow> bool" where
  "riscv64 xl \<longleftrightarrow> LENGTH('x) = 64"

lemma riscv64_simps [simp]: "riscv64 TYPE(64)" "\<not> riscv64 TYPE(32)"
  by (simp_all add: riscv64_def)

section \<open>Host atomics\<close>

text \<open>
  The common bodies are compare-and-swap and fetch-and-modify.  The minima and maxima of the source
  load the value and retry until a compare-and-swap on it succeeds; with memory unchanged in
  between the first one does (\<open>cas_loaded\<close> below), so that the body of the loop runs once.
\<close>

definition atomic_cas :: "(host_mem \<Rightarrow> u64 \<Rightarrow> 'w) \<Rightarrow> (host_mem \<Rightarrow> u64 \<Rightarrow> 'w \<Rightarrow> host_mem) \<Rightarrow>
    host_mem \<Rightarrow> u64 \<Rightarrow> 'w \<Rightarrow> 'w \<Rightarrow> bool \<times> 'w \<times> host_mem" where
  "atomic_cas rd wr h addr exp val =
     (let orig = rd h addr in if orig = exp then (True, orig, wr h addr val) else (False, orig, h))"

definition atomic_fetch :: "(host_mem \<Rightarrow> u64 \<Rightarrow> 'w) \<Rightarrow> (host_mem \<Rightarrow> u64 \<Rightarrow> 'w \<Rightarrow> host_mem) \<Rightarrow> ('w \<Rightarrow> 'w \<Rightarrow> 'w) \<Rightarrow>
    host_mem \<Rightarrow> u64 \<Rightarrow> 'w \<Rightarrow> 'w \<times> host_mem" where
  "atomic_fetch rd wr f h addr val = (rd h addr, wr h addr (f (rd h addr) val))"

definition atomic_cas_uint8_ex :: "host_mem \<Rightarrow> u64 \<Rightarrow> u8 \<Rightarrow> u8 \<Rightarrow> bool \<times> u8 \<times> host_mem" where
  "atomic_cas_uint8_ex = atomic_cas read_uint8 write_uint8"

definition atomic_swap_uint8 :: "host_mem \<Rightarrow> u64 \<Rightarrow> u8 \<Rightarrow> u8 \<times> host_mem" where
  "atomic_swap_uint8 = atomic_fetch read_uint8 write_uint8 (\<lambda>_ val. val)"

definition atomic_add_uint8 :: "host_mem \<Rightarrow> u64 \<Rightarrow> u8 \<Rightarrow> u8 \<times> host_mem" where
  "atomic_add_uint8 = atomic_fetch read_uint8 write_uint8 (+)"

definition atomic_and_uint8 :: "host_mem \<Rightarrow> u64 \<Rightarrow> u8 \<Rightarrow> u8 \<times> host_mem" where
  "atomic_and_uint8 = atomic_fetch read_uint8 write_uint8 (AND)"

definition atomic_or_uint8 :: "host_mem \<Rightarrow> u64 \<Rightarrow> u8 \<Rightarrow> u8 \<times> host_mem" where
  "atomic_or_uint8 = atomic_fetch read_uint8 write_uint8 (OR)"

definition atomic_xor_uint8 :: "host_mem \<Rightarrow> u64 \<Rightarrow> u8 \<Rightarrow> u8 \<times> host_mem" where
  "atomic_xor_uint8 = atomic_fetch read_uint8 write_uint8 (XOR)"

definition atomic_max_int8 :: "host_mem \<Rightarrow> u64 \<Rightarrow> u16 \<Rightarrow> u16 \<times> host_mem" where
  "atomic_max_int8 h addr val =
     (let tmp = ucast (read_uint8 h addr) :: u16;
          (_, _, h) = atomic_cas_uint8_ex h addr (ucast tmp) (ucast (if sint tmp > sint val then tmp else val))
      in (tmp, h))"

definition atomic_min_int8 :: "host_mem \<Rightarrow> u64 \<Rightarrow> u16 \<Rightarrow> u16 \<times> host_mem" where
  "atomic_min_int8 h addr val =
     (let tmp = ucast (read_uint8 h addr) :: u16;
          (_, _, h) = atomic_cas_uint8_ex h addr (ucast tmp) (ucast (if sint tmp < sint val then tmp else val))
      in (tmp, h))"

definition atomic_maxu_uint8 :: "host_mem \<Rightarrow> u64 \<Rightarrow> u16 \<Rightarrow> u16 \<times> host_mem" where
  "atomic_maxu_uint8 h addr val =
     (let tmp = ucast (read_uint8 h addr) :: u16;
          (_, _, h) = atomic_cas_uint8_ex h addr (ucast tmp) (ucast (if tmp > val then tmp else val))
      in (tmp, h))"

definition atomic_minu_uint8 :: "host_mem \<Rightarrow> u64 \<Rightarrow> u16 \<Rightarrow> u16 \<times> host_mem" where
  "atomic_minu_uint8 h addr val =
     (let tmp = ucast (read_uint8 h addr) :: u16;
          (_, _, h) = atomic_cas_uint8_ex h addr (ucast tmp) (ucast (if tmp < val then tmp else val))
      in (tmp, h))"

definition atomic_cas_uint16_ex :: "host_mem \<Rightarrow> u64 \<Rightarrow> u16 \<Rightarrow> u16 \<Rightarrow> bool \<times> u16 \<times> host_mem" where
  "atomic_cas_uint16_ex = atomic_cas read_uint16_le write_uint16_le"

definition atomic_swap_uint16_le :: "host_mem \<Rightarrow> u64 \<Rightarrow> u16 \<Rightarrow> u16 \<times> host_mem" where
  "atomic_swap_uint16_le = atomic_fetch read_uint16_le write_uint16_le (\<lambda>_ val. val)"

definition atomic_add_uint16_le :: "host_mem \<Rightarrow> u64 \<Rightarrow> u16 \<Rightarrow> u16 \<times> host_mem" where
  "atomic_add_uint16_le = atomic_fetch read_uint16_le write_uint16_le (+)"

definition atomic_and_uint16_le :: "host_mem \<Rightarrow> u64 \<Rightarrow> u16 \<Rightarrow> u16 \<times> host_mem" where
  "atomic_and_uint16_le = atomic_fetch read_uint16_le write_uint16_le (AND)"

definition atomic_or_uint16_le :: "host_mem \<Rightarrow> u64 \<Rightarrow> u16 \<Rightarrow> u16 \<times> host_mem" where
  "atomic_or_uint16_le = atomic_fetch read_uint16_le write_uint16_le (OR)"

definition atomic_xor_uint16_le :: "host_mem \<Rightarrow> u64 \<Rightarrow> u16 \<Rightarrow> u16 \<times> host_mem" where
  "atomic_xor_uint16_le = atomic_fetch read_uint16_le write_uint16_le (XOR)"

definition atomic_max_int16_le :: "host_mem \<Rightarrow> u64 \<Rightarrow> u16 \<Rightarrow> u16 \<times> host_mem" where
  "atomic_max_int16_le h addr val =
     (let tmp = read_uint16_le h addr;
          (_, _, h) = atomic_cas_uint16_ex h addr tmp (if sint tmp > sint val then tmp else val)
      in (tmp, h))"

definition atomic_min_int16_le :: "host_mem \<Rightarrow> u64 \<Rightarrow> u16 \<Rightarrow> u16 \<times> host_mem" where
  "atomic_min_int16_le h addr val =
     (let tmp = read_uint16_le h addr;
          (_, _, h) = atomic_cas_uint16_ex h addr tmp (if sint tmp < sint val then tmp else val)
      in (tmp, h))"

definition atomic_maxu_uint16_le :: "host_mem \<Rightarrow> u64 \<Rightarrow> u16 \<Rightarrow> u16 \<times> host_mem" where
  "atomic_maxu_uint16_le h addr val =
     (let tmp = read_uint16_le h addr;
          (_, _, h) = atomic_cas_uint16_ex h addr tmp (if tmp > val then tmp else val)
      in (tmp, h))"

definition atomic_minu_uint16_le :: "host_mem \<Rightarrow> u64 \<Rightarrow> u16 \<Rightarrow> u16 \<times> host_mem" where
  "atomic_minu_uint16_le h addr val =
     (let tmp = read_uint16_le h addr;
          (_, _, h) = atomic_cas_uint16_ex h addr tmp (if tmp < val then tmp else val)
      in (tmp, h))"

definition atomic_cas_uint32_ex :: "host_mem \<Rightarrow> u64 \<Rightarrow> u32 \<Rightarrow> u32 \<Rightarrow> bool \<times> u32 \<times> host_mem" where
  "atomic_cas_uint32_ex = atomic_cas read_uint32_le write_uint32_le"

definition atomic_swap_uint32_le :: "host_mem \<Rightarrow> u64 \<Rightarrow> u32 \<Rightarrow> u32 \<times> host_mem" where
  "atomic_swap_uint32_le = atomic_fetch read_uint32_le write_uint32_le (\<lambda>_ val. val)"

definition atomic_add_uint32_le :: "host_mem \<Rightarrow> u64 \<Rightarrow> u32 \<Rightarrow> u32 \<times> host_mem" where
  "atomic_add_uint32_le = atomic_fetch read_uint32_le write_uint32_le (+)"

definition atomic_and_uint32_le :: "host_mem \<Rightarrow> u64 \<Rightarrow> u32 \<Rightarrow> u32 \<times> host_mem" where
  "atomic_and_uint32_le = atomic_fetch read_uint32_le write_uint32_le (AND)"

definition atomic_or_uint32_le :: "host_mem \<Rightarrow> u64 \<Rightarrow> u32 \<Rightarrow> u32 \<times> host_mem" where
  "atomic_or_uint32_le = atomic_fetch read_uint32_le write_uint32_le (OR)"

definition atomic_xor_uint32_le :: "host_mem \<Rightarrow> u64 \<Rightarrow> u32 \<Rightarrow> u32 \<times> host_mem" where
  "atomic_xor_uint32_le = atomic_fetch read_uint32_le write_uint32_le (XOR)"

definition atomic_max_int32_le :: "host_mem \<Rightarrow> u64 \<Rightarrow> u32 \<Rightarrow> u32 \<times> host_mem" where
  "atomic_max_int32_le h addr val =
     (let tmp = read_uint32_le h addr;
          (_, _, h) = atomic_cas_uint32_ex h addr tmp (if sint tmp > sint val then tmp else val)
      in (tmp, h))"

definition atomic_min_int32_le :: "host_mem \<Rightarrow> u64 \<Rightarrow> u32 \<Rightarrow> u32 \<times> host_mem" where
  "atomic_min_int32_le h addr val =
     (let tmp = read_uint32_le h addr;
          (_, _, h) = atomic_cas_uint32_ex h addr tmp (if sint tmp < sint val then tmp else val)
      in (tmp, h))"

definition atomic_maxu_uint32_le :: "host_mem \<Rightarrow> u64 \<Rightarrow> u32 \<Rightarrow> u32 \<times> host_mem" where
  "atomic_maxu_uint32_le h addr val =
     (let tmp = read_uint32_le h addr;
          (_, _, h) = atomic_cas_uint32_ex h addr tmp (if tmp > val then tmp else val)
      in (tmp, h))"

definition atomic_minu_uint32_le :: "host_mem \<Rightarrow> u64 \<Rightarrow> u32 \<Rightarrow> u32 \<times> host_mem" where
  "atomic_minu_uint32_le h addr val =
     (let tmp = read_uint32_le h addr;
          (_, _, h) = atomic_cas_uint32_ex h addr tmp (if tmp < val then tmp else val)
      in (tmp, h))"

definition atomic_cas_uint64_ex :: "host_mem \<Rightarrow> u64 \<Rightarrow> u64 \<Rightarrow> u64 \<Rightarrow> bool \<times> u64 \<times> host_mem" where
  "atomic_cas_uint64_ex = atomic_cas read_uint64_le write_uint64_le"

definition atomic_swap_uint64_le :: "host_mem \<Rightarrow> u64 \<Rightarrow> u64 \<Rightarrow> u64 \<times> host_mem" where
  "atomic_swap_uint64_le = atomic_fetch read_uint64_le write_uint64_le (\<lambda>_ val. val)"

definition atomic_add_uint64_le :: "host_mem \<Rightarrow> u64 \<Rightarrow> u64 \<Rightarrow> u64 \<times> host_mem" where
  "atomic_add_uint64_le = atomic_fetch read_uint64_le write_uint64_le (+)"

definition atomic_and_uint64_le :: "host_mem \<Rightarrow> u64 \<Rightarrow> u64 \<Rightarrow> u64 \<times> host_mem" where
  "atomic_and_uint64_le = atomic_fetch read_uint64_le write_uint64_le (AND)"

definition atomic_or_uint64_le :: "host_mem \<Rightarrow> u64 \<Rightarrow> u64 \<Rightarrow> u64 \<times> host_mem" where
  "atomic_or_uint64_le = atomic_fetch read_uint64_le write_uint64_le (OR)"

definition atomic_xor_uint64_le :: "host_mem \<Rightarrow> u64 \<Rightarrow> u64 \<Rightarrow> u64 \<times> host_mem" where
  "atomic_xor_uint64_le = atomic_fetch read_uint64_le write_uint64_le (XOR)"

definition atomic_max_int64_le :: "host_mem \<Rightarrow> u64 \<Rightarrow> u64 \<Rightarrow> u64 \<times> host_mem" where
  "atomic_max_int64_le h addr val =
     (let tmp = read_uint64_le h addr;
          (_, _, h) = atomic_cas_uint64_ex h addr tmp (if sint tmp > sint val then tmp else val)
      in (tmp, h))"

definition atomic_min_int64_le :: "host_mem \<Rightarrow> u64 \<Rightarrow> u64 \<Rightarrow> u64 \<times> host_mem" where
  "atomic_min_int64_le h addr val =
     (let tmp = read_uint64_le h addr;
          (_, _, h) = atomic_cas_uint64_ex h addr tmp (if sint tmp < sint val then tmp else val)
      in (tmp, h))"

definition atomic_maxu_uint64_le :: "host_mem \<Rightarrow> u64 \<Rightarrow> u64 \<Rightarrow> u64 \<times> host_mem" where
  "atomic_maxu_uint64_le h addr val =
     (let tmp = read_uint64_le h addr;
          (_, _, h) = atomic_cas_uint64_ex h addr tmp (if tmp > val then tmp else val)
      in (tmp, h))"

definition atomic_minu_uint64_le :: "host_mem \<Rightarrow> u64 \<Rightarrow> u64 \<Rightarrow> u64 \<times> host_mem" where
  "atomic_minu_uint64_le h addr val =
     (let tmp = read_uint64_le h addr;
          (_, _, h) = atomic_cas_uint64_ex h addr tmp (if tmp < val then tmp else val)
      in (tmp, h))"


lemma cas_loaded: "fst (atomic_cas rd wr h addr (rd h addr) val)"
  by (simp add: atomic_cas_def)

definition atomic_cas_uint128_ex :: "host_mem \<Rightarrow> u64 \<Rightarrow> u64 \<times> u64 \<Rightarrow> u64 \<times> u64 \<Rightarrow> bool \<times> (u64 \<times> u64) \<times> host_mem" where
  "atomic_cas_uint128_ex =
     atomic_cas (\<lambda>h a. (read_uint64_le h a, read_uint64_le h (a + 8)))
       (\<lambda>h a (v0, v1). write_uint64_le (write_uint64_le h a v0) (a + 8) v1)"

section \<open>The AMO opcode\<close>

abbreviation (input) RISCV_AMO_LR :: u32 where "RISCV_AMO_LR \<equiv> 0x02"
abbreviation (input) RISCV_AMO_SC :: u32 where "RISCV_AMO_SC \<equiv> 0x03"
abbreviation (input) RISCV_AMO_CAS :: u32 where "RISCV_AMO_CAS \<equiv> 0x05"
abbreviation (input) RISCV_AMO_SWAP :: u32 where "RISCV_AMO_SWAP \<equiv> 0x01"
abbreviation (input) RISCV_AMO_ADD :: u32 where "RISCV_AMO_ADD \<equiv> 0x00"
abbreviation (input) RISCV_AMO_AND :: u32 where "RISCV_AMO_AND \<equiv> 0x0C"
abbreviation (input) RISCV_AMO_OR :: u32 where "RISCV_AMO_OR \<equiv> 0x08"
abbreviation (input) RISCV_AMO_XOR :: u32 where "RISCV_AMO_XOR \<equiv> 0x04"
abbreviation (input) RISCV_AMO_MAX :: u32 where "RISCV_AMO_MAX \<equiv> 0x14"
abbreviation (input) RISCV_AMO_MIN :: u32 where "RISCV_AMO_MIN \<equiv> 0x10"
abbreviation (input) RISCV_AMO_MAXU :: u32 where "RISCV_AMO_MAXU \<equiv> 0x1C"
abbreviation (input) RISCV_AMO_MINU :: u32 where "RISCV_AMO_MINU \<equiv> 0x18"

text \<open>
  The operand of an AMO is the memory a translation points to: RAM, or the bounce buffer of a
  device register.  \<open>amo_cell\<close> gives the memory and the address the primitives work on;
  \<open>amo_store\<close> puts new RAM contents back, and \<open>amo_commit\<close> writes the buffer to the device.
\<close>

definition amo_cell :: "mmu_ptr \<Rightarrow> u8 list option \<Rightarrow> 'd hart \<Rightarrow> host_mem \<times> u64" where
  "amo_cell r buf vm = (case r of Mhost ptr \<Rightarrow> (host vm, ptr) | _ \<Rightarrow> (buf_mem (the buf), 0))"

definition amo_store :: "mmu_ptr \<Rightarrow> host_mem \<Rightarrow> 'd hart \<Rightarrow> 'd hart" where
  "amo_store r h vm = (case r of Mhost _ \<Rightarrow> vm\<lparr>host := h\<rparr> | _ \<Rightarrow> vm)"

definition amo_commit :: "'d machine \<Rightarrow> mmu_ptr \<Rightarrow> u64 \<Rightarrow> host_mem \<Rightarrow> nat \<Rightarrow> 'd hart \<Rightarrow> 'd hart" where
  "amo_commit m r vaddr h sz vm =
     (case r of Mdata \<Rightarrow> riscv_rmw_mmio_commit m vm vaddr (mem_read h 0 sz) sz | _ \<Rightarrow> vm)"

text \<open>The switches over the operation; the CAS of Zacas also takes the expected value.\<close>

definition amo_switch_b :: "u32 \<Rightarrow> host_mem \<Rightarrow> u64 \<Rightarrow> u8 \<Rightarrow> u8 \<Rightarrow> u8 \<times> host_mem" where
  "amo_switch_b op h a exp val =
     (if op = RISCV_AMO_CAS then snd (atomic_cas_uint8_ex h a exp val)
      else if op = RISCV_AMO_SWAP then atomic_swap_uint8 h a val
      else if op = RISCV_AMO_ADD then atomic_add_uint8 h a val
      else if op = RISCV_AMO_AND then atomic_and_uint8 h a val
      else if op = RISCV_AMO_OR then atomic_or_uint8 h a val
      else if op = RISCV_AMO_XOR then atomic_xor_uint8 h a val
      else if op = RISCV_AMO_MAX then map_prod ucast id (atomic_max_int8 h a (ucast val))
      else if op = RISCV_AMO_MIN then map_prod ucast id (atomic_min_int8 h a (ucast val))
      else if op = RISCV_AMO_MAXU then map_prod ucast id (atomic_maxu_uint8 h a (ucast val))
      else if op = RISCV_AMO_MINU then map_prod ucast id (atomic_minu_uint8 h a (ucast val))
      else (0, h))"

definition amo_switch_h :: "u32 \<Rightarrow> host_mem \<Rightarrow> u64 \<Rightarrow> u16 \<Rightarrow> u16 \<Rightarrow> u16 \<times> host_mem" where
  "amo_switch_h op h a exp val =
     (if op = RISCV_AMO_CAS then snd (atomic_cas_uint16_ex h a exp val)
      else if op = RISCV_AMO_SWAP then atomic_swap_uint16_le h a val
      else if op = RISCV_AMO_ADD then atomic_add_uint16_le h a val
      else if op = RISCV_AMO_AND then atomic_and_uint16_le h a val
      else if op = RISCV_AMO_OR then atomic_or_uint16_le h a val
      else if op = RISCV_AMO_XOR then atomic_xor_uint16_le h a val
      else if op = RISCV_AMO_MAX then atomic_max_int16_le h a val
      else if op = RISCV_AMO_MIN then atomic_min_int16_le h a val
      else if op = RISCV_AMO_MAXU then atomic_maxu_uint16_le h a val
      else if op = RISCV_AMO_MINU then atomic_minu_uint16_le h a val
      else (0, h))"

definition amo_switch_w :: "u32 \<Rightarrow> host_mem \<Rightarrow> u64 \<Rightarrow> u32 \<Rightarrow> u32 \<Rightarrow> u32 \<times> host_mem" where
  "amo_switch_w op h a exp val =
     (if op = RISCV_AMO_CAS then snd (atomic_cas_uint32_ex h a exp val)
      else if op = RISCV_AMO_SWAP then atomic_swap_uint32_le h a val
      else if op = RISCV_AMO_ADD then atomic_add_uint32_le h a val
      else if op = RISCV_AMO_AND then atomic_and_uint32_le h a val
      else if op = RISCV_AMO_OR then atomic_or_uint32_le h a val
      else if op = RISCV_AMO_XOR then atomic_xor_uint32_le h a val
      else if op = RISCV_AMO_MAX then atomic_max_int32_le h a val
      else if op = RISCV_AMO_MIN then atomic_min_int32_le h a val
      else if op = RISCV_AMO_MAXU then atomic_maxu_uint32_le h a val
      else if op = RISCV_AMO_MINU then atomic_minu_uint32_le h a val
      else (0, h))"

definition amo_switch_d :: "u32 \<Rightarrow> host_mem \<Rightarrow> u64 \<Rightarrow> u64 \<Rightarrow> u64 \<Rightarrow> u64 \<times> host_mem" where
  "amo_switch_d op h a exp val =
     (if op = RISCV_AMO_CAS then snd (atomic_cas_uint64_ex h a exp val)
      else if op = RISCV_AMO_SWAP then atomic_swap_uint64_le h a val
      else if op = RISCV_AMO_ADD then atomic_add_uint64_le h a val
      else if op = RISCV_AMO_AND then atomic_and_uint64_le h a val
      else if op = RISCV_AMO_OR then atomic_or_uint64_le h a val
      else if op = RISCV_AMO_XOR then atomic_xor_uint64_le h a val
      else if op = RISCV_AMO_MAX then atomic_max_int64_le h a val
      else if op = RISCV_AMO_MIN then atomic_min_int64_le h a val
      else if op = RISCV_AMO_MAXU then atomic_maxu_uint64_le h a val
      else if op = RISCV_AMO_MINU then atomic_minu_uint64_le h a val
      else (0, h))"

definition riscv_emulate_atomic_b :: "'x::len itself \<Rightarrow> 'd machine \<Rightarrow> 'd hart \<Rightarrow> u32 \<Rightarrow> 'd hart" where
  "riscv_emulate_atomic_b (xl :: 'x itself) m vm insn =
     (let op = shr insn 27;
          rds = unat (bit_ext_u32 insn 7 5);
          rs1 = unat (bit_ext_u32 insn 15 5);
          rs2 = unat (bit_ext_u32 insn 20 5);
          vaddr = ucast (riscv_read_reg vm rs1 :: 'x word) :: u64;
          val = ucast (riscv_read_reg vm rs2 :: 'x word) :: u8
      in if shl 1 (unat op) AND (0x11111133 :: u32) = 0 then riscv_illegal_insn vm insn
         else
           (case riscv_rmw_translate m vm vaddr (Some (replicate 1 0)) 1 of
              (Mnull, _, vm) \<Rightarrow> vm
            | (r, buf, vm) \<Rightarrow>
                (let (h, a) = amo_cell r buf vm;
                     exp = ucast (riscv_read_reg vm rds :: 'x word) :: u8;
                     (old, h) = amo_switch_b op h a exp val;
                     vm = riscv_write_reg (amo_store r h vm) rds (scast old :: 'x word)
                 in amo_commit m r vaddr h 1 vm)))"

definition riscv_emulate_atomic_h :: "'x::len itself \<Rightarrow> 'd machine \<Rightarrow> 'd hart \<Rightarrow> u32 \<Rightarrow> 'd hart" where
  "riscv_emulate_atomic_h (xl :: 'x itself) m vm insn =
     (let op = shr insn 27;
          rds = unat (bit_ext_u32 insn 7 5);
          rs1 = unat (bit_ext_u32 insn 15 5);
          rs2 = unat (bit_ext_u32 insn 20 5);
          vaddr = ucast (riscv_read_reg vm rs1 :: 'x word) :: u64;
          val = ucast (riscv_read_reg vm rs2 :: 'x word) :: u16
      in if shl 1 (unat op) AND (0x11111133 :: u32) = 0 then riscv_illegal_insn vm insn
         else if vaddr AND 1 \<noteq> 0 then riscv_trap vm RISCV_TRAP_STORE_MISALIGN vaddr
         else
           (case riscv_rmw_translate m vm vaddr (Some (replicate 2 0)) 2 of
              (Mnull, _, vm) \<Rightarrow> vm
            | (r, buf, vm) \<Rightarrow>
                (let (h, a) = amo_cell r buf vm;
                     exp = ucast (riscv_read_reg vm rds :: 'x word) :: u16;
                     (old, h) = amo_switch_h op h a exp val;
                     vm = riscv_write_reg (amo_store r h vm) rds (scast old :: 'x word)
                 in amo_commit m r vaddr h 2 vm)))"

definition riscv_emulate_atomic_w :: "'x::len itself \<Rightarrow> 'd machine \<Rightarrow> 'd hart \<Rightarrow> u32 \<Rightarrow> 'd hart" where
  "riscv_emulate_atomic_w (xl :: 'x itself) m vm insn =
     (let op = shr insn 27;
          rds = unat (bit_ext_u32 insn 7 5);
          rs1 = unat (bit_ext_u32 insn 15 5);
          rs2 = unat (bit_ext_u32 insn 20 5);
          vaddr = ucast (riscv_read_reg vm rs1 :: 'x word) :: u64;
          val = ucast (riscv_read_reg vm rs2 :: 'x word) :: u32
      in if shl 1 (unat op) AND (0x1111113F :: u32) = 0 then riscv_illegal_insn vm insn
         else if vaddr AND 3 \<noteq> 0
         then riscv_trap vm (if op = RISCV_AMO_LR then RISCV_TRAP_LOAD_MISALIGN else RISCV_TRAP_STORE_MISALIGN) vaddr
         else
           (case (if op = RISCV_AMO_LR then riscv_ro_translate m vm vaddr (Some (replicate 4 0)) 4
                  else riscv_rmw_translate m vm vaddr (Some (replicate 4 0)) 4) of
              (Mnull, _, vm) \<Rightarrow> vm
            | (r, buf, vm) \<Rightarrow>
                (let (h, a) = amo_cell r buf vm in
                 if op = RISCV_AMO_LR then
                   (let old = read_uint32_le h a;
                        vm = vm\<lparr>lrsc := True, lrsc_addr := vaddr, lrsc_cas := ucast old\<rparr>
                    in riscv_write_reg vm rds (scast old :: 'x word))
                 else if op = RISCV_AMO_SC then
                   (let (ok, _, h) =
                          (if lrsc vm \<and> lrsc_addr vm = vaddr then atomic_cas_uint32_ex h a (ucast (lrsc_cas vm)) val
                           else (False, 0, h))
                    in if ok
                       then amo_commit m r vaddr h 4
                              ((riscv_write_reg (amo_store r h vm) rds (0 :: 'x word))\<lparr>lrsc := False\<rparr>)
                       else (riscv_write_reg vm rds (1 :: 'x word))\<lparr>lrsc := False\<rparr>)
                 else
                   (let exp = ucast (riscv_read_reg vm rds :: 'x word) :: u32;
                        (old, h) = amo_switch_w op h a exp val;
                        vm = riscv_write_reg (amo_store r h vm) rds (scast old :: 'x word)
                    in amo_commit m r vaddr h 4 vm))))"

definition riscv_emulate_atomic_d :: "'x::len itself \<Rightarrow> 'd machine \<Rightarrow> 'd hart \<Rightarrow> u32 \<Rightarrow> 'd hart" where
  "riscv_emulate_atomic_d (xl :: 'x itself) m vm insn =
     (let op = shr insn 27;
          rds = unat (bit_ext_u32 insn 7 5);
          rs1 = unat (bit_ext_u32 insn 15 5);
          rs2 = unat (bit_ext_u32 insn 20 5);
          vaddr = ucast (riscv_read_reg vm rs1 :: 'x word) :: u64;
          val = ucast (riscv_read_reg vm rs2 :: 'x word) :: u64
      in if shl 1 (unat op) AND (0x1111113F :: u32) = 0 then riscv_illegal_insn vm insn
         else if vaddr AND 7 \<noteq> 0
         then riscv_trap vm (if op = RISCV_AMO_LR then RISCV_TRAP_LOAD_MISALIGN else RISCV_TRAP_STORE_MISALIGN) vaddr
         else
           (case (if op = RISCV_AMO_LR then riscv_ro_translate m vm vaddr (Some (replicate 8 0)) 8
                  else riscv_rmw_translate m vm vaddr (Some (replicate 8 0)) 8) of
              (Mnull, _, vm) \<Rightarrow> vm
            | (r, buf, vm) \<Rightarrow>
                (let (h, a) = amo_cell r buf vm in
                 if op = RISCV_AMO_LR then
                   (let old = read_uint64_le h a;
                        vm = vm\<lparr>lrsc := True, lrsc_addr := vaddr, lrsc_cas := ucast old\<rparr>
                    in riscv_write_reg vm rds (ucast old :: 'x word))
                 else if op = RISCV_AMO_SC then
                   (let (ok, _, h) =
                          (if lrsc vm \<and> lrsc_addr vm = vaddr then atomic_cas_uint64_ex h a (ucast (lrsc_cas vm)) val
                           else (False, 0, h))
                    in if ok
                       then amo_commit m r vaddr h 8
                              ((riscv_write_reg (amo_store r h vm) rds (0 :: 'x word))\<lparr>lrsc := False\<rparr>)
                       else (riscv_write_reg vm rds (1 :: 'x word))\<lparr>lrsc := False\<rparr>)
                 else
                   (let exp = ucast (riscv_read_reg vm rds :: 'x word) :: u64;
                        (old, h) = amo_switch_d op h a exp val;
                        vm = riscv_write_reg (amo_store r h vm) rds (ucast old :: 'x word)
                    in amo_commit m r vaddr h 8 vm))))"

text \<open>The double-word compare-and-swap, on 128 bits in RV64 and on 64 bits in RV32.\<close>

definition riscv_emulate_atomic_dwcas :: "'x::len itself \<Rightarrow> 'd machine \<Rightarrow> 'd hart \<Rightarrow> u32 \<Rightarrow> 'd hart" where
  "riscv_emulate_atomic_dwcas (xl :: 'x itself) m vm insn =
     (let op = shr insn 27;
          rds = unat (bit_ext_u32 insn 7 5);
          rs1 = unat (bit_ext_u32 insn 15 5);
          rs2 = unat (bit_ext_u32 insn 20 5);
          vaddr = ucast (riscv_read_reg vm rs1 :: 'x word) :: u64;
          sz = (if riscv64 xl then 16 else 8);
          reg = (\<lambda>vm r. ucast (riscv_read_reg vm r :: 'x word) :: u64)
      in if op \<noteq> RISCV_AMO_CAS \<or> odd rds \<or> odd rs2 then riscv_illegal_insn vm insn
         else if vaddr AND (of_nat sz - 1) \<noteq> 0 then riscv_trap vm RISCV_TRAP_STORE_MISALIGN vaddr
         else
           (case riscv_rmw_translate m vm vaddr (Some (replicate sz 0)) sz of
              (Mnull, _, vm) \<Rightarrow> vm
            | (r, buf, vm) \<Rightarrow>
                (let (h, a) = amo_cell r buf vm in
                 if riscv64 xl then
                   (let exp = (if rds \<noteq> 0 then (reg vm rds, reg vm (rds + 1)) else (0, 0));
                        val = (if rs2 \<noteq> 0 then (reg vm rs2, reg vm (rs2 + 1)) else (0, 0));
                        (_, (old0, old1), h) = atomic_cas_uint128_ex h a exp val;
                        vm = amo_store r h vm;
                        vm = (if rds \<noteq> 0
                              then riscv_write_reg (riscv_write_reg vm rds (ucast old0 :: 'x word)) (rds + 1) (ucast old1 :: 'x word)
                              else vm)
                    in amo_commit m r vaddr h sz vm)
                 else
                   (let exp = (if rds \<noteq> 0 then reg vm rds OR shl (reg vm (rds + 1)) 32 else 0);
                        val = (if rs2 \<noteq> 0 then reg vm rs2 OR shl (reg vm rs2) 32 else 0);
                        (_, old, h) = atomic_cas_uint64_ex h a exp val;
                        vm = amo_store r h vm;
                        vm = (if rds \<noteq> 0
                              then riscv_write_reg (riscv_write_reg vm rds (ucast old :: 'x word)) (rds + 1) (ucast (shr old 32) :: 'x word)
                              else vm)
                    in amo_commit m r vaddr h sz vm))))"

definition riscv_emulate_a_opc_amo :: "'x::len itself \<Rightarrow> 'd machine \<Rightarrow> 'd hart \<Rightarrow> u32 \<Rightarrow> 'd hart" where
  "riscv_emulate_a_opc_amo xl m vm insn =
     (let funct3 = bit_ext_u32 insn 12 3 in
      if funct3 = 0 then riscv_emulate_atomic_b xl m vm insn
      else if funct3 = 1 then riscv_emulate_atomic_h xl m vm insn
      else if funct3 = 2 then riscv_emulate_atomic_w xl m vm insn
      else if funct3 = 3 then
        (if riscv64 xl then riscv_emulate_atomic_d xl m vm insn else riscv_emulate_atomic_dwcas xl m vm insn)
      else if funct3 = 4 \<and> riscv64 xl then riscv_emulate_atomic_dwcas xl m vm insn
      else riscv_illegal_insn vm insn)"

section \<open>AMOs by the architecture\<close>

text \<open>The value an AMO stores, given the expected value of a CAS, the old value and the operand.\<close>

definition amo_spec :: "u32 \<Rightarrow> 'w::len word \<Rightarrow> 'w word \<Rightarrow> 'w word \<Rightarrow> 'w word" where
  "amo_spec op exp old val =
     (if op = RISCV_AMO_SWAP then val
      else if op = RISCV_AMO_ADD then old + val
      else if op = RISCV_AMO_AND then old AND val
      else if op = RISCV_AMO_OR then old OR val
      else if op = RISCV_AMO_XOR then old XOR val
      else if op = RISCV_AMO_MAX then (if sint old < sint val then val else old)
      else if op = RISCV_AMO_MIN then (if sint val < sint old then val else old)
      else if op = RISCV_AMO_MAXU then max old val
      else if op = RISCV_AMO_MINU then min old val
      else if op = RISCV_AMO_CAS \<and> old = exp then val
      else old)"

definition amo_ops :: "u32 set" where
  "amo_ops = {RISCV_AMO_SWAP, RISCV_AMO_ADD, RISCV_AMO_AND, RISCV_AMO_OR, RISCV_AMO_XOR,
    RISCV_AMO_MAX, RISCV_AMO_MIN, RISCV_AMO_MAXU, RISCV_AMO_MINU, RISCV_AMO_CAS}"

lemma word_max_min:
  "max x y = (if y < x then x else y :: 'a::len word)" "min x y = (if x < y then x else y :: 'a::len word)"
  by (auto simp: max_def min_def)

lemma u8_u16: "ucast (ucast x :: u16) = (x :: u8)" "(ucast x < (ucast y :: u16)) = (x < (y :: u8))"
proof -
  show "ucast (ucast x :: u16) = x" by (intro bit_word_eqI) (auto simp: bit_simps)
  have "unat (ucast w :: u16) = unat w" for w :: u8
    using unsigned_less [of w, where 'a = nat] by (simp add: unsigned_ucast_eq take_bit_nat_eq_self)
  then show "(ucast x < (ucast y :: u16)) = (x < y)" by (simp add: word_less_nat_alt)
qed

lemma sint_eq_iff: "sint x = sint y \<longleftrightarrow> x = (y :: 'a::len word)"
  by (auto intro: signed_word_eqI)

lemmas amo_body = amo_spec_def atomic_cas_def atomic_fetch_def Let_def case_prod_beta word_max_min sint_eq_iff

lemma amo_switch_h_spec:
  "op \<in> amo_ops \<Longrightarrow> amo_switch_h op h a exp val = (read_uint16_le h a, write_uint16_le h a (amo_spec op exp (read_uint16_le h a) val))"
  by (auto simp: amo_ops_def amo_switch_h_def atomic_cas_uint16_ex_def atomic_swap_uint16_le_def atomic_add_uint16_le_def
      atomic_and_uint16_le_def atomic_or_uint16_le_def atomic_xor_uint16_le_def atomic_max_int16_le_def
      atomic_min_int16_le_def atomic_maxu_uint16_le_def atomic_minu_uint16_le_def amo_body)

lemma amo_switch_w_spec:
  "op \<in> amo_ops \<Longrightarrow> amo_switch_w op h a exp val = (read_uint32_le h a, write_uint32_le h a (amo_spec op exp (read_uint32_le h a) val))"
  by (auto simp: amo_ops_def amo_switch_w_def atomic_cas_uint32_ex_def atomic_swap_uint32_le_def atomic_add_uint32_le_def
      atomic_and_uint32_le_def atomic_or_uint32_le_def atomic_xor_uint32_le_def atomic_max_int32_le_def
      atomic_min_int32_le_def atomic_maxu_uint32_le_def atomic_minu_uint32_le_def amo_body)

lemma amo_switch_d_spec:
  "op \<in> amo_ops \<Longrightarrow> amo_switch_d op h a exp val = (read_uint64_le h a, write_uint64_le h a (amo_spec op exp (read_uint64_le h a) val))"
  by (auto simp: amo_ops_def amo_switch_d_def atomic_cas_uint64_ex_def atomic_swap_uint64_le_def atomic_add_uint64_le_def
      atomic_and_uint64_le_def atomic_or_uint64_le_def atomic_xor_uint64_le_def atomic_max_int64_le_def
      atomic_min_int64_le_def atomic_maxu_uint64_le_def atomic_minu_uint64_le_def amo_body)

lemma amo_switch_b_spec:
  "op \<in> amo_ops \<Longrightarrow> op \<notin> {RISCV_AMO_MAX, RISCV_AMO_MIN} \<Longrightarrow>
   amo_switch_b op h a exp val = (read_uint8 h a, write_uint8 h a (amo_spec op exp (read_uint8 h a) val))"
  by (auto simp: amo_ops_def amo_switch_b_def atomic_cas_uint8_ex_def atomic_swap_uint8_def atomic_add_uint8_def
      atomic_and_uint8_def atomic_or_uint8_def atomic_xor_uint8_def atomic_maxu_uint8_def atomic_minu_uint8_def amo_body u8_u16)

lemma amo_ops_legal:
  assumes "op \<in> amo_ops"
  shows "shl 1 (unat op) AND (0x1111113F :: u32) \<noteq> 0" "shl 1 (unat op) AND (0x11111133 :: u32) \<noteq> 0"
    "op \<noteq> RISCV_AMO_LR" "op \<noteq> RISCV_AMO_SC"
  using assms by (auto simp: amo_ops_def)

text \<open>Registers of the 64-bit template.\<close>

lemma reg64 [simp]:
  "riscv_read_reg vm r = registers vm r"
  "riscv_write_reg vm r (x :: u64) = set_reg vm r x"
  by (simp_all add: riscv_read_reg_def riscv_write_reg_def)

definition rd_of :: "u32 \<Rightarrow> nat" where "rd_of insn = unat (bit_ext_u32 insn 7 5)"
definition rs1_of :: "u32 \<Rightarrow> nat" where "rs1_of insn = unat (bit_ext_u32 insn 15 5)"
definition rs2_of :: "u32 \<Rightarrow> nat" where "rs2_of insn = unat (bit_ext_u32 insn 20 5)"

lemmas amo_ram_simps = riscv_emulate_a_opc_amo_def amo_cell_def amo_store_def amo_commit_def rd_of_def rs1_of_def rs2_of_def
  amo_ops_legal amo_ops_legal [simplified] Let_def

text \<open>The effect the architecture gives an AMO on RAM, for one operand size.\<close>

definition amo_effect :: "(host_mem \<Rightarrow> u64 \<Rightarrow> 'w::len word) \<Rightarrow> (host_mem \<Rightarrow> u64 \<Rightarrow> 'w word \<Rightarrow> host_mem) \<Rightarrow>
    u32 \<Rightarrow> u64 \<Rightarrow> 'd hart \<Rightarrow> 'd hart \<Rightarrow> 'd hart" where
  "amo_effect rd wr insn ptr vm vm' =
     (let old = rd (host vm') ptr;
          new = amo_spec (shr insn 27) (ucast (registers vm' (rd_of insn))) old (ucast (registers vm (rs2_of insn)))
      in set_reg (vm'\<lparr>host := wr (host vm') ptr new\<rparr>) (rd_of insn) (scast old))"

text \<open>The outcome of a store-conditional whose reservation was made when memory held a given value.\<close>

definition sc_outcome :: "(host_mem \<Rightarrow> u64 \<Rightarrow> 'w::len word) \<Rightarrow> (host_mem \<Rightarrow> u64 \<Rightarrow> 'w word \<Rightarrow> host_mem) \<Rightarrow>
    u64 \<Rightarrow> 'w word \<Rightarrow> 'w word \<Rightarrow> nat \<Rightarrow> 'd hart \<Rightarrow> 'd hart \<Rightarrow> bool" where
  "sc_outcome rd wr ptr loaded val dst vm vm' \<longleftrightarrow>
     (if rd (host vm) ptr = loaded then registers vm' dst = 0 \<and> host vm' = wr (host vm) ptr val
      else registers vm' dst = 1 \<and> host vm' = host vm) \<and> \<not> lrsc vm'"

section \<open>Properties\<close>


definition hart_amo :: "unit hart" where
  "hart_amo = (hart_zero ())\<lparr>registers := (\<lambda>_. 0)(6 := 7, 7 := 0x8000)\<rparr>"

lemma hart_amo_simps [simp]:
  "registers hart_amo = (\<lambda>_. 0)(6 := 7, 7 := 0x8000)" "tlb hart_amo = (\<lambda>_. tlb_zero)" "host hart_amo = (\<lambda>_. 0)"
  by (simp_all add: hart_amo_def hart_zero_def tlb_zero_def)



lemma lr_on_hart_amo:
  "riscv_emulate_a_opc_amo TYPE(64) machine_bare hart_amo 0x1002A3AF =
     set_reg (hart_amo\<lparr>lrsc := True, lrsc_addr := 0, lrsc_cas := 0\<rparr>) 7 0"
  by (simp add: amo_ram_simps riscv_emulate_atomic_w_def bit_ext_u32_def riscv_ro_translate_def
      tlb_lookup_def tlb_slot_def tlb_tag_def tlb_zero_def read_uint32_le_def)


text \<open>
  The signed minimum and maximum of bytes are unsigned.  \<^verbatim>\<open>amomax.b\<close> and \<^verbatim>\<open>amomin.b\<close> compare the bytes
  as numbers from 0 to 255, because \<^verbatim>\<open>atomic_max_int8\<close> and \<^verbatim>\<open>atomic_min_int8\<close> keep them in a 16-bit
  variable that is not sign-extended: they store the larger or smaller unsigned byte.
\<close>

theorem amo_byte_minmax_unsigned:
  assumes "bit_ext_u32 insn 12 3 = 0"
    and "riscv_rmw_translate m vm (registers vm (rs1_of insn)) (Some [0]) 1 = (Mhost ptr, buf, vm')"
  shows "(shr insn 27 = RISCV_AMO_MAX \<longrightarrow> host (riscv_emulate_a_opc_amo TYPE(64) m vm insn) =
      write_uint8 (host vm') ptr (max (read_uint8 (host vm') ptr) (ucast (registers vm (rs2_of insn)))))
    \<and> (shr insn 27 = RISCV_AMO_MIN \<longrightarrow> host (riscv_emulate_a_opc_amo TYPE(64) m vm insn) =
      write_uint8 (host vm') ptr (min (read_uint8 (host vm') ptr) (ucast (registers vm (rs2_of insn)))))"
proof -
  have "sint (ucast b :: u16) = uint b" for b :: u8
  proof -
    have "0 \<le> uint b" "uint b < 256" using unsigned_less [of b, where 'a = int] by simp_all
    then have "signed_take_bit 15 (uint b) = uint b" by (intro signed_take_bit_int_eq_self) (simp_all add: order_trans [of "- 32768" 0])
    then show ?thesis using \<open>uint b < 256\<close> by (simp add: sint_uint unsigned_ucast_eq take_bit_int_eq_self)
  qed
  then have s: "(sint (ucast a :: u16) < sint (ucast b :: u16)) = (a < (b :: u8))" for a b
    by (simp add: word_less_def)
  show ?thesis
    using assms
    by (simp add: amo_ram_simps riscv_emulate_atomic_b_def amo_switch_b_def atomic_max_int8_def atomic_min_int8_def
      set_reg_def atomic_cas_uint8_ex_def amo_body s u8_u16)
qed

theorem amo_byte_minmax_unsigned_witness:
  "let vm = hart_amo\<lparr>host := (\<lambda>_. 0)(0 := 0x80)\<rparr>
   in sint (read_uint8 (host vm) 0) < sint (ucast (registers vm 6) :: u8)
    \<and> read_uint8 (host (riscv_emulate_a_opc_amo TYPE(64) machine_bare vm 0xA06283AF)) 0 = 0x80"
  using amo_byte_minmax_unsigned [of "0xA06283AF" machine_bare "hart_amo\<lparr>host := (\<lambda>_. 0)(0 := 0x80)\<rparr>" 0 "Some [0]"
      "hart_amo\<lparr>host := (\<lambda>_. 0)(0 := 0x80)\<rparr>"]
  by (simp add: rs1_of_def rs2_of_def bit_ext_u32_def riscv_rmw_translate_def tlb_lookup_def tlb_slot_def tlb_tag_def
      tlb_zero_def write_uint8_def read_uint8_def)
end
