(* ===== verification/Base.thy ===== *)
theory Base
  imports Atomics "HOL-Library.Signed_Division"
begin

text \<open>
  The base integer instruction set and its M, Zba, Zbb, Zbc, Zbkb, Zbkx, Zbs and Zicond extensions:
  \<^verbatim>\<open>src/cpu/riscv_base.h\<close>.  As in \<^verbatim>\<open>Atomics\<close>, the functions of the template are generic in the word
  type of \<^verbatim>\<open>xlen_t\<close>.  What the large switches compute is a function of the operands of its own, with
  None for an encoding that no case handles; the handlers decode, write the result back, or raise an
  illegal instruction trap.
\<close>

section \<open>Width-dependent macros\<close>

definition SHAMT_BITS :: "'x::len itself \<Rightarrow> nat" where
  "SHAMT_BITS xl = (if riscv64 xl then 6 else 5)"

definition DIV_OVERFLOW_RS1 :: "'x::len itself \<Rightarrow> 'x word" where
  "DIV_OVERFLOW_RS1 xl = (if riscv64 xl then 0x8000000000000000 else 0x80000000)"

definition bit_clz :: "'x::len word \<Rightarrow> u32" where
  "bit_clz val = (if riscv64 TYPE('x) then bit_clz64 (ucast val) else bit_clz32 (ucast val))"

definition bit_ctz :: "'x::len word \<Rightarrow> u32" where
  "bit_ctz val = (if riscv64 TYPE('x) then bit_ctz64 (ucast val) else bit_ctz32 (ucast val))"

definition bit_popcnt :: "'x::len word \<Rightarrow> u32" where
  "bit_popcnt val = (if riscv64 TYPE('x) then bit_popcnt64 (ucast val) else bit_popcnt32 (ucast val))"

definition bit_rotl :: "'x::len word \<Rightarrow> u32 \<Rightarrow> 'x word" where
  "bit_rotl val bits = (if riscv64 TYPE('x) then ucast (bit_rotl64 (ucast val) bits) else ucast (bit_rotl32 (ucast val) bits))"

definition bit_rotr :: "'x::len word \<Rightarrow> u32 \<Rightarrow> 'x word" where
  "bit_rotr val bits = (if riscv64 TYPE('x) then ucast (bit_rotr64 (ucast val) bits) else ucast (bit_rotr32 (ucast val) bits))"

definition bit_clmul :: "'x::len word \<Rightarrow> 'x word \<Rightarrow> 'x word" where
  "bit_clmul a b = (if riscv64 TYPE('x) then ucast (bit_clmul64 (ucast a) (ucast b)) else ucast (bit_clmul32 (ucast a) (ucast b)))"

definition bit_clmulh :: "'x::len word \<Rightarrow> 'x word \<Rightarrow> 'x word" where
  "bit_clmulh a b = (if riscv64 TYPE('x) then ucast (bit_clmulh64 (ucast a) (ucast b)) else ucast (bit_clmulh32 (ucast a) (ucast b)))"

definition bit_clmulr :: "'x::len word \<Rightarrow> 'x word \<Rightarrow> 'x word" where
  "bit_clmulr a b = (if riscv64 TYPE('x) then ucast (bit_clmulr64 (ucast a) (ucast b)) else ucast (bit_clmulr32 (ucast a) (ucast b)))"

section \<open>Decoding\<close>

definition decode_i_shamt :: "'x::len itself \<Rightarrow> u32 \<Rightarrow> u32" where
  "decode_i_shamt xl insn = (if riscv64 xl then bit_ext_u32 insn 20 6 else bit_ext_u32 insn 20 5)"

definition decode_i_shift_funct7 :: "'x::len itself \<Rightarrow> u32 \<Rightarrow> u32" where
  "decode_i_shift_funct7 xl insn = (if riscv64 xl then shl (shr insn 26) 1 else shr insn 25)"

definition decode_i_branch_off :: "u32 \<Rightarrow> u32" where
  "decode_i_branch_off insn =
     shl (sar insn 31) 12 OR (shr insn 7 AND 0x0000001E) OR shl (insn AND 0x00000080) 4 OR (shr insn 20 AND 0x000007E0)"

definition decode_i_jal_off :: "u32 \<Rightarrow> u32" where
  "decode_i_jal_off insn =
     shl (sar insn 31) 20 OR (insn AND 0x000FF000) OR (shr insn 9 AND 0x00000800) OR (shr insn 20 AND 0x000007FE)"

text \<open>The offset of a store, which the handler decodes in place.\<close>

definition decode_i_store_off :: "u32 \<Rightarrow> u32" where
  "decode_i_store_off insn = shl (sar insn 25) 5 OR bit_ext_u32 insn 7 5"

section \<open>Crossbar permutations\<close>

text \<open>The loops over the lookup table, from position \<open>i\<close> on.\<close>

function xperm4_loop :: "u64 \<Rightarrow> u64 \<Rightarrow> nat \<Rightarrow> u64 \<Rightarrow> u64" where
  "xperm4_loop val lut i ret =
     (if i < 64 then xperm4_loop val lut (i + 4) (ret OR shl (bit_ext_u64 val (unat (shl (shr lut i AND 0x0F) 2)) 4) i)
      else ret)"
  by pat_completeness auto

termination xperm4_loop
  by (relation "measure (\<lambda>(_, _, i, _). 64 - i)") auto

function xperm8_loop :: "u64 \<Rightarrow> u64 \<Rightarrow> nat \<Rightarrow> u64 \<Rightarrow> u64" where
  "xperm8_loop val lut i ret =
     (if i < 64 then
        (let idx = ucast (shr lut i) :: u32 in
         xperm8_loop val lut (i + 4)
           (if idx AND 0xF8 = 0 then ret OR shl (bit_ext_u64 val (unat (shl (idx AND 0x07) 3)) 8) i else ret))
      else ret)"
  by pat_completeness auto

termination xperm8_loop
  by (relation "measure (\<lambda>(_, _, i, _). 64 - i)") auto

declare xperm4_loop.simps [simp del] xperm8_loop.simps [simp del]

definition riscv_bit_xperm4 :: "u64 \<Rightarrow> u64 \<Rightarrow> u64" where
  "riscv_bit_xperm4 val lut = xperm4_loop val lut 0 0"

definition riscv_bit_xperm8 :: "u64 \<Rightarrow> u64 \<Rightarrow> u64" where
  "riscv_bit_xperm8 val lut = xperm8_loop val lut 0 0"

section \<open>Loads and stores\<close>

definition riscv_emulate_i_opc_load :: "'x::len itself \<Rightarrow> 'd machine \<Rightarrow> 'd hart \<Rightarrow> u32 \<Rightarrow> 'd hart" where
  "riscv_emulate_i_opc_load (xl :: 'x itself) m vm insn =
     (let rds = unat (bit_ext_u32 insn 7 5);
          rs1 = unat (bit_ext_u32 insn 15 5);
          off = scast (bit_ext_i32 insn 20 12) :: 'x word;
          addr = ucast (riscv_read_reg vm rs1 + off) :: u64;
          funct3 = bit_ext_u32 insn 12 3
      in if funct3 = 0 then riscv_load_s8 m vm addr rds
         else if funct3 = 1 then riscv_load_s16 m vm addr rds
         else if funct3 = 2 then riscv_load_s32 m vm addr rds
         else if funct3 = 3 \<and> riscv64 xl then riscv_load_u64 m vm addr rds
         else if funct3 = 4 then riscv_load_u8 m vm addr rds
         else if funct3 = 5 then riscv_load_u16 m vm addr rds
         else if funct3 = 6 \<and> riscv64 xl then riscv_load_u32 m vm addr rds
         else riscv_illegal_insn vm insn)"

definition riscv_emulate_i_opc_store :: "'x::len itself \<Rightarrow> 'd machine \<Rightarrow> 'd hart \<Rightarrow> u32 \<Rightarrow> 'd hart" where
  "riscv_emulate_i_opc_store (xl :: 'x itself) m vm insn =
     (let rs1 = unat (bit_ext_u32 insn 15 5);
          rs2 = unat (bit_ext_u32 insn 20 5);
          off = scast (decode_i_store_off insn) :: 'x word;
          addr = ucast (riscv_read_reg vm rs1 + off) :: u64;
          funct3 = bit_ext_u32 insn 12 3
      in if funct3 = 0 then riscv_store_u8 m vm addr rs2
         else if funct3 = 1 then riscv_store_u16 m vm addr rs2
         else if funct3 = 2 then riscv_store_u32 m vm addr rs2
         else if funct3 = 3 \<and> riscv64 xl then riscv_store_u64 m vm addr rs2
         else riscv_illegal_insn vm insn)"

section \<open>Register-immediate operations\<close>

definition imm_value :: "u32 \<Rightarrow> 'x::len word \<Rightarrow> 'x word option" where
  "imm_value insn src =
     (let imm = scast (bit_ext_i32 insn 20 12) :: 'x word;
          funct3 = bit_ext_u32 insn 12 3;
          shamt = decode_i_shamt TYPE('x) insn;
          sh = unat shamt;
          funct7 = decode_i_shift_funct7 TYPE('x) insn
      in if funct3 = 0 then Some (src + imm)
         else if funct3 = 1 then
           (if funct7 = 0x00 then Some (shl src sh)
            else if funct7 = 0x04 \<and> \<not> riscv64 TYPE('x) then
              (if shamt = 0x0F then Some (ucast (bit_zip32 (ucast src))) else None)
            else if funct7 = 0x14 then Some (src OR shl 1 sh)
            else if funct7 = 0x24 then Some (src AND NOT (shl 1 sh))
            else if funct7 = 0x34 then Some (src XOR shl 1 sh)
            else if funct7 = 0x30 then
              (if shamt = 0x00 then Some (ucast (bit_clz src))
               else if shamt = 0x01 then Some (ucast (bit_ctz src))
               else if shamt = 0x02 then Some (ucast (bit_popcnt src))
               else if shamt = 0x04 then Some (scast (ucast src :: u8))
               else if shamt = 0x05 then Some (scast (ucast src :: u16))
               else None)
            else None)
         else if funct3 = 2 then Some (of_cbool (sint src < sint imm))
         else if funct3 = 3 then Some (of_cbool (src < imm))
         else if funct3 = 4 then Some (src XOR imm)
         else if funct3 = 5 then
           (if funct7 = 0x00 then Some (shr src sh)
            else if funct7 = 0x20 then Some (sar src sh)
            else if funct7 = 0x04 \<and> \<not> riscv64 TYPE('x) then
              (if shamt = 0x0F then Some (ucast (bit_unzip32 (ucast src))) else None)
            else if funct7 = 0x14 then
              (if shamt = 0x07 then Some (ucast (bit_orc_b (ucast src))) else None)
            else if funct7 = 0x24 then Some (shr src sh AND 1)
            else if funct7 = 0x34 then
              (if shamt = 0x07 then Some (ucast (bit_brev8 (ucast src)))
               else if shamt = 0x38 \<and> riscv64 TYPE('x) then Some (ucast (byteswap_uint64 (ucast src)))
               else if shamt = 0x18 \<and> \<not> riscv64 TYPE('x) then Some (ucast (byteswap_uint32 (ucast src)))
               else None)
            else if funct7 = 0x30 then Some (bit_rotr src shamt)
            else None)
         else if funct3 = 6 then Some (src OR imm)
         else if funct3 = 7 then Some (src AND imm)
         else None)"

definition riscv_emulate_i_opc_imm :: "'x::len itself \<Rightarrow> 'd hart \<Rightarrow> u32 \<Rightarrow> 'd hart" where
  "riscv_emulate_i_opc_imm (xl :: 'x itself) vm insn =
     (let rds = unat (bit_ext_u32 insn 7 5);
          rs1 = unat (bit_ext_u32 insn 15 5)
      in case imm_value insn (riscv_read_reg vm rs1 :: 'x word) of
           Some v \<Rightarrow> riscv_write_reg vm rds v
         | None \<Rightarrow> riscv_illegal_insn vm insn)"

definition riscv_emulate_i_auipc :: "'x::len itself \<Rightarrow> 'd hart \<Rightarrow> u32 \<Rightarrow> 'd hart" where
  "riscv_emulate_i_auipc (xl :: 'x itself) vm insn =
     (let rds = unat (bit_ext_u32 insn 7 5);
          imm = scast (insn AND 0xFFFFF000) :: 'x word;
          pc = riscv_read_reg vm RISCV_REG_PC :: 'x word
      in riscv_write_reg vm rds (pc + imm))"

definition imm32_value :: "u32 \<Rightarrow> u32 \<Rightarrow> 'x::len word option" where
  "imm32_value insn src =
     (let key = insn AND 0xFE007000;
          shamt = unat (bit_ext_u32 insn 20 5)
      in if bit_ext_u32 insn 12 3 = 0 then Some (scast (src + bit_ext_i32 insn 20 12))
         else if key = 0x00001000 then Some (scast (shl src shamt))
         else if key = 0x08001000 \<or> key = 0x0A001000 then Some (shl (ucast src) (unat (bit_ext_u32 insn 20 6)))
         else if key = 0x60001000 then
           (if bit_ext_u32 insn 20 5 = 0x00 then Some (ucast (bit_clz32 src))
            else if bit_ext_u32 insn 20 5 = 0x01 then Some (ucast (bit_ctz32 src))
            else if bit_ext_u32 insn 20 5 = 0x02 then Some (ucast (bit_popcnt32 src))
            else None)
         else if key = 0x00005000 then Some (scast (shr src shamt))
         else if key = 0x40005000 then Some (scast (sar src shamt))
         else if key = 0x60005000 then Some (scast (bit_rotr32 src (bit_ext_u32 insn 20 5)))
         else None)"

definition riscv_emulate_i_opc_imm32 :: "'x::len itself \<Rightarrow> 'd hart \<Rightarrow> u32 \<Rightarrow> 'd hart" where
  "riscv_emulate_i_opc_imm32 (xl :: 'x itself) vm insn =
     (let rds = unat (bit_ext_u32 insn 7 5);
          rs1 = unat (bit_ext_u32 insn 15 5);
          src = ucast (riscv_read_reg vm rs1 :: 'x word) :: u32
      in case imm32_value insn src of
           Some v \<Rightarrow> riscv_write_reg vm rds (v :: 'x word)
         | None \<Rightarrow> riscv_illegal_insn vm insn)"

section \<open>Register-register operations\<close>

definition div_value :: "'x::len word \<Rightarrow> 'x word \<Rightarrow> 'x word" where
  "div_value reg1 reg2 =
     (if reg1 = DIV_OVERFLOW_RS1 TYPE('x) \<and> reg2 = -1 then DIV_OVERFLOW_RS1 TYPE('x)
      else if reg2 \<noteq> 0 then word_of_int (sint reg1 sdiv sint reg2)
      else -1)"

definition divu_value :: "'x::len word \<Rightarrow> 'x word \<Rightarrow> 'x word" where
  "divu_value reg1 reg2 = (if reg2 \<noteq> 0 then reg1 div reg2 else -1)"

definition rem_value :: "'x::len word \<Rightarrow> 'x word \<Rightarrow> 'x word" where
  "rem_value reg1 reg2 =
     (if reg1 = DIV_OVERFLOW_RS1 TYPE('x) \<and> reg2 = -1 then 0
      else if reg2 \<noteq> 0 then word_of_int (sint reg1 smod sint reg2)
      else reg1)"

definition remu_value :: "'x::len word \<Rightarrow> 'x word \<Rightarrow> 'x word" where
  "remu_value reg1 reg2 = (if reg2 \<noteq> 0 then reg1 mod reg2 else reg1)"

text \<open>The cases of the base set and of the M extension.\<close>

definition op_value_im :: "u32 \<Rightarrow> 'x::len word \<Rightarrow> 'x word \<Rightarrow> 'x word option" where
  "op_value_im key reg1 reg2 =
     (let sh = unat ((ucast reg2 :: u64) AND bit_mask (SHAMT_BITS TYPE('x))) in
      if key = 0x00000000 then Some (reg1 + reg2)
      else if key = 0x40000000 then Some (reg1 - reg2)
      else if key = 0x00001000 then Some (shl reg1 sh)
      else if key = 0x00002000 then Some (of_cbool (sint reg1 < sint reg2))
      else if key = 0x00003000 then Some (of_cbool (reg1 < reg2))
      else if key = 0x00004000 then Some (reg1 XOR reg2)
      else if key = 0x00005000 then Some (shr reg1 sh)
      else if key = 0x40005000 then Some (sar reg1 sh)
      else if key = 0x00006000 then Some (reg1 OR reg2)
      else if key = 0x00007000 then Some (reg1 AND reg2)
      else if key = 0x02000000 then Some (reg1 * reg2)
      else if key = 0x02001000 then
        Some (if riscv64 TYPE('x) then ucast (mulh_uint64 (ucast reg1) (ucast reg2))
              else ucast (sar (scast reg1 * scast reg2 :: u64) 32))
      else if key = 0x02002000 then
        Some (if riscv64 TYPE('x) then ucast (mulhsu_uint64 (ucast reg1) (ucast reg2))
              else ucast (shr (scast reg1 * ucast reg2 :: u64) 32))
      else if key = 0x02003000 then
        Some (if riscv64 TYPE('x) then ucast (mulhu_uint64 (ucast reg1) (ucast reg2))
              else ucast (shr (ucast reg1 * ucast reg2 :: u64) 32))
      else if key = 0x02004000 then Some (div_value reg1 reg2)
      else if key = 0x02005000 then Some (divu_value reg1 reg2)
      else if key = 0x02006000 then Some (rem_value reg1 reg2)
      else if key = 0x02007000 then Some (remu_value reg1 reg2)
      else None)"

text \<open>The cases of the bit manipulation extensions and of Zicond.\<close>

definition op_value_zb :: "u32 \<Rightarrow> 'x::len word \<Rightarrow> 'x word \<Rightarrow> 'x word option" where
  "op_value_zb key reg1 reg2 =
     (let amount = (ucast reg2 :: u64) AND bit_mask (SHAMT_BITS TYPE('x)); sh = unat amount in
      if key = 0x08004000 then
        Some (if riscv64 TYPE('x) then ucast (ucast (ucast reg1 :: u32) OR shl (ucast reg2) 32 :: u64)
              else ucast (ucast reg1 :: u16) OR shl reg2 16)
      else if key = 0x08007000 then
        Some (ucast (ucast (ucast reg1 :: u8) OR shl (ucast (ucast reg2 :: u8)) 8 :: u32))
      else if key = 0x0A001000 then Some (bit_clmul reg1 reg2)
      else if key = 0x0A002000 then Some (bit_clmulr reg1 reg2)
      else if key = 0x0A003000 then Some (bit_clmulh reg1 reg2)
      else if key = 0x0A004000 then Some (if sint reg1 < sint reg2 then reg1 else reg2)
      else if key = 0x0A005000 then Some (if reg1 < reg2 then reg1 else reg2)
      else if key = 0x0A006000 then Some (if sint reg1 > sint reg2 then reg1 else reg2)
      else if key = 0x0A007000 then Some (if reg1 > reg2 then reg1 else reg2)
      else if key = 0x40004000 then Some (reg1 XOR NOT reg2)
      else if key = 0x40006000 then Some (reg1 OR NOT reg2)
      else if key = 0x40007000 then Some (reg1 AND NOT reg2)
      else if key = 0x60001000 then Some (bit_rotl reg1 (ucast amount))
      else if key = 0x60005000 then Some (bit_rotr reg1 (ucast amount))
      else if key = 0x0E005000 then Some (if reg2 \<noteq> 0 then reg1 else 0)
      else if key = 0x0E007000 then Some (if reg2 \<noteq> 0 then 0 else reg1)
      else if key = 0x20002000 then Some (reg2 + shl reg1 1)
      else if key = 0x20004000 then Some (reg2 + shl reg1 2)
      else if key = 0x20006000 then Some (reg2 + shl reg1 3)
      else if key = 0x28002000 then Some (ucast (riscv_bit_xperm4 (ucast reg1) (ucast reg2)))
      else if key = 0x28004000 then Some (ucast (riscv_bit_xperm8 (ucast reg1) (ucast reg2)))
      else if key = 0x28001000 then Some (reg1 OR shl 1 sh)
      else if key = 0x48001000 then Some (reg1 AND NOT (shl 1 sh))
      else if key = 0x48005000 then Some (shr reg1 sh AND 1)
      else if key = 0x68001000 then Some (reg1 XOR shl 1 sh)
      else None)"

definition op_value :: "u32 \<Rightarrow> 'x::len word \<Rightarrow> 'x word \<Rightarrow> 'x word option" where
  "op_value key reg1 reg2 =
     (case op_value_im key reg1 reg2 of Some v \<Rightarrow> Some v | None \<Rightarrow> op_value_zb key reg1 reg2)"

definition riscv_emulate_i_opc_op :: "'x::len itself \<Rightarrow> 'd hart \<Rightarrow> u32 \<Rightarrow> 'd hart" where
  "riscv_emulate_i_opc_op (xl :: 'x itself) vm insn =
     (let rds = unat (bit_ext_u32 insn 7 5);
          rs1 = unat (bit_ext_u32 insn 15 5);
          rs2 = unat (bit_ext_u32 insn 20 5);
          reg1 = riscv_read_reg vm rs1 :: 'x word;
          reg2 = riscv_read_reg vm rs2 :: 'x word
      in case op_value (insn AND 0xFE007000) reg1 reg2 of
           Some v \<Rightarrow> riscv_write_reg vm rds v
         | None \<Rightarrow> riscv_illegal_insn vm insn)"

definition riscv_emulate_i_lui :: "'x::len itself \<Rightarrow> 'd hart \<Rightarrow> u32 \<Rightarrow> 'd hart" where
  "riscv_emulate_i_lui (xl :: 'x itself) vm insn =
     (let rds = unat (bit_ext_u32 insn 7 5);
          imm = scast (insn AND 0xFFFFF000) :: 'x word
      in riscv_write_reg vm rds imm)"

text \<open>The 32-bit operations of RV64; \<open>full2\<close> is the second operand in full width.\<close>

definition divw_value :: "u32 \<Rightarrow> u32 \<Rightarrow> u32" where
  "divw_value reg1 reg2 =
     (if reg1 = 0x80000000 \<and> reg2 = -1 then 0x80000000
      else if reg2 \<noteq> 0 then word_of_int (sint reg1 sdiv sint reg2)
      else -1)"

definition remw_value :: "u32 \<Rightarrow> u32 \<Rightarrow> u32" where
  "remw_value reg1 reg2 =
     (if reg1 = 0x80000000 \<and> reg2 = -1 then 0
      else if reg2 \<noteq> 0 then word_of_int (sint reg1 smod sint reg2)
      else reg1)"

definition op32_value :: "u32 \<Rightarrow> u32 \<Rightarrow> u32 \<Rightarrow> 'x::len word \<Rightarrow> 'x word option" where
  "op32_value key reg1 reg2 full2 =
     (let sh = unat (reg2 AND 0x1F);
          amount = ucast ((ucast reg2 :: u64) AND bit_mask (SHAMT_BITS TYPE('x))) :: u32
      in
      if key = 0x00000000 then Some (scast (reg1 + reg2))
      else if key = 0x40000000 then Some (scast (reg1 - reg2))
      else if key = 0x00001000 then Some (scast (shl reg1 sh))
      else if key = 0x00005000 then Some (scast (shr reg1 sh))
      else if key = 0x40005000 then Some (scast (sar reg1 sh))
      else if key = 0x02000000 then Some (scast (reg1 * reg2))
      else if key = 0x02004000 then Some (scast (divw_value reg1 reg2))
      else if key = 0x02005000 then Some (scast (if reg2 \<noteq> 0 then reg1 div reg2 else -1))
      else if key = 0x02006000 then Some (scast (remw_value reg1 reg2))
      else if key = 0x02007000 then Some (scast (if reg2 \<noteq> 0 then reg1 mod reg2 else reg1))
      else if key = 0x08004000 then Some (scast (ucast (ucast reg1 :: u16) OR shl reg2 16))
      else if key = 0x60001000 then Some (scast (bit_rotl32 reg1 amount))
      else if key = 0x60005000 then Some (scast (bit_rotr32 reg1 amount))
      else if key = 0x08000000 then Some (full2 + ucast reg1)
      else if key = 0x20002000 then Some (full2 + shl (ucast reg1) 1)
      else if key = 0x20004000 then Some (full2 + shl (ucast reg1) 2)
      else if key = 0x20006000 then Some (full2 + shl (ucast reg1) 3)
      else None)"

definition riscv_emulate_i_opc_op32 :: "'x::len itself \<Rightarrow> 'd hart \<Rightarrow> u32 \<Rightarrow> 'd hart" where
  "riscv_emulate_i_opc_op32 (xl :: 'x itself) vm insn =
     (let rds = unat (bit_ext_u32 insn 7 5);
          rs1 = unat (bit_ext_u32 insn 15 5);
          rs2 = unat (bit_ext_u32 insn 20 5);
          reg1 = ucast (riscv_read_reg vm rs1 :: 'x word) :: u32;
          reg2 = ucast (riscv_read_reg vm rs2 :: 'x word) :: u32
      in case op32_value (insn AND 0xFE007000) reg1 reg2 (riscv_read_reg vm rs2 :: 'x word) of
           Some v \<Rightarrow> riscv_write_reg vm rds v
         | None \<Rightarrow> riscv_illegal_insn vm insn)"

section \<open>Control transfers\<close>

definition branch_taken :: "u32 \<Rightarrow> 'x::len word \<Rightarrow> 'x word \<Rightarrow> bool option" where
  "branch_taken funct3 reg1 reg2 =
     (if funct3 = 0 then Some (reg1 = reg2)
      else if funct3 = 1 then Some (reg1 \<noteq> reg2)
      else if funct3 = 4 then Some (sint reg1 < sint reg2)
      else if funct3 = 5 then Some (sint reg1 \<ge> sint reg2)
      else if funct3 = 6 then Some (reg1 < reg2)
      else if funct3 = 7 then Some (reg1 \<ge> reg2)
      else None)"

definition riscv_emulate_i_opc_branch :: "'x::len itself \<Rightarrow> 'd hart \<Rightarrow> u32 \<Rightarrow> 'd hart" where
  "riscv_emulate_i_opc_branch (xl :: 'x itself) vm insn =
     (let rs1 = unat (bit_ext_u32 insn 15 5);
          rs2 = unat (bit_ext_u32 insn 20 5);
          off = scast (decode_i_branch_off insn) :: 'x word
      in case branch_taken (bit_ext_u32 insn 12 3) (riscv_read_reg vm rs1 :: 'x word) (riscv_read_reg vm rs2) of
           Some True \<Rightarrow> (let pc = riscv_read_reg vm RISCV_REG_PC in riscv_write_reg vm RISCV_REG_PC (pc + off - 4))
         | Some False \<Rightarrow> vm
         | None \<Rightarrow> riscv_illegal_insn vm insn)"

definition riscv_emulate_i_jalr :: "'x::len itself \<Rightarrow> 'd hart \<Rightarrow> u32 \<Rightarrow> 'd hart" where
  "riscv_emulate_i_jalr (xl :: 'x itself) vm insn =
     (if bit_ext_u32 insn 12 3 = 0 then
        (let rds = unat (bit_ext_u32 insn 7 5);
             rs1 = unat (bit_ext_u32 insn 15 5);
             off = scast (bit_ext_i32 insn 20 12) :: 'x word;
             pc = riscv_read_reg vm RISCV_REG_PC :: 'x word;
             jmp_addr = riscv_read_reg vm rs1 :: 'x word;
             vm = riscv_write_reg vm rds (pc + 4)
         in riscv_write_reg vm RISCV_REG_PC (((jmp_addr + off) AND NOT 1) - 4))
      else riscv_illegal_insn vm insn)"

definition riscv_emulate_i_jal :: "'x::len itself \<Rightarrow> 'd hart \<Rightarrow> u32 \<Rightarrow> 'd hart" where
  "riscv_emulate_i_jal (xl :: 'x itself) vm insn =
     (let rds = unat (bit_ext_u32 insn 7 5);
          off = scast (decode_i_jal_off insn) :: 'x word;
          pc = riscv_read_reg vm RISCV_REG_PC :: 'x word;
          vm = riscv_write_reg vm rds (pc + 4)
      in riscv_write_reg vm RISCV_REG_PC (pc + off - 4))"

section \<open>Dispatch on the opcode\<close>

definition riscv_emulate_i :: "'x::len itself \<Rightarrow> 'd machine \<Rightarrow> 'd hart \<Rightarrow> u32 \<Rightarrow> 'd hart option" where
  "riscv_emulate_i xl m vm insn =
     (let opc = insn AND 0x7C in
      if opc = 0x00 then Some (riscv_emulate_i_opc_load xl m vm insn)
      else if opc = 0x0C then Some (riscv_emulate_opc_misc_mem m vm insn)
      else if opc = 0x10 then Some (riscv_emulate_i_opc_imm xl vm insn)
      else if opc = 0x14 then Some (riscv_emulate_i_auipc xl vm insn)
      else if opc = 0x18 \<and> riscv64 xl then Some (riscv_emulate_i_opc_imm32 xl vm insn)
      else if opc = 0x20 then Some (riscv_emulate_i_opc_store xl m vm insn)
      else if opc = 0x2C then Some (riscv_emulate_a_opc_amo xl m vm insn)
      else if opc = 0x30 then Some (riscv_emulate_i_opc_op xl vm insn)
      else if opc = 0x34 then Some (riscv_emulate_i_lui xl vm insn)
      else if opc = 0x38 \<and> riscv64 xl then Some (riscv_emulate_i_opc_op32 xl vm insn)
      else if opc = 0x60 then Some (riscv_emulate_i_opc_branch xl vm insn)
      else if opc = 0x64 then Some (riscv_emulate_i_jalr xl vm insn)
      else if opc = 0x6C then Some (riscv_emulate_i_jal xl vm insn)
      else if opc = 0x70 then riscv_emulate_opc_system m vm insn
      else Some (riscv_illegal_insn vm insn))"

section \<open>Division\<close>

lemma sint_of_int_small:
  "- (2 ^ (LENGTH('x) - 1)) \<le> k \<Longrightarrow> k < 2 ^ (LENGTH('x) - 1) \<Longrightarrow> sint (word_of_int k :: 'x::len word) = k"
  by (simp add: sint_sbintrunc' signed_take_bit_int_eq_self)

lemma overflow_sint:
  "a = DIV_OVERFLOW_RS1 TYPE(64) \<longleftrightarrow> sint a = - (2 ^ 63)" "b = DIV_OVERFLOW_RS1 TYPE(32) \<longleftrightarrow> sint b = - (2 ^ 31)"
proof -
  have "sint (0x8000000000000000 :: u64) = - (2 ^ 63)" "sint (0x80000000 :: u32) = - (2 ^ 31)" by code_simp+
  then show "a = DIV_OVERFLOW_RS1 TYPE(64) \<longleftrightarrow> sint a = - (2 ^ 63)" "b = DIV_OVERFLOW_RS1 TYPE(32) \<longleftrightarrow> sint b = - (2 ^ 31)"
    unfolding DIV_OVERFLOW_RS1_def by (metis riscv64_simps sint_eq_iff)+
qed

lemma quotient_range:
  fixes a b n :: int
  assumes "b \<noteq> 0" "- n \<le> a" "a < n" "\<not> (a = - n \<and> b = -1)"
  shows "- n \<le> a sdiv b" "a sdiv b < n"
proof -
  have r: "- \<bar>a\<bar> \<le> a sdiv b" "a sdiv b \<le> \<bar>a\<bar>" using sdiv_int_range [of a b] by simp_all
  then show "- n \<le> a sdiv b" using assms(2,3) by linarith
  show "a sdiv b < n"
  proof (cases "a = - n")
    case True
    with assms(4) have "b \<noteq> -1" by simp
    show ?thesis
    proof (cases "b < 0")
      case True
      with \<open>b \<noteq> -1\<close> have "2 \<le> \<bar>b\<bar>" by linarith
      then have "\<bar>a\<bar> div \<bar>b\<bar> \<le> \<bar>a\<bar> div 2" by (intro zdiv_mono2) auto
      moreover have "a sdiv b = \<bar>a\<bar> div \<bar>b\<bar>" using True \<open>a = - n\<close> assms(2,3) by (simp add: signed_divide_int_def)
      moreover have "\<bar>a\<bar> div 2 < n" using \<open>a = - n\<close> assms(3) by auto
      ultimately show ?thesis by linarith
    next
      case False
      then have "a sdiv b = - (\<bar>a\<bar> div \<bar>b\<bar>)" using \<open>a = - n\<close> assms(1-3) by (simp add: signed_divide_int_def)
      moreover have "0 \<le> \<bar>a\<bar> div \<bar>b\<bar>" by (simp add: pos_imp_zdiv_nonneg_iff assms(1))
      ultimately show ?thesis using assms(2,3) True by linarith
    qed
  next
    case False
    with r assms(2,3) show ?thesis by linarith
  qed
qed

text \<open>The law of a signed quotient and remainder that round towards zero.\<close>

definition signed_division_law :: "'x::len word \<Rightarrow> 'x word \<Rightarrow> 'x word \<Rightarrow> 'x word \<Rightarrow> bool" where
  "signed_division_law a b q r \<longleftrightarrow>
     sint a = sint q * sint b + sint r \<and> \<bar>sint r\<bar> < \<bar>sint b\<bar> \<and> (sint r \<noteq> 0 \<longrightarrow> sgn (sint r) = sgn (sint a))"

lemma signed_law:
  fixes a b :: "'x::len word"
  assumes "b \<noteq> 0" "\<not> (sint a = - (2 ^ (LENGTH('x) - 1)) \<and> b = -1)"
  shows "signed_division_law a b (word_of_int (sint a sdiv sint b)) (word_of_int (sint a smod sint b))"
proof -
  have b: "sint b \<noteq> 0" using assms(1) by (simp add: signed_eq_0_iff)
  have m: "sint b = -1 \<longleftrightarrow> b = -1" using sint_eq_iff [of b "-1"] by simp
  have s: "- (2 ^ (LENGTH('x) - 1)) \<le> sint x" "sint x < 2 ^ (LENGTH('x) - 1)" for x :: "'x word"
    using sint_ge [of x] sint_lt [of x] by simp_all
  have q: "sint (word_of_int (sint a sdiv sint b) :: 'x word) = sint a sdiv sint b"
    using assms(2) m by (intro sint_of_int_small quotient_range [OF b s]) auto
  have r: "\<bar>sint a smod sint b\<bar> < \<bar>sint b\<bar>" using smod_int_range [OF b, of "sint a"] by auto
  moreover have "\<bar>sint b\<bar> \<le> 2 ^ (LENGTH('x) - 1)" using s [of b] by linarith
  ultimately have r': "sint (word_of_int (sint a smod sint b) :: 'x word) = sint a smod sint b"
    by (intro sint_of_int_small) linarith+
  have g: "sgn (sint a smod sint b) = sgn (sint a)" if "sint a smod sint b \<noteq> 0"
  proof -
    have "0 \<le> \<bar>sint a\<bar> mod \<bar>sint b\<bar>" using b by simp
    with that have "0 < \<bar>sint a\<bar> mod \<bar>sint b\<bar>" by (auto simp: signed_modulo_int_def)
    then show ?thesis by (simp add: signed_modulo_int_def sgn_mult)
  qed
  show ?thesis
    unfolding signed_division_law_def q r' using r g sdiv_mult_smod_eq [of "sint a" "sint b"] by auto
qed

definition division_law :: "'x::len word \<Rightarrow> 'x word \<Rightarrow> bool" where
  "division_law a b \<longleftrightarrow>
     (\<exists>q r qu ru. op_value 0x02004000 a b = Some q \<and> op_value 0x02006000 a b = Some r
       \<and> op_value 0x02005000 a b = Some qu \<and> op_value 0x02007000 a b = Some ru
       \<and> (if b = 0 then q = -1 \<and> r = a \<and> qu = -1 \<and> ru = a
          else uint a = uint qu * uint b + uint ru \<and> uint ru < uint b
            \<and> (if sint a = - (2 ^ (LENGTH('x) - 1)) \<and> b = -1 then q = a \<and> r = 0 else signed_division_law a b q r)))"

lemma division_lawI:
  fixes a b :: "'x::len word"
  assumes "\<And>x :: 'x word. x = DIV_OVERFLOW_RS1 TYPE('x) \<longleftrightarrow> sint x = - (2 ^ (LENGTH('x) - 1))"
  shows "division_law a b"
proof -
  have u: "uint a = uint (a div b) * uint b + uint (a mod b) \<and> uint (a mod b) < uint b" if "b \<noteq> 0"
  proof -
    have "0 < uint b" using that by (simp add: word_neq_0_conv word_less_def)
    then show ?thesis by (simp add: uint_div uint_mod)
  qed
  have ov: "DIV_OVERFLOW_RS1 TYPE('x) = a \<longleftrightarrow> sint a = - (2 ^ (LENGTH('x) - Suc 0))" using assms [of a] by auto
  show ?thesis
    unfolding division_law_def
    using u signed_law [of b a]
    by (auto simp: op_value_def op_value_im_def div_value_def rem_value_def divu_value_def remu_value_def assms ov Let_def)
qed

section \<open>Crossbar permutations\<close>

lemma xperm4_loop_bit:
  assumes "k \<le> 16"
  shows "bit (xperm4_loop val lut (4 * k) ret) n \<longleftrightarrow>
    bit ret n \<or> (4 * k \<le> n \<and> n < 64 \<and> bit val (4 * unat (shr lut (4 * (n div 4)) AND 15) + n mod 4))"
  using assms
proof (induction "16 - k" arbitrary: k ret)
  case 0
  then have "k = 16" by simp
  then show ?case by (subst xperm4_loop.simps) auto
next
  case (Suc j)
  from Suc(2) have "k < 16" by simp
  let ?x = "ret OR shl (bit_ext_u64 val (unat (shl (shr lut (4 * k) AND 0x0F) 2)) 4) (4 * k)"
  have b: "unat (shr lut (4 * k) AND 15) \<le> 15" using word_and_le1 [of "shr lut (4 * k)" 15] by (simp add: word_le_nat_alt)
  then have idx: "unat (shl (shr lut (4 * k) AND 0x0F) 2) = 4 * unat (shr lut (4 * k) AND 15)"
    by (simp add: push_bit_eq_mult unat_word_ariths)
  have "bit ?x n \<longleftrightarrow> bit ret n \<or> (n div 4 = k \<and> bit val (4 * unat (shr lut (4 * k) AND 15) + n mod 4))"
  proof -
    have "n div 4 = k \<longleftrightarrow> 4 * k \<le> n \<and> n - 4 * k < 4" by auto
    moreover have "n mod 4 = n - 4 * k" if "n div 4 = k" using that by (metis minus_mult_div_eq_mod mult.commute)
    moreover have "n < 64" if "n div 4 = k" using that Suc(2) by linarith
    ultimately show ?thesis unfolding idx using b by (auto simp: bit_simps bit_bit_ext_u64)
  qed
  moreover have "xperm4_loop val lut (4 * k) ret = xperm4_loop val lut (4 * (k + 1)) ?x"
    using \<open>k < 16\<close> by (subst xperm4_loop.simps) (simp add: algebra_simps)
  moreover have "4 * (k + 1) \<le> n \<longleftrightarrow> 4 * k \<le> n \<and> n div 4 \<noteq> k" "n div 4 = k \<longrightarrow> n < 64" using Suc(2) by auto
  ultimately show ?case using Suc(1) [of "k + 1" ?x] Suc(2,3) by auto
qed

lemma xperm8_identity: "riscv_bit_xperm8 val 0x0706050403020100 = val OR shl val 60"
proof -
  have "riscv_bit_xperm8 val 0x0706050403020100 =
     bit_ext_u64 val 0 8 OR shl (bit_ext_u64 val 8 8) 8 OR shl (bit_ext_u64 val 16 8) 16 OR shl (bit_ext_u64 val 24 8) 24
       OR shl (bit_ext_u64 val 32 8) 32 OR shl (bit_ext_u64 val 40 8) 40 OR shl (bit_ext_u64 val 48 8) 48
       OR shl (bit_ext_u64 val 56 8) 56 OR shl (bit_ext_u64 val 0 8) 60"
    unfolding riscv_bit_xperm8_def by (simp add: xperm8_loop.simps Let_def or.assoc)
  also have "\<dots> = val OR shl val 60"
  proof (rule bit_word_eqI)
    fix n assume "n < LENGTH(64)"
    then have n: "n < 64" by simp
    have byte: "bit (shl (bit_ext_u64 val k 8) k) n \<longleftrightarrow> k \<le> n \<and> n < k + 8 \<and> bit val n" if "k \<le> 56" for k
      using that n by (auto simp: bit_simps bitfield_simps)
    have "bit (bit_ext_u64 val 0 8) n \<longleftrightarrow> n < 8 \<and> bit val n" using byte [of 0] by simp
    moreover have "bit (shl (bit_ext_u64 val 0 8) 60) n \<longleftrightarrow> bit (shl val 60) n"
      using n by (auto simp: bit_simps bitfield_simps)
    ultimately show "bit (bit_ext_u64 val 0 8 OR shl (bit_ext_u64 val 8 8) 8 OR shl (bit_ext_u64 val 16 8) 16 OR shl (bit_ext_u64 val 24 8) 24
       OR shl (bit_ext_u64 val 32 8) 32 OR shl (bit_ext_u64 val 40 8) 40 OR shl (bit_ext_u64 val 48 8) 48
       OR shl (bit_ext_u64 val 56 8) 56 OR shl (bit_ext_u64 val 0 8) 60) n \<longleftrightarrow> bit (val OR shl val 60) n"
      using n by (simp only: bit_or_iff byte) (simp, linarith)
  qed
  finally show ?thesis .
qed

section \<open>Properties\<close>

text \<open>
  C18. Division.  On both widths, and in the 32-bit operations of RV64, \<^verbatim>\<open>div\<close> and \<^verbatim>\<open>rem\<close> compute the
  quotient rounded towards zero and the remainder with the sign of the dividend, \<^verbatim>\<open>divu\<close> and \<^verbatim>\<open>remu\<close>
  the unsigned ones.  A zero divisor gives all ones and the dividend; the one overflowing signed
  division gives the dividend and zero.
\<close>

theorem division:
  fixes a b :: u64 and c d :: u32 and f :: u64
  shows "division_law a b \<and> division_law c d
     \<and> op32_value 0x02004000 c d f = map_option scast (op_value 0x02004000 c d)
     \<and> op32_value 0x02005000 c d f = map_option scast (op_value 0x02005000 c d)
     \<and> op32_value 0x02006000 c d f = map_option scast (op_value 0x02006000 c d)
     \<and> op32_value 0x02007000 c d f = map_option scast (op_value 0x02007000 c d)"
  using division_lawI [of a b] division_lawI [of c d] overflow_sint
  by (simp add: op_value_def op_value_im_def op32_value_def div_value_def rem_value_def divu_value_def remu_value_def
    divw_value_def remw_value_def DIV_OVERFLOW_RS1_def Let_def)

text \<open>
  Crossbar permutations.  Nibble \<^verbatim>\<open>i\<close> of \<^verbatim>\<open>xperm4\<close> is the nibble of the value that nibble \<^verbatim>\<open>i\<close> of the
  table selects.  \<^verbatim>\<open>xperm8\<close> also steps by nibbles where its elements are bytes: the identity table
  does not return the value, its lowest nibble is added at the top.
\<close>

theorem crossbar:
  "(bit (riscv_bit_xperm4 val lut) n \<longleftrightarrow> n < 64 \<and> bit val (4 * unat (shr lut (4 * (n div 4)) AND 15) + n mod 4))
   \<and> riscv_bit_xperm8 val 0x0706050403020100 = val OR shl val 60"
  using xperm4_loop_bit [of 0 val lut 0 n] xperm8_identity by (simp add: riscv_bit_xperm4_def)

end
