(* ===== verification/Compressed.thy ===== *)
theory Compressed
  imports Base
begin

text \<open>
  The compressed instruction set with Zcb, \<^verbatim>\<open>src/cpu/riscv_compressed.h\<close>, in the build without the
  FPU, and the dispatch on the length of an instruction.  The word the interpreter hands over may
  hold the halfword that follows a compressed instruction in its upper half.
\<close>

section \<open>Decoding\<close>

definition decode_c_addi4spn_imm :: "u32 \<Rightarrow> u32" where
  "decode_c_addi4spn_imm insn =
     (shr insn 1 AND 0x03C0) OR (shr insn 2 AND 0x0008) OR (shr insn 4 AND 0x0004) OR (shr insn 7 AND 0x0030)"

definition decode_c_jal_imm :: "u32 \<Rightarrow> 'x::len word" where
  "decode_c_jal_imm insn =
     (let imm = (shr insn 1 AND 0x0B40) OR (shr insn 2 AND 0x000E) OR (shr insn 7 AND 0x0010)
                OR (shl insn 1 AND 0x0080) OR (shl insn 2 AND 0x0400) OR (shl insn 3 AND 0x0020)
      in ucast (sign_extend (ucast imm) 12))"

definition decode_c_ld_off :: "u32 \<Rightarrow> u32" where
  "decode_c_ld_off insn = (shl insn 1 AND 0xC0) OR (shr insn 7 AND 0x38)"

definition decode_c_lw_off :: "u32 \<Rightarrow> u32" where
  "decode_c_lw_off insn = (shl insn 1 AND 0x40) OR (shr insn 4 AND 0x04) OR (shr insn 7 AND 0x38)"

definition decode_c_ldsp_off :: "u32 \<Rightarrow> u32" where
  "decode_c_ldsp_off insn = (shr insn 2 AND 0x0018) OR (shr insn 7 AND 0x0020) OR (shl insn 4 AND 0x01C0)"

definition decode_c_lwsp_off :: "u32 \<Rightarrow> u32" where
  "decode_c_lwsp_off insn = (shr insn 2 AND 0x1C) OR (shr insn 7 AND 0x20) OR (shl insn 4 AND 0xC0)"

definition decode_c_sdsp_off :: "u32 \<Rightarrow> u32" where
  "decode_c_sdsp_off insn = (shr insn 1 AND 0x01C0) OR (shr insn 7 AND 0x0038)"

definition decode_c_swsp_off :: "u32 \<Rightarrow> u32" where
  "decode_c_swsp_off insn = (shr insn 1 AND 0xC0) OR (shr insn 7 AND 0x3C)"

definition decode_c_alu_imm :: "u32 \<Rightarrow> u32" where
  "decode_c_alu_imm insn = (let imm = shr (shl insn 25) 1 OR shl (shr insn 12) 31 in sar imm 26)"

definition decode_c_addi16sp_off :: "u32 \<Rightarrow> 'x::len word" where
  "decode_c_addi16sp_off insn =
     (let imm = (shr insn 2 AND 0x0010) OR (shl insn 3 AND 0x0020) OR (shl insn 1 AND 0x0040)
                OR (shl insn 4 AND 0x0180) OR (shr insn 3 AND 0x0200)
      in ucast (sign_extend (ucast imm) 10))"

definition decode_c_lui_imm :: "u32 \<Rightarrow> u32" where
  "decode_c_lui_imm insn = (let imm = shl (insn AND 0x7C) 24 OR shl (shr insn 12) 31 in sar imm 14)"

definition decode_c_branch_imm :: "u32 \<Rightarrow> 'x::len word" where
  "decode_c_branch_imm insn =
     (let imm = (shr insn 2 AND 0x0006) OR (shr insn 7 AND 0x0018) OR (shl insn 3 AND 0x0020)
                OR (shl insn 1 AND 0x00C0) OR (shr insn 4 AND 0x0100)
      in ucast (sign_extend (ucast imm) 9))"

definition decode_c_shamt :: "'x::len itself \<Rightarrow> u32 \<Rightarrow> u32" where
  "decode_c_shamt xl insn =
     (if riscv64 xl then bit_ext_u32 insn 2 5 OR shl (bit_ext_u32 insn 12 1) 5 else bit_ext_u32 insn 2 5)"

section \<open>Quadrant 0\<close>

definition riscv_emulate_c_c0 :: "'x::len itself \<Rightarrow> 'd machine \<Rightarrow> 'd hart \<Rightarrow> u32 \<Rightarrow> 'd hart" where
  "riscv_emulate_c_c0 (xl :: 'x itself) m vm insn =
     (let rds = unat (bit_ext_u32 insn 2 3) + 8;
          rs1 = unat (bit_ext_u32 insn 7 3) + 8;
          funct3 = bit_ext_u32 insn 13 3;
          at = (\<lambda>off. ucast (riscv_read_reg vm rs1 + (ucast off :: 'x word)) :: u64);
          zcb = bit_ext_u32 insn 10 3;
          off1 = shr (insn AND 0x20) 4;
          off2 = shr (insn AND 0x20) 4 OR shr (insn AND 0x40) 6
      in if funct3 = 0 \<and> (ucast (decode_c_addi4spn_imm insn) :: 'x word) \<noteq> 0
         then riscv_write_reg vm rds (riscv_read_reg vm 2 + ucast (decode_c_addi4spn_imm insn) :: 'x word)
         else if funct3 = 2 then riscv_load_s32 m vm (at (decode_c_lw_off insn)) rds
         else if funct3 = 3 \<and> riscv64 xl then riscv_load_u64 m vm (at (decode_c_ld_off insn)) rds
         else if funct3 = 4 \<and> zcb = 0 then riscv_load_u8 m vm (at off2) rds
         else if funct3 = 4 \<and> zcb = 1 then
           (if insn AND 0x40 \<noteq> 0 then riscv_load_s16 m vm (at off1) rds else riscv_load_u16 m vm (at off1) rds)
         else if funct3 = 4 \<and> zcb = 2 then riscv_store_u8 m vm (at off2) rds
         else if funct3 = 4 \<and> zcb = 3 \<and> insn AND 0x40 = 0 then riscv_store_u16 m vm (at off1) rds
         else if funct3 = 6 then riscv_store_u32 m vm (at (decode_c_lw_off insn)) rds
         else if funct3 = 7 \<and> riscv64 xl then riscv_store_u64 m vm (at (decode_c_ld_off insn)) rds
         else riscv_illegal_insn vm insn)"

section \<open>Quadrant 1\<close>

text \<open>What follows the first switch of \<^verbatim>\<open>riscv_emulate_c_c1\<close>: arithmetic on the compressed registers.\<close>

definition c1_value :: "u32 \<Rightarrow> 'x::len word \<Rightarrow> 'x word \<Rightarrow> 'x word option" where
  "c1_value insn reg1 reg2 =
     (let funct2 = bit_ext_u32 insn 10 2;
          sh = unat (decode_c_shamt TYPE('x) insn);
          key = insn AND 0x1C60;
          zcb = bit_ext_u32 insn 2 3
      in if funct2 = 0 then Some (shr reg1 sh)
         else if funct2 = 1 then Some (sar reg1 sh)
         else if funct2 = 2 then Some (reg1 AND scast (decode_c_alu_imm insn))
         else if key = 0x0C00 then Some (reg1 - reg2)
         else if key = 0x0C20 then Some (reg1 XOR reg2)
         else if key = 0x0C40 then Some (reg1 OR reg2)
         else if key = 0x0C60 then Some (reg1 AND reg2)
         else if key = 0x1C00 \<and> riscv64 TYPE('x) then Some (scast (ucast (reg1 - reg2) :: u32))
         else if key = 0x1C20 \<and> riscv64 TYPE('x) then Some (scast (ucast (reg1 + reg2) :: u32))
         else if key = 0x1C40 then Some (reg1 * reg2)
         else if key = 0x1C60 then
           (if zcb = 0 then Some (ucast (ucast reg1 :: u8))
            else if zcb = 1 then Some (scast (ucast reg1 :: u8))
            else if zcb = 2 then Some (ucast (ucast reg1 :: u16))
            else if zcb = 3 then Some (scast (ucast reg1 :: u16))
            else if zcb = 4 \<and> riscv64 TYPE('x) then Some (ucast (ucast reg1 :: u32))
            else if zcb = 5 then Some (NOT reg1)
            else None)
         else None)"

definition c1_misc_alu :: "'x::len itself \<Rightarrow> 'd hart \<Rightarrow> u32 \<Rightarrow> 'd hart" where
  "c1_misc_alu (xl :: 'x itself) vm insn =
     (let rds = unat (bit_ext_u32 insn 7 3) + 8;
          rs2 = unat (bit_ext_u32 insn 2 3) + 8
      in case c1_value insn (riscv_read_reg vm rds :: 'x word) (riscv_read_reg vm rs2) of
           Some v \<Rightarrow> riscv_write_reg vm rds v
         | None \<Rightarrow> riscv_illegal_insn vm insn)"

definition riscv_emulate_c_c1 :: "'x::len itself \<Rightarrow> 'd hart \<Rightarrow> u32 \<Rightarrow> 'd hart" where
  "riscv_emulate_c_c1 (xl :: 'x itself) vm insn =
     (let funct3 = bit_ext_u32 insn 13 3;
          rds = unat (bit_ext_u32 insn 7 5);
          rs1 = unat (bit_ext_u32 insn 7 3) + 8;
          imm = scast (decode_c_alu_imm insn) :: 'x word;
          pc = riscv_read_reg vm RISCV_REG_PC :: 'x word;
          jump = scast (ucast (decode_c_jal_imm insn :: 'x word) :: u32) :: 'x word;
          branch = scast (ucast (decode_c_branch_imm insn :: 'x word) :: u32) :: 'x word
      in if funct3 = 0 then riscv_write_reg vm rds (riscv_read_reg vm rds + imm)
         else if funct3 = 1 then
           (if riscv64 xl then
              (if rds \<noteq> 0
               then riscv_write_reg vm rds (scast (ucast (riscv_read_reg vm rds + imm) :: u32) :: 'x word)
               else c1_misc_alu xl vm insn)
            else riscv_write_reg (riscv_write_reg vm 1 (pc + 2)) RISCV_REG_PC (pc + jump - 2))
         else if funct3 = 2 then riscv_write_reg vm rds imm
         else if funct3 = 3 then
           (if insn AND 0x107C \<noteq> 0 then
              (if rds = 2
               then riscv_write_reg vm 2 (riscv_read_reg vm 2 + (scast (ucast (decode_c_addi16sp_off insn :: 'x word) :: u32) :: 'x word))
               else riscv_write_reg vm rds (scast (decode_c_lui_imm insn) :: 'x word))
            else if odd rds \<and> rds < 16 then vm
            else c1_misc_alu xl vm insn)
         else if funct3 = 5 then riscv_write_reg vm RISCV_REG_PC (pc + jump - 2)
         else if funct3 = 6 then
           (if (riscv_read_reg vm rs1 :: 'x word) \<noteq> 0 then vm else riscv_write_reg vm RISCV_REG_PC (pc + branch - 2))
         else if funct3 = 7 then
           (if (riscv_read_reg vm rs1 :: 'x word) = 0 then vm else riscv_write_reg vm RISCV_REG_PC (pc + branch - 2))
         else c1_misc_alu xl vm insn)"

section \<open>Quadrant 2\<close>

definition riscv_emulate_c_c2 :: "'x::len itself \<Rightarrow> 'd machine \<Rightarrow> 'd hart \<Rightarrow> u32 \<Rightarrow> 'd hart" where
  "riscv_emulate_c_c2 (xl :: 'x itself) m vm insn =
     (let rds = unat (bit_ext_u32 insn 7 5);
          rs2 = unat (bit_ext_u32 insn 2 5);
          funct4 = bit_ext_u32 insn 12 4;
          at = (\<lambda>off. ucast (riscv_read_reg vm 2 + (ucast off :: 'x word)) :: u64)
      in if funct4 = 0 \<or> funct4 = 1
         then riscv_write_reg vm rds (shl (riscv_read_reg vm rds :: 'x word) (unat (decode_c_shamt xl insn)))
         else if (funct4 = 4 \<or> funct4 = 5) \<and> rds \<noteq> 0 then riscv_load_s32 m vm (at (decode_c_lwsp_off insn)) rds
         else if (funct4 = 6 \<or> funct4 = 7) \<and> riscv64 xl \<and> rds \<noteq> 0 then riscv_load_u64 m vm (at (decode_c_ldsp_off insn)) rds
         else if funct4 = 8 \<and> rs2 \<noteq> 0 then riscv_write_reg vm rds (riscv_read_reg vm rs2 :: 'x word)
         else if funct4 = 8 \<and> rds \<noteq> 0 then riscv_write_reg vm RISCV_REG_PC (riscv_read_reg vm rds - 2 :: 'x word)
         else if funct4 = 9 then
           (if rs2 \<noteq> 0 then riscv_write_reg vm rds (riscv_read_reg vm rds + riscv_read_reg vm rs2 :: 'x word)
            else if rds \<noteq> 0 then
              (let vm = riscv_write_reg vm 1 (riscv_read_reg vm RISCV_REG_PC + 2 :: 'x word)
               in riscv_write_reg vm RISCV_REG_PC (riscv_read_reg vm rds - 2 :: 'x word))
            else riscv_breakpoint m vm)
         else if funct4 = 0xC \<or> funct4 = 0xD then riscv_store_u32 m vm (at (decode_c_swsp_off insn)) rs2
         else if (funct4 = 0xE \<or> funct4 = 0xF) \<and> riscv64 xl then riscv_store_u64 m vm (at (decode_c_sdsp_off insn)) rs2
         else riscv_illegal_insn vm insn)"

section \<open>One instruction\<close>

definition add_pc :: "'d hart \<Rightarrow> u64 \<Rightarrow> 'd hart" where
  "add_pc vm n = set_pc vm (reg_pc vm + n)"

definition riscv_emulate_insn :: "'x::len itself \<Rightarrow> 'd machine \<Rightarrow> 'd hart \<Rightarrow> u32 \<Rightarrow> 'd hart option" where
  "riscv_emulate_insn xl m vm insn =
     (let op = insn AND 0x03 in
      if op = 0 then Some (add_pc (riscv_emulate_c_c0 xl m vm insn) 2)
      else if op = 1 then Some (add_pc (riscv_emulate_c_c1 xl vm insn) 2)
      else if op = 2 then Some (add_pc (riscv_emulate_c_c2 xl m vm insn) 2)
      else map_option (\<lambda>vm. add_pc vm 4) (riscv_emulate_i xl m vm insn))"

section \<open>Expansion of compressed instructions\<close>

text \<open>The 32-bit instruction formats.\<close>

definition enc_r :: "u32 \<Rightarrow> u32 \<Rightarrow> u32 \<Rightarrow> u32 \<Rightarrow> u32 \<Rightarrow> u32" where
  "enc_r key rs2 rs1 rd opc = key OR shl rs2 20 OR shl rs1 15 OR shl rd 7 OR opc"

definition enc_i :: "u32 \<Rightarrow> u32 \<Rightarrow> u32 \<Rightarrow> u32 \<Rightarrow> u32 \<Rightarrow> u32" where
  "enc_i imm rs1 funct3 rd opc = shl imm 20 OR shl rs1 15 OR shl funct3 12 OR shl rd 7 OR opc"

definition enc_s :: "u32 \<Rightarrow> u32 \<Rightarrow> u32 \<Rightarrow> u32 \<Rightarrow> u32 \<Rightarrow> u32" where
  "enc_s imm rs2 rs1 funct3 opc =
     shl (shr imm 5) 25 OR shl rs2 20 OR shl rs1 15 OR shl funct3 12 OR shl (imm AND 0x1F) 7 OR opc"

definition enc_u :: "u32 \<Rightarrow> u32 \<Rightarrow> u32 \<Rightarrow> u32" where
  "enc_u imm rd opc = (imm AND 0xFFFFF000) OR shl rd 7 OR opc"

definition below :: "nat \<Rightarrow> u32 \<Rightarrow> bool" where
  "below k w \<longleftrightarrow> (\<forall>n\<ge>k. \<not> bit w n)"

lemma below_ext: "0 < n \<Longrightarrow> p + n \<le> 32 \<Longrightarrow> n \<le> k \<Longrightarrow> below k (bit_ext_u32 w p n)"
  by (auto simp: below_def bitfield_simps)

lemma enc_i_fields:
  assumes "below 5 rs1" "below 3 funct3" "below 5 rd" "below 7 opc"
  shows "bit_ext_u32 (enc_i imm rs1 funct3 rd opc) 7 5 = rd" "bit_ext_u32 (enc_i imm rs1 funct3 rd opc) 12 3 = funct3"
    "bit_ext_u32 (enc_i imm rs1 funct3 rd opc) 15 5 = rs1" "enc_i imm rs1 funct3 rd opc AND 0x7C = opc AND 0x7C"
    "bit_ext_i32 (enc_i imm rs1 funct3 rd opc) 20 12 = bit_ext_i32 imm 0 12"
    "bit_ext_u32 (enc_i imm rs1 funct3 rd opc) 20 6 = bit_ext_u32 imm 0 6"
    "shr (enc_i imm rs1 funct3 rd opc) 26 = bit_ext_u32 imm 6 6"
  using assms unfolding below_def by - (rule word_eqI_32, simp add: enc_i_def bitfield_simps bit_simps bit_numeral_rec)+

lemma enc_r_fields:
  assumes "below 5 rs1" "below 5 rs2" "below 5 rd" "below 7 opc" "key AND 0xFE007000 = key"
  shows "bit_ext_u32 (enc_r key rs2 rs1 rd opc) 7 5 = rd" "bit_ext_u32 (enc_r key rs2 rs1 rd opc) 20 5 = rs2"
    "bit_ext_u32 (enc_r key rs2 rs1 rd opc) 15 5 = rs1" "enc_r key rs2 rs1 rd opc AND 0x7C = opc AND 0x7C"
    "enc_r key rs2 rs1 rd opc AND 0xFE007000 = key"
proof -
  have m: "(0xFE007000 :: u32) = shl (mask 7) 25 OR shl (mask 3) 12" by (simp add: mask_eq_exp_minus_1)
  have "bit key n \<Longrightarrow> bit (0xFE007000 :: u32) n" for n using assms(5) by (metis bit_and_iff)
  then have "bit key n \<Longrightarrow> 25 \<le> n \<or> 12 \<le> n \<and> n < 15" for n unfolding m by (fastforce simp: bit_simps)
  then have k': "n < 12 \<or> 15 \<le> n \<and> n < 25 \<Longrightarrow> \<not> bit key n" for n by fastforce
  show "bit_ext_u32 (enc_r key rs2 rs1 rd opc) 7 5 = rd" "bit_ext_u32 (enc_r key rs2 rs1 rd opc) 20 5 = rs2"
    "bit_ext_u32 (enc_r key rs2 rs1 rd opc) 15 5 = rs1" "enc_r key rs2 rs1 rd opc AND 0x7C = opc AND 0x7C"
    "enc_r key rs2 rs1 rd opc AND 0xFE007000 = key"
    using assms unfolding below_def by - (rule word_eqI_32, simp add: enc_r_def bitfield_simps bit_simps bit_numeral_rec k')+
qed

lemma enc_s_fields:
  assumes "below 5 rs1" "below 5 rs2" "below 3 funct3" "below 7 opc"
  shows "bit_ext_u32 (enc_s imm rs2 rs1 funct3 opc) 20 5 = rs2" "bit_ext_u32 (enc_s imm rs2 rs1 funct3 opc) 12 3 = funct3"
    "bit_ext_u32 (enc_s imm rs2 rs1 funct3 opc) 15 5 = rs1" "enc_s imm rs2 rs1 funct3 opc AND 0x7C = opc AND 0x7C"
    "decode_i_store_off (enc_s imm rs2 rs1 funct3 opc) = bit_ext_i32 imm 0 12"
  using assms unfolding below_def by - (rule word_eqI_32, simp add: enc_s_def decode_i_store_off_def bitfield_simps bit_simps bit_numeral_rec)+

lemma enc_u_fields:
  assumes "below 5 rd" "below 7 opc"
  shows "bit_ext_u32 (enc_u imm rd opc) 7 5 = rd" "enc_u imm rd opc AND 0x7C = opc AND 0x7C"
    "enc_u imm rd opc AND 0xFFFFF000 = imm AND 0xFFFFF000"
  using assms unfolding below_def by - (rule word_eqI_32, simp add: enc_u_def bitfield_simps bit_simps bit_numeral_rec)+

text \<open>The instruction of RV64 that a compressed instruction stands for, jumps, branches and breakpoints apart.\<close>

definition c_expand :: "u32 \<Rightarrow> u32 option" where
  "c_expand c =
     (let op = c AND 3; f3 = bit_ext_u32 c 13 3; f4 = bit_ext_u32 c 12 4;
          rd = bit_ext_u32 c 7 5; rs2 = bit_ext_u32 c 2 5;
          rd1 = bit_ext_u32 c 7 3 + 8; rd2 = bit_ext_u32 c 2 3 + 8;
          imm = decode_c_alu_imm c; shamt = bit_ext_u32 c 2 5 OR shl (bit_ext_u32 c 12 1) 5;
          f2 = bit_ext_u32 c 10 2; key = c AND 0x1C60; zcb = bit_ext_u32 c 10 3; zcb1 = bit_ext_u32 c 2 3;
          off1 = shr (c AND 0x20) 4; off2 = shr (c AND 0x20) 4 OR shr (c AND 0x40) 6
      in
      if op = 0 then
        (if f3 = 0 \<and> decode_c_addi4spn_imm c \<noteq> 0 then Some (enc_i (decode_c_addi4spn_imm c) 2 0 rd2 0x13)
         else if f3 = 2 then Some (enc_i (decode_c_lw_off c) rd1 2 rd2 0x03)
         else if f3 = 3 then Some (enc_i (decode_c_ld_off c) rd1 3 rd2 0x03)
         else if f3 = 4 \<and> zcb = 0 then Some (enc_i off2 rd1 4 rd2 0x03)
         else if f3 = 4 \<and> zcb = 1 then Some (enc_i off1 rd1 (if c AND 0x40 \<noteq> 0 then 1 else 5) rd2 0x03)
         else if f3 = 4 \<and> zcb = 2 then Some (enc_s off2 rd2 rd1 0 0x23)
         else if f3 = 4 \<and> zcb = 3 \<and> c AND 0x40 = 0 then Some (enc_s off1 rd2 rd1 1 0x23)
         else if f3 = 6 then Some (enc_s (decode_c_lw_off c) rd2 rd1 2 0x23)
         else if f3 = 7 then Some (enc_s (decode_c_ld_off c) rd2 rd1 3 0x23)
         else None)
      else if op = 1 then
        (if f3 = 0 then Some (enc_i imm rd 0 rd 0x13)
         else if f3 = 1 \<and> rd \<noteq> 0 then Some (enc_i imm rd 0 rd 0x1B)
         else if f3 = 2 then Some (enc_i imm 0 0 rd 0x13)
         else if f3 = 3 \<and> c AND 0x107C \<noteq> 0 then
           Some (if rd = 2 then enc_i (decode_c_addi16sp_off c) 2 0 2 0x13 else enc_u (decode_c_lui_imm c) rd 0x37)
         else if f3 = 4 then
           (if f2 = 0 then Some (enc_i shamt rd1 5 rd1 0x13)
            else if f2 = 1 then Some (enc_i (0x400 OR shamt) rd1 5 rd1 0x13)
            else if f2 = 2 then Some (enc_i imm rd1 7 rd1 0x13)
            else if key = 0x0C00 then Some (enc_r 0x40000000 rd2 rd1 rd1 0x33)
            else if key = 0x0C20 then Some (enc_r 0x00004000 rd2 rd1 rd1 0x33)
            else if key = 0x0C40 then Some (enc_r 0x00006000 rd2 rd1 rd1 0x33)
            else if key = 0x0C60 then Some (enc_r 0x00007000 rd2 rd1 rd1 0x33)
            else if key = 0x1C00 then Some (enc_r 0x40000000 rd2 rd1 rd1 0x3B)
            else if key = 0x1C20 then Some (enc_r 0x00000000 rd2 rd1 rd1 0x3B)
            else if key = 0x1C40 then Some (enc_r 0x02000000 rd2 rd1 rd1 0x33)
            else if key = 0x1C60 \<and> zcb1 = 0 then Some (enc_i 0xFF rd1 7 rd1 0x13)
            else if key = 0x1C60 \<and> zcb1 = 1 then Some (enc_i 0x604 rd1 1 rd1 0x13)
            else if key = 0x1C60 \<and> zcb1 = 2 then Some (enc_r 0x08004000 0 rd1 rd1 0x3B)
            else if key = 0x1C60 \<and> zcb1 = 3 then Some (enc_i 0x605 rd1 1 rd1 0x13)
            else if key = 0x1C60 \<and> zcb1 = 4 then Some (enc_r 0x08000000 0 rd1 rd1 0x3B)
            else if key = 0x1C60 \<and> zcb1 = 5 then Some (enc_i 0xFFF rd1 4 rd1 0x13)
            else None)
         else None)
      else if op = 2 then
        (if f4 = 0 \<or> f4 = 1 then Some (enc_i shamt rd 1 rd 0x13)
         else if (f4 = 4 \<or> f4 = 5) \<and> rd \<noteq> 0 then Some (enc_i (decode_c_lwsp_off c) 2 2 rd 0x03)
         else if (f4 = 6 \<or> f4 = 7) \<and> rd \<noteq> 0 then Some (enc_i (decode_c_ldsp_off c) 2 3 rd 0x03)
         else if f4 = 8 \<and> rs2 \<noteq> 0 then Some (enc_r 0 rs2 0 rd 0x33)
         else if f4 = 9 \<and> rs2 \<noteq> 0 then Some (enc_r 0 rs2 rd rd 0x33)
         else if f4 = 0xC \<or> f4 = 0xD then Some (enc_s (decode_c_swsp_off c) rs2 2 2 0x23)
         else if f4 = 0xE \<or> f4 = 0xF then Some (enc_s (decode_c_sdsp_off c) rs2 2 3 0x23)
         else None)
      else None)"

text \<open>What the base instructions do, on their encodings.\<close>

lemma belowI: "unat w < 2 ^ k \<Longrightarrow> below k w"
  unfolding below_def
proof (intro allI impI)
  fix n assume "unat w < 2 ^ k" "k \<le> n"
  then have "take_bit k (unat w) = unat w" by (simp add: take_bit_nat_eq_self)
  then have "\<not> bit (unat w) n" using \<open>k \<le> n\<close> bit_take_bit_iff [of k "unat w" n] by simp
  then show "\<not> bit w n" by (simp add: bit_unsigned_iff)
qed

lemma below_opc: "below 7 0x13" "below 7 0x03" "below 7 0x1B" "below 7 0x33" "below 7 0x3B" "below 7 0x23" "below 7 0x37"
    "below 3 0" "below 3 1" "below 3 2" "below 3 3" "below 3 4" "below 3 5" "below 3 7" "below 5 0" "below 5 2"
  by (rule belowI; simp)+

lemma unat_fields: "unat (bit_ext_u32 c 7 3 + 8) = unat (bit_ext_u32 c 7 3) + 8" "unat (bit_ext_u32 c 2 3 + 8) = unat (bit_ext_u32 c 2 3) + 8"
  using unat_ext_u32_less [of 3 7 c] unat_ext_u32_less [of 3 2 c] by (simp_all add: unat_word_ariths(1))

lemma below_fields: "below 5 (bit_ext_u32 c 7 5)" "below 5 (bit_ext_u32 c 2 5)"
    "below 5 (bit_ext_u32 c 7 3 + 8)" "below 5 (bit_ext_u32 c 2 3 + 8)"
  using unat_ext_u32_less [of 3 7 c] unat_ext_u32_less [of 3 2 c]
  by (intro below_ext belowI; simp add: unat_fields)+

lemma exec_imm:
  assumes "below 5 rs1" "below 3 f3" "below 5 rd"
  shows "riscv_emulate_i TYPE(64) m vm (enc_i imm rs1 f3 rd 0x13) =
    Some (case imm_value (enc_i imm rs1 f3 rd 0x13) (registers vm (unat rs1)) of
      Some v \<Rightarrow> set_reg vm (unat rd) v | None \<Rightarrow> riscv_illegal_insn vm (enc_i imm rs1 f3 rd 0x13))"
  using enc_i_fields [OF assms below_opc(1), of imm]
   by (simp add: riscv_emulate_i_def riscv_emulate_i_opc_imm_def Let_def split: option.split)

lemma imm_value_enc:
  assumes "below 5 rs1" "below 5 rd"
  shows "imm_value (enc_i imm rs1 0 rd 0x13) (src :: u64) = Some (src + scast (bit_ext_i32 imm 0 12))"
    "imm_value (enc_i imm rs1 4 rd 0x13) src = Some (src XOR scast (bit_ext_i32 imm 0 12))"
    "imm_value (enc_i imm rs1 7 rd 0x13) src = Some (src AND scast (bit_ext_i32 imm 0 12))"
    "below 6 imm \<Longrightarrow> imm_value (enc_i imm rs1 1 rd 0x13) src = Some (shl src (unat imm))"
    "below 6 imm \<Longrightarrow> imm_value (enc_i imm rs1 5 rd 0x13) src = Some (shr src (unat imm))"
    "below 6 imm \<Longrightarrow> imm_value (enc_i (0x400 OR imm) rs1 5 rd 0x13) src = Some (sar src (unat imm))"
    "imm_value (enc_i 0x604 rs1 1 rd 0x13) src = Some (scast (ucast src :: u8))"
    "imm_value (enc_i 0x605 rs1 1 rd 0x13) src = Some (scast (ucast src :: u16))"
proof -
  note f = enc_i_fields [OF assms(1) _ assms(2) below_opc(1)]
  have i: "bit_ext_u32 imm 0 6 = imm \<and> bit_ext_u32 imm 6 6 = 0
      \<and> bit_ext_u32 (0x400 OR imm) 0 6 = imm \<and> bit_ext_u32 (0x400 OR imm) 6 6 = 0x10" if "below 6 imm"
    using that unfolding below_def by - (intro conjI; rule word_eqI_32; simp add: bitfield_simps bit_simps bit_numeral_rec)
  show "imm_value (enc_i imm rs1 0 rd 0x13) (src :: u64) = Some (src + scast (bit_ext_i32 imm 0 12))"
    "imm_value (enc_i imm rs1 4 rd 0x13) src = Some (src XOR scast (bit_ext_i32 imm 0 12))"
    "imm_value (enc_i imm rs1 7 rd 0x13) src = Some (src AND scast (bit_ext_i32 imm 0 12))"
    "below 6 imm \<Longrightarrow> imm_value (enc_i imm rs1 1 rd 0x13) src = Some (shl src (unat imm))"
    "below 6 imm \<Longrightarrow> imm_value (enc_i imm rs1 5 rd 0x13) src = Some (shr src (unat imm))"
    "below 6 imm \<Longrightarrow> imm_value (enc_i (0x400 OR imm) rs1 5 rd 0x13) src = Some (sar src (unat imm))"
    "imm_value (enc_i 0x604 rs1 1 rd 0x13) src = Some (scast (ucast src :: u8))"
    "imm_value (enc_i 0x605 rs1 1 rd 0x13) src = Some (scast (ucast src :: u16))"
    using i by (simp_all add: imm_value_def decode_i_shamt_def decode_i_shift_funct7_def f [OF below_opc(8)] f [OF below_opc(9)]
       f [OF below_opc(12)] f [OF below_opc(13)] f [OF below_opc(14)] bit_ext_u32_def [of "0x604"] bit_ext_u32_def [of "0x605"] Let_def)
qed

lemma exec_load:
  assumes "below 5 rs1" "below 3 f3" "below 5 rd"
  shows "riscv_emulate_i TYPE(64) m vm (enc_i imm rs1 f3 rd 0x03) =
    (let addr = registers vm (unat rs1) + scast (bit_ext_i32 imm 0 12) in
     Some (if f3 = 0 then riscv_load_s8 m vm addr (unat rd)
      else if f3 = 1 then riscv_load_s16 m vm addr (unat rd)
      else if f3 = 2 then riscv_load_s32 m vm addr (unat rd)
      else if f3 = 3 then riscv_load_u64 m vm addr (unat rd)
      else if f3 = 4 then riscv_load_u8 m vm addr (unat rd)
      else if f3 = 5 then riscv_load_u16 m vm addr (unat rd)
      else if f3 = 6 then riscv_load_u32 m vm addr (unat rd)
      else riscv_illegal_insn vm (enc_i imm rs1 f3 rd 0x03)))"
  using enc_i_fields [OF assms below_opc(2), of imm]
   by (simp add: riscv_emulate_i_def riscv_emulate_i_opc_load_def Let_def)

lemma exec_store:
  assumes "below 5 rs1" "below 5 rs2" "below 3 f3"
  shows "riscv_emulate_i TYPE(64) m vm (enc_s imm rs2 rs1 f3 0x23) =
    (let addr = registers vm (unat rs1) + scast (bit_ext_i32 imm 0 12) in
     Some (if f3 = 0 then riscv_store_u8 m vm addr (unat rs2)
      else if f3 = 1 then riscv_store_u16 m vm addr (unat rs2)
      else if f3 = 2 then riscv_store_u32 m vm addr (unat rs2)
      else if f3 = 3 then riscv_store_u64 m vm addr (unat rs2)
      else riscv_illegal_insn vm (enc_s imm rs2 rs1 f3 0x23)))"
  using enc_s_fields [OF assms below_opc(6), of imm]
   by (simp add: riscv_emulate_i_def riscv_emulate_i_opc_store_def Let_def)

lemma exec_op:
  assumes "below 5 rs1" "below 5 rs2" "below 5 rd" "key AND 0xFE007000 = key"
  shows "riscv_emulate_i TYPE(64) m vm (enc_r key rs2 rs1 rd 0x33) =
    Some (case op_value key (registers vm (unat rs1)) (registers vm (unat rs2)) of
      Some v \<Rightarrow> set_reg vm (unat rd) v | None \<Rightarrow> riscv_illegal_insn vm (enc_r key rs2 rs1 rd 0x33))"
  using enc_r_fields [OF assms(1-3) below_opc(4) assms(4)]
   by (simp add: riscv_emulate_i_def riscv_emulate_i_opc_op_def Let_def split: option.split)

lemma exec_op32:
  assumes "below 5 rs1" "below 5 rs2" "below 5 rd" "key AND 0xFE007000 = key"
  shows "riscv_emulate_i TYPE(64) m vm (enc_r key rs2 rs1 rd 0x3B) =
    Some (case op32_value key (ucast (registers vm (unat rs1))) (ucast (registers vm (unat rs2))) (registers vm (unat rs2)) of
      Some v \<Rightarrow> set_reg vm (unat rd) v | None \<Rightarrow> riscv_illegal_insn vm (enc_r key rs2 rs1 rd 0x3B))"
  using enc_r_fields [OF assms(1-3) below_opc(5) assms(4)]
   by (simp add: riscv_emulate_i_def riscv_emulate_i_opc_op32_def Let_def split: option.split)

lemma exec_addiw:
  assumes "below 5 rs1" "below 5 rd"
  shows "riscv_emulate_i TYPE(64) m vm (enc_i imm rs1 0 rd 0x1B) =
      Some (set_reg vm (unat rd) (scast (ucast (registers vm (unat rs1)) + bit_ext_i32 imm 0 12)))"
  using enc_i_fields [OF assms(1) below_opc(8) assms(2) below_opc(3), of imm]
  by (simp add: riscv_emulate_i_def riscv_emulate_i_opc_imm32_def imm32_value_def Let_def)

lemma exec_lui:
  "below 5 rd \<Longrightarrow> riscv_emulate_i TYPE(64) m vm (enc_u imm rd 0x37) = Some (set_reg vm (unat rd) (scast (imm AND 0xFFFFF000)))"
  using enc_u_fields [OF _ below_opc(7)]
  by (simp add: riscv_emulate_i_def riscv_emulate_i_lui_def Let_def)

lemma scast_small: "\<not> bit (x :: u32) 31 \<Longrightarrow> (scast x :: u64) = ucast x"
proof -
  assume "\<not> bit x 31"
  then have *: "bit x n \<Longrightarrow> n < 31" for n using bit_imp_le_length [of x n] by (cases "n = 31") auto
  then show ?thesis by (intro bit_word_eqI) (auto simp: bit_simps min_def dest: *)
qed

lemma c_off_small:
  "(scast (bit_ext_i32 (decode_c_addi4spn_imm c) 0 12) :: u64) = ucast (decode_c_addi4spn_imm c)"
  "(scast (bit_ext_i32 (decode_c_ld_off c) 0 12) :: u64) = ucast (decode_c_ld_off c)"
  "(scast (bit_ext_i32 (decode_c_lw_off c) 0 12) :: u64) = ucast (decode_c_lw_off c)"
  "(scast (bit_ext_i32 (decode_c_ldsp_off c) 0 12) :: u64) = ucast (decode_c_ldsp_off c)"
  "(scast (bit_ext_i32 (decode_c_lwsp_off c) 0 12) :: u64) = ucast (decode_c_lwsp_off c)"
  "(scast (bit_ext_i32 (decode_c_sdsp_off c) 0 12) :: u64) = ucast (decode_c_sdsp_off c)"
  "(scast (bit_ext_i32 (decode_c_swsp_off c) 0 12) :: u64) = ucast (decode_c_swsp_off c)"
  "(scast (bit_ext_i32 (shr (c AND 0x20) 4) 0 12) :: u64) = ucast (shr (c AND 0x20) 4)"
  "(scast (bit_ext_i32 (shr (c AND 0x20) 4 OR shr (c AND 0x40) 6) 0 12) :: u64) = ucast (shr (c AND 0x20) 4 OR shr (c AND 0x40) 6)"
proof -
  have e: "(scast (bit_ext_i32 x 0 12) :: u64) = ucast x" if "bit_ext_i32 x 0 12 = x" "\<not> bit x 31" for x
    using that by (simp add: scast_small)
  note d = decode_c_addi4spn_imm_def decode_c_ld_off_def decode_c_lw_off_def decode_c_ldsp_off_def
    decode_c_lwsp_off_def decode_c_sdsp_off_def decode_c_swsp_off_def
  show "(scast (bit_ext_i32 (decode_c_addi4spn_imm c) 0 12) :: u64) = ucast (decode_c_addi4spn_imm c)"
  "(scast (bit_ext_i32 (decode_c_ld_off c) 0 12) :: u64) = ucast (decode_c_ld_off c)"
  "(scast (bit_ext_i32 (decode_c_lw_off c) 0 12) :: u64) = ucast (decode_c_lw_off c)"
  "(scast (bit_ext_i32 (decode_c_ldsp_off c) 0 12) :: u64) = ucast (decode_c_ldsp_off c)"
  "(scast (bit_ext_i32 (decode_c_lwsp_off c) 0 12) :: u64) = ucast (decode_c_lwsp_off c)"
  "(scast (bit_ext_i32 (decode_c_sdsp_off c) 0 12) :: u64) = ucast (decode_c_sdsp_off c)"
  "(scast (bit_ext_i32 (decode_c_swsp_off c) 0 12) :: u64) = ucast (decode_c_swsp_off c)"
  "(scast (bit_ext_i32 (shr (c AND 0x20) 4) 0 12) :: u64) = ucast (shr (c AND 0x20) 4)"
  "(scast (bit_ext_i32 (shr (c AND 0x20) 4 OR shr (c AND 0x40) 6) 0 12) :: u64) = ucast (shr (c AND 0x20) 4 OR shr (c AND 0x40) 6)"
    by (rule e, (rule word_eqI_32, (simp only: d)?, simp add: bitfield_simps bit_simps bit_numeral_rec),
      (simp only: d)?, simp add: bit_simps bit_numeral_rec)+
qed

lemma c_imm_signed:
  "bit_ext_i32 (decode_c_alu_imm c) 0 12 = decode_c_alu_imm c"
  "bit_ext_i32 (decode_c_addi16sp_off c :: u32) 0 12 = ucast (decode_c_addi16sp_off c :: u64)"
  "decode_c_lui_imm c AND 0xFFFFF000 = decode_c_lui_imm c"
  by (rule word_eqI_32, simp add: decode_c_alu_imm_def decode_c_addi16sp_off_def decode_c_lui_imm_def Let_def
    bitfield_simps bit_simps bit_numeral_rec)+

lemma below_shamt: "below 6 (bit_ext_u32 c 2 5 OR shl (bit_ext_u32 c 12 1) 5)"
  by (auto simp: below_def bit_simps bitfield_simps)

lemma ucast_zero: "(ucast (x :: u32) :: u64) = 0 \<longleftrightarrow> x = 0"
proof -
  have "ucast (ucast x :: u64) = x" by (rule bit_word_eqI) (auto simp: bit_simps)
  then show ?thesis by (metis unsigned_0)
qed

lemmas c_off_simps = c_off_small c_off_small(8,9) [simplified]

lemma op_value_keys:
  "op_value 0 a b = Some (a + b :: u64)" "op_value 0x40000000 a b = Some (a - b)" "op_value 0x4000 a b = Some (a XOR b)"
  "op_value 0x6000 a b = Some (a OR b)" "op_value 0x7000 a b = Some (a AND b)" "op_value 0x2000000 a b = Some (a * b)"
  by (simp_all add: op_value_def op_value_im_def Let_def)

lemma op32_value_keys:
  "op32_value 0 a b f = Some (scast (a + b) :: u64)" "op32_value 0x40000000 a b f = Some (scast (a - b))"
  "op32_value 0x8004000 a b f = Some (scast (ucast (ucast a :: u16) OR shl b 16))" "op32_value 0x8000000 a b f = Some (f + ucast a)"
  by (simp_all add: op32_value_def Let_def)

lemma unat_eq_2: "unat (x :: u32) = 2 \<longleftrightarrow> x = 2"
  by (simp add: word_unat_eq_iff)

lemma low_word_simps:
  "(ucast (a + b :: u64) :: u32) = ucast a + ucast b" "(ucast (a - b :: u64) :: u32) = ucast a - ucast b"
  "(ucast (scast (x :: u32) :: u64) :: u32) = x"
proof -
  have m: "(word_of_int (k mod 2 ^ 64) :: u32) = word_of_int k" for k
    by (simp add: word_of_int_eq_iff take_bit_eq_mod mod_mod_cancel)
  have u: "(ucast (w :: u64) :: u32) = word_of_int (uint w)" for w by simp
  show "(ucast (a + b :: u64) :: u32) = ucast a + ucast b" "(ucast (a - b :: u64) :: u32) = ucast a - ucast b"
    unfolding u uint_word_ariths(1,2) by (simp_all only: len_num1 len_bit0 mult_1_right flip: wi_hom_syms) (simp_all add: m [simplified])
  show "(ucast (scast (x :: u32) :: u64) :: u32) = x" by (rule bit_word_eqI) (auto simp: bit_simps)
qed

lemmas exec_simps = exec_imm exec_load exec_store exec_op exec_op32 exec_addiw exec_lui imm_value_enc op_value_keys op32_value_keys
  below_opc below_fields below_shamt below_shamt [unfolded One_nat_def] unat_fields c_off_simps c_imm_signed ucast_zero
  decode_c_shamt_def unat_0_iff unat_gt_0 unat_eq_2 low_word_simps

lemma ucast_down: "(ucast (ucast (x :: u64) :: u32) :: u16) = ucast x"
  by (rule bit_word_eqI) (auto simp: bit_simps)

lemma pack_zero: "(scast (ucast (x :: u16) :: u32) :: u64) = ucast x"
proof -
  have "\<not> bit (ucast x :: u32) 31" using bit_imp_le_length [of x 31] by (auto simp: bit_simps)
  then have "(scast (ucast x :: u32) :: u64) = ucast (ucast x :: u32)" by (rule scast_small)
  moreover have "(ucast (ucast x :: u32) :: u64) = ucast x"
    by (rule bit_word_eqI) (auto simp: bit_simps dest: bit_imp_le_length)
  ultimately show ?thesis by simp
qed

lemma imm_ones: "(scast (bit_ext_i32 0xFF 0 12) :: u64) = 0xFF" "(scast (bit_ext_i32 0xFFF 0 12) :: u64) = -1"
  by (simp_all add: bit_ext_i32_def)

lemma byte_mask: "(x :: u64) AND 0xFF = ucast (ucast x :: u8)"
proof -
  have m: "(0xFF :: u64) = mask 8" by (simp add: mask_eq_exp_minus_1)
  show ?thesis unfolding m by (intro bit_word_eqI) (auto simp: bit_simps)
qed

lemma expand_c1:
  assumes "c_expand c = Some i" "c AND 3 = 1" "registers vm 0 = 0"
  shows "riscv_emulate_i TYPE(64) m vm i = Some (riscv_emulate_c_c1 TYPE(64) vm c)"
proof -
  have "c_expand c = Some i" by (rule assms(1))
  note x = this [unfolded c_expand_def Let_def assms(2), simplified]
  have a: "bit_ext_u32 c 13 3 \<in> {0, 1, 2, 3} \<Longrightarrow> ?thesis"
    using x assms(3) by (elim insertE emptyE; auto simp: riscv_emulate_c_c1_def exec_simps Let_def split: if_split_asm)
  have b: "bit_ext_u32 c 13 3 = 4 \<Longrightarrow> bit_ext_u32 c 10 2 \<in> {0, 1, 2} \<Longrightarrow> ?thesis"
    using x assms(3) by (elim insertE emptyE; auto simp: riscv_emulate_c_c1_def c1_misc_alu_def c1_value_def exec_simps Let_def split: if_split_asm)
  have d: "bit_ext_u32 c 13 3 = 4 \<Longrightarrow> bit_ext_u32 c 10 2 \<notin> {0, 1, 2} \<Longrightarrow> c AND 0x1C60 \<noteq> 0x1C60 \<Longrightarrow> ?thesis"
    using x assms(3) by (simp; auto simp: riscv_emulate_c_c1_def c1_misc_alu_def c1_value_def exec_simps Let_def split: if_split_asm)
  have e: "bit_ext_u32 c 13 3 = 4 \<Longrightarrow> bit_ext_u32 c 10 2 \<notin> {0, 1, 2} \<Longrightarrow> c AND 0x1C60 = 0x1C60 \<Longrightarrow> ?thesis"
    using x assms(3) by (simp; auto simp: riscv_emulate_c_c1_def c1_misc_alu_def c1_value_def exec_simps ucast_down pack_zero imm_ones byte_mask Let_def split: if_split_asm)
  have "bit_ext_u32 c 13 3 \<in> {0, 1, 2, 3, 4}"
    using x by (simp split: if_split_asm)
  then show ?thesis using a b d e by blast
qed

lemma expand_c0:
  assumes "c_expand c = Some i" "c AND 3 = 0"
  shows "riscv_emulate_i TYPE(64) m vm i = Some (riscv_emulate_c_c0 TYPE(64) m vm c)"
proof -
  have "c_expand c = Some i" by (rule assms(1))
  note x = this [unfolded c_expand_def Let_def assms(2), simplified]
  from x show ?thesis
   by (auto simp: riscv_emulate_c_c0_def exec_simps Let_def split: if_split_asm)
qed

lemma expand_c2:
  assumes "c_expand c = Some i" "c AND 3 = 2" "registers vm 0 = 0"
  shows "riscv_emulate_i TYPE(64) m vm i = Some (riscv_emulate_c_c2 TYPE(64) m vm c)"
proof -
  have "c_expand c = Some i" by (rule assms(1))
  note x = this [unfolded c_expand_def Let_def assms(2), simplified]
  have "bit_ext_u32 c 12 4 \<in> {0, 1, 4, 5, 6, 7, 8, 9, 0xC, 0xD, 0xE, 0xF}"
    using x by (simp split: if_split_asm; blast)
  then show ?thesis
    using x assms(3) by (elim insertE emptyE; auto simp: riscv_emulate_c_c2_def exec_simps Let_def split: if_split_asm)
qed

section \<open>Immediates by the instruction formats\<close>

text \<open>
  An immediate of an instruction format: which bit of the instruction each bit of the immediate is,
  from bit 0 on, with None for a zero bit, and the bit that is repeated above, if any.
\<close>

definition imm_bit :: "nat option list \<Rightarrow> nat option \<Rightarrow> u32 \<Rightarrow> nat \<Rightarrow> bool" where
  "imm_bit bits sign insn n =
     (case (if n < length bits then bits ! n else sign) of Some k \<Rightarrow> bit insn k | None \<Rightarrow> False)"

definition is_imm :: "u32 \<Rightarrow> nat option list \<Rightarrow> nat option \<Rightarrow> u32 \<Rightarrow> bool" where
  "is_imm v bits sign insn \<longleftrightarrow> (\<forall>n < 32. bit v n = imm_bit bits sign insn n)"

abbreviation (input) from_bits :: "nat \<Rightarrow> nat list \<Rightarrow> nat option list" where
  "from_bits zeros ks \<equiv> replicate zeros None @ map Some ks"

lemma is_immI:
  "list_all (\<lambda>n. bit v n = imm_bit bits sign insn n)
      [0, 1, 2, 3, 4, 5, 6, 7, 8, 9, 10, 11, 12, 13, 14, 15, 16, 17, 18, 19, 20, 21,
       22, 23, 24, 25, 26, 27, 28, 29, 30, 31] \<Longrightarrow> is_imm v bits sign insn"
  unfolding is_imm_def using all_less_32 by blast

lemma bit_times_2: "0 < n \<Longrightarrow> n < 32 \<Longrightarrow> bit (x * 2 :: u32) n = bit x (n - 1)"
  by (simp add: bit_double_iff mult.commute [of x])

lemmas decode_defs = decode_i_branch_off_def decode_i_jal_off_def decode_i_store_off_def
  decode_c_addi4spn_imm_def decode_c_jal_imm_def decode_c_ld_off_def decode_c_lw_off_def decode_c_ldsp_off_def
  decode_c_lwsp_off_def decode_c_sdsp_off_def decode_c_swsp_off_def decode_c_alu_imm_def decode_c_addi16sp_off_def
  decode_c_lui_imm_def decode_c_branch_imm_def Let_def

section \<open>Properties\<close>

text \<open>
  C15. Compressed instructions expand.  Every compressed instruction of RV64 that is not a jump, a
  branch or a breakpoint does exactly what the 32-bit instruction it stands for does, traps and
  memory accesses included, when x0 is zero; only the program counter advances by 2 instead of 4.
\<close>

theorem compressed_expands:
  assumes "c_expand c = Some i" and "registers vm 0 = 0"
  shows "riscv_emulate_insn TYPE(64) m vm c = map_option (\<lambda>vm. add_pc vm 2) (riscv_emulate_i TYPE(64) m vm i)"
proof -
  have "c AND 3 = 0 \<or> c AND 3 = 1 \<or> c AND 3 = 2" using assms(1) by (auto simp: c_expand_def Let_def split: if_split_asm)
  then show ?thesis
    using expand_c0 [OF assms(1), of m vm] expand_c1 [OF assms(1) _ assms(2), of m] expand_c2 [OF assms(1) _ assms(2), of m]
    by (auto simp: riscv_emulate_insn_def)
qed

theorem compressed_expands_witness:
  "riscv_emulate_insn TYPE(64) machine_bare hart_amo 0x159D =
     map_option (\<lambda>vm. add_pc vm 2) (riscv_emulate_i TYPE(64) machine_bare hart_amo 0xFE758593)"
  by (rule compressed_expands) (simp_all add: c_expand_def enc_i_def decode_c_alu_imm_def bit_ext_u32_def Let_def)

text \<open>
  C40. Where compressed instructions deviate.  \<^verbatim>\<open>c.jr ra\<close> jumps to the unmodified register, while the
  \<^verbatim>\<open>jalr\<close> it stands for clears bit 0 of the target.  \<^verbatim>\<open>c.jalr ra\<close> writes the link register before it
  reads the target, and so continues at the next instruction.  The reserved encoding of \<^verbatim>\<open>c.addiw\<close> with
  the destination x0 is not illegal but shifts x8.
\<close>

theorem compressed_deviations:
  "map_option reg_pc (riscv_emulate_insn TYPE(64) m vm 0x8082) = Some (registers vm 1)
   \<and> map_option reg_pc (riscv_emulate_insn TYPE(64) m vm 0x00008067) = Some (registers vm 1 AND NOT 1)
   \<and> map_option reg_pc (riscv_emulate_insn TYPE(64) m vm 0x9082) = Some (reg_pc vm + 2)
   \<and> map_option reg_pc (riscv_emulate_insn TYPE(64) m vm 0x000080E7) = Some (registers vm 1 AND NOT 1)
   \<and> map_option (\<lambda>vm. registers vm 8) (riscv_emulate_insn TYPE(64) m vm 0x2005) = Some (shr (registers vm 8) 1)"
  by (simp add: riscv_emulate_insn_def riscv_emulate_c_c1_def riscv_emulate_c_c2_def riscv_emulate_i_def riscv_emulate_i_jalr_def
    c1_misc_alu_def c1_value_def decode_c_shamt_def add_pc_def set_pc_def set_reg_def reg_pc_def bit_ext_u32_def bit_ext_i32_def Let_def)

text \<open>
  C19. Immediates.  Every immediate of the base and of the compressed formats is assembled from the
  bits of the instruction as the architecture manual lists them: branch, jump and store offsets,
  the 12-bit immediate, and the offsets and immediates of the compressed loads, stores, stack
  accesses, arithmetic, jumps and branches.
\<close>

theorem immediates:
  "is_imm (bit_ext_i32 insn 20 12) (from_bits 0 [20, 21, 22, 23, 24, 25, 26, 27, 28, 29, 30]) (Some 31) insn
   \<and> is_imm (decode_i_branch_off insn) (from_bits 1 [8, 9, 10, 11, 25, 26, 27, 28, 29, 30, 7]) (Some 31) insn
   \<and> is_imm (decode_i_jal_off insn)
       (from_bits 1 [21, 22, 23, 24, 25, 26, 27, 28, 29, 30, 20, 12, 13, 14, 15, 16, 17, 18, 19]) (Some 31) insn
   \<and> is_imm (decode_i_store_off insn) (from_bits 0 [7, 8, 9, 10, 11, 25, 26, 27, 28, 29, 30]) (Some 31) insn
   \<and> is_imm (decode_c_addi4spn_imm insn) (from_bits 2 [6, 5, 11, 12, 7, 8, 9, 10]) None insn
   \<and> is_imm (decode_c_jal_imm insn) (from_bits 1 [3, 4, 5, 11, 2, 7, 6, 9, 10, 8]) (Some 12) insn
   \<and> is_imm (decode_c_ld_off insn) (from_bits 3 [10, 11, 12, 5, 6]) None insn
   \<and> is_imm (decode_c_lw_off insn) (from_bits 2 [6, 10, 11, 12, 5]) None insn
   \<and> is_imm (decode_c_ldsp_off insn) (from_bits 3 [5, 6, 12, 2, 3, 4]) None insn
   \<and> is_imm (decode_c_lwsp_off insn) (from_bits 2 [4, 5, 6, 12, 2, 3]) None insn
   \<and> is_imm (decode_c_sdsp_off insn) (from_bits 3 [10, 11, 12, 7, 8, 9]) None insn
   \<and> is_imm (decode_c_swsp_off insn) (from_bits 2 [9, 10, 11, 12, 7, 8]) None insn
   \<and> is_imm (decode_c_alu_imm insn) (from_bits 0 [2, 3, 4, 5, 6]) (Some 12) insn
   \<and> is_imm (decode_c_addi16sp_off insn) (from_bits 4 [6, 2, 5, 3, 4]) (Some 12) insn
   \<and> is_imm (decode_c_lui_imm insn) (from_bits 12 [2, 3, 4, 5, 6]) (Some 12) insn
   \<and> is_imm (decode_c_branch_imm insn) (from_bits 1 [3, 4, 10, 11, 2, 5, 6]) (Some 12) insn"
  by (intro conjI; rule is_immI;
    simp add: imm_bit_def decode_defs bitfield_simps bit_simps bit_numeral_rec nth_append nth_Cons' bit_times_2 flip: numeral_3_eq_3)
end
