(* ===== verification/Interpreter.thy ===== *)
theory Interpreter
  imports Compressed
begin

text \<open>
  The interpreter loop of \<^verbatim>\<open>src/cpu/riscv_interpreter.h\<close> and the life of a hart in
  \<^verbatim>\<open>src/cpu/riscv_hart.c\<close> and \<^verbatim>\<open>src/cpu/riscv_cpu.c\<close>: initialisation, the loop that delivers events and
  interrupts and runs the interpreter, and the events that other threads send to it.  Both loops
  run as long as the guest does, so that they take fuel and return None when it is used up; a step
  relation describes the same loops without fuel and interleaved with the events.
\<close>

section \<open>The dispatch loop\<close>

text \<open>
  Fetching with the page pointer that the loop keeps in local variables.  On success the result is
  the instruction and the new pointer and page.
\<close>

definition interp_fetch :: "'x::len itself \<Rightarrow> 'd machine \<Rightarrow> u64 \<Rightarrow> 'x word \<Rightarrow> 'd hart \<Rightarrow>
    (u32 \<times> u64 \<times> 'x word) option \<times> 'd hart" where
  "interp_fetch xl m insn_ptr insn_page vm =
     (let insn_addr = ucast (reg_pc vm) :: 'x word in
      if insn_addr - insn_page \<le> 0xFFC
      then (Some (read_uint32_le (host vm) (insn_ptr + ucast insn_addr), insn_ptr, insn_page), vm)
      else
        (case riscv_fetch_insn m vm (ucast insn_addr) of
           (Some tmp, vm) \<Rightarrow>
             (let vpn = ucast (shr (reg_pc vm) 12) :: 'x word;
                  entry = tlb vm (tlb_slot (ucast vpn))
              in (Some (tmp, tlb_ptr entry, ucast (shl (tlb_e entry) 12)), vm))
         | (None, vm) \<Rightarrow> (None, vm)))"

text \<open>
  One iteration: None if the instruction does not return (a sleep that nothing ends), otherwise the
  hart, with the pointer and page for the next iteration if there is one.
\<close>

definition interp_iter :: "'x::len itself \<Rightarrow> 'd machine \<Rightarrow> u64 \<Rightarrow> 'x word \<Rightarrow> 'd hart \<Rightarrow>
    ((u64 \<times> 'x word) option \<times> 'd hart) option" where
  "interp_iter xl m insn_ptr insn_page vm =
     (case interp_fetch xl m insn_ptr insn_page vm of
        (None, vm) \<Rightarrow> Some (None, vm)
      | (Some (insn, insn_ptr, insn_page), vm) \<Rightarrow>
          (case riscv_emulate_insn xl m (set_reg vm 0 0) insn of
             None \<Rightarrow> None
           | Some vm \<Rightarrow> Some (if running vm then Some (insn_ptr, insn_page) else None, vm)))"

primrec interp_loop :: "'x::len itself \<Rightarrow> 'd machine \<Rightarrow> nat \<Rightarrow> u64 \<Rightarrow> 'x word \<Rightarrow> 'd hart \<Rightarrow> 'd hart option" where
  "interp_loop xl m 0 insn_ptr insn_page vm = None"
| "interp_loop xl m (Suc fuel) insn_ptr insn_page vm =
     (case interp_iter xl m insn_ptr insn_page vm of
        None \<Rightarrow> None
      | Some (None, vm) \<Rightarrow> Some vm
      | Some (Some (insn_ptr, insn_page), vm) \<Rightarrow> interp_loop xl m fuel insn_ptr insn_page vm)"

definition riscv_run_interpreter :: "'x::len itself \<Rightarrow> 'd machine \<Rightarrow> nat \<Rightarrow> 'd hart \<Rightarrow> 'd hart option" where
  "riscv_run_interpreter (xl :: 'x itself) m fuel vm =
     interp_loop xl m fuel 0 (ucast (reg_pc vm + RISCV_PAGE_SIZE) :: 'x word) vm"

definition riscv_run_till_event :: "'d machine \<Rightarrow> nat \<Rightarrow> 'd hart \<Rightarrow> 'd hart option" where
  "riscv_run_till_event m fuel vm =
     (if rv64 vm then riscv_run_interpreter TYPE(64) m fuel vm else riscv_run_interpreter TYPE(32) m fuel vm)"

section \<open>The life of a hart\<close>

text \<open>Guest memory and timer come from the machine; a fresh hart gets them as arguments.\<close>

definition riscv_hart_init :: "'d machine \<Rightarrow> u64 \<Rightarrow> u64 \<Rightarrow> u64 \<Rightarrow> host_mem \<Rightarrow> 'd \<Rightarrow> 'd hart" where
  "riscv_hart_init m addr sz data h d =
     (let vm = (hart_zero d)\<lparr>mem_addr := addr, mem_size := sz, mem_data := data, host := h, rv64 := mc_rv64 m,
                  priv_mode := RISCV_PRIV_MACHINE\<rparr>;
          vm = riscv_csr_init vm;
          vm = vm\<lparr>mtimecmp := -1, stimecmp := -1\<rparr>
      in riscv_tlb_flush vm)"

text \<open>A pending trap resumes at its own program counter.\<close>

definition resume_trap :: "'d hart \<Rightarrow> 'd hart" where
  "resume_trap vm = (if trap vm then (set_pc vm (trap_pc vm))\<lparr>trap := False\<rparr> else vm)"

definition riscv_hart_run_userland :: "'d machine \<Rightarrow> nat \<Rightarrow> 'd hart \<Rightarrow> (u64 \<times> 'd hart) option" where
  "riscv_hart_run_userland m fuel vm =
     (let vm = vm\<lparr>userland := True, running := True\<rparr> in
      case riscv_run_till_event m fuel vm of
        None \<Rightarrow> None
      | Some vm \<Rightarrow> (let vm = resume_trap vm in Some (csr_cause (csr vm) RISCV_PRIV_USER, vm)))"

text \<open>
  One round of the loop up to the interpreter: the running flag, the events and the interrupts.
  The flag says whether a pause ends the loop.
\<close>

definition hart_dispatch :: "'d machine \<Rightarrow> 'd hart \<Rightarrow> bool \<times> 'd hart" where
  "hart_dispatch m vm =
     (let vm = vm\<lparr>running := True\<rparr>;
          events = pending_events vm;
          vm = vm\<lparr>pending_events := 0\<rparr>
      in if events AND HART_EVENT_PAUSE \<noteq> 0 then (True, vm)
         else
           (let vm = (if events AND HART_EVENT_PREEMPT \<noteq> 0
                      then mc_wait m (ucast (preempt_ms vm) * 1000000) (vm\<lparr>preempt_ms := 0\<rparr>) else vm)
            in (False, riscv_handle_irqs vm)))"

primrec riscv_hart_run :: "nat \<Rightarrow> 'd machine \<Rightarrow> nat \<Rightarrow> 'd hart \<Rightarrow> 'd hart option" where
  "riscv_hart_run 0 m fuel vm = None"
| "riscv_hart_run (Suc rounds) m fuel vm =
     (case hart_dispatch m vm of
        (True, vm) \<Rightarrow> Some vm
      | (False, vm) \<Rightarrow>
          (case riscv_run_till_event m fuel vm of
             None \<Rightarrow> None
           | Some vm \<Rightarrow> riscv_hart_run rounds m fuel (resume_trap vm)))"

section \<open>Steps\<close>

text \<open>
  What other threads do to a hart while it runs: devices raise and clear interrupt lines and send
  messages, the event loop advances the clock and checks the timers, other threads pause and
  preempt it, and other harts and devices write to the memory of the guest.
\<close>

datatype hart_event = Ev_interrupt u8 | Ev_interrupt_clear u8 | Ev_aia_irq bool u32 | Ev_timer u64
  | Ev_preempt u32 | Ev_pause | Ev_ram_write u64 u8

primrec deliver :: "hart_event \<Rightarrow> 'd hart \<Rightarrow> 'd hart" where
  "deliver (Ev_interrupt irq) vm = riscv_interrupt vm irq"
| "deliver (Ev_interrupt_clear irq) vm = riscv_interrupt_clear vm irq"
| "deliver (Ev_aia_irq smode irq) vm = riscv_send_aia_irq vm smode irq"
| "deliver (Ev_timer now) vm = riscv_hart_check_timer (vm\<lparr>timer := now\<rparr>)"
| "deliver (Ev_preempt ms) vm = riscv_hart_preempt vm ms"
| "deliver Ev_pause vm = riscv_hart_queue_pause vm"
| "deliver (Ev_ram_write paddr b) vm =
     (case riscv_phys_access vm paddr of None \<Rightarrow> vm | Some ptr \<Rightarrow> vm\<lparr>host := (host vm)(ptr := b)\<rparr>)"

text \<open>Where a hart is: at the head of its loop, in the interpreter of one width, or paused.\<close>

datatype hart_loc = Dispatch | Run64 u64 u64 | Run32 u64 u32 | Paused

definition enter_interpreter :: "'d hart \<Rightarrow> hart_loc" where
  "enter_interpreter vm =
     (if rv64 vm then Run64 0 (reg_pc vm + RISCV_PAGE_SIZE) else Run32 0 (ucast (reg_pc vm + RISCV_PAGE_SIZE)))"

inductive hart_step :: "'d machine \<Rightarrow> hart_loc \<times> 'd hart \<Rightarrow> hart_loc \<times> 'd hart \<Rightarrow> bool" for m where
  step_dispatch: "hart_dispatch m vm = (False, vm') \<Longrightarrow> hart_step m (Dispatch, vm) (enter_interpreter vm', vm')"
| step_pause: "hart_dispatch m vm = (True, vm') \<Longrightarrow> hart_step m (Dispatch, vm) (Paused, vm')"
| step_insn64: "interp_iter TYPE(64) m p g vm = Some (Some (p', g'), vm') \<Longrightarrow> hart_step m (Run64 p g, vm) (Run64 p' g', vm')"
| step_exit64: "interp_iter TYPE(64) m p g vm = Some (None, vm') \<Longrightarrow> hart_step m (Run64 p g, vm) (Dispatch, resume_trap vm')"
| step_insn32: "interp_iter TYPE(32) m p g vm = Some (Some (p', g'), vm') \<Longrightarrow> hart_step m (Run32 p g, vm) (Run32 p' g', vm')"
| step_exit32: "interp_iter TYPE(32) m p g vm = Some (None, vm') \<Longrightarrow> hart_step m (Run32 p g, vm) (Dispatch, resume_trap vm')"
| step_event: "hart_step m (l, vm) (l, deliver e vm)"

inductive_cases hart_stepE: "hart_step m (l, vm) s"

text \<open>The loops with fuel are runs of the step relation.\<close>

lemma interp_loop_steps:
  "interp_loop TYPE(64) m fuel p g vm = Some vm' \<Longrightarrow> (hart_step m)\<^sup>*\<^sup>* (Run64 p g, vm) (Dispatch, resume_trap vm')"
  "interp_loop TYPE(32) m fuel p h vm = Some vm' \<Longrightarrow> (hart_step m)\<^sup>*\<^sup>* (Run32 p h, vm) (Dispatch, resume_trap vm')"
proof (induction fuel arbitrary: p g h vm)
  case (Suc fuel)
  {
    case 1
    then show ?case
      using Suc.IH(1)
      by (auto split: option.splits) (meson step_exit64 r_into_rtranclp, meson step_insn64 converse_rtranclp_into_rtranclp)
  next
    case 2
    then show ?case
      using Suc.IH(2)
      by (auto split: option.splits) (meson step_exit32 r_into_rtranclp, meson step_insn32 converse_rtranclp_into_rtranclp)
  }
qed simp_all

lemma run_till_event_steps:
  "riscv_run_till_event m fuel vm = Some vm' \<Longrightarrow>
     (hart_step m)\<^sup>*\<^sup>* (enter_interpreter vm, vm) (Dispatch, resume_trap vm')"
  using interp_loop_steps
  by (auto simp: riscv_run_till_event_def riscv_run_interpreter_def enter_interpreter_def split: if_splits)

lemma hart_run_steps:
  "riscv_hart_run rounds m fuel vm = Some vm' \<Longrightarrow> (hart_step m)\<^sup>*\<^sup>* (Dispatch, vm) (Paused, vm')"
proof (induction rounds arbitrary: vm)
  case (Suc rounds)
  obtain stop vm1 where d: "hart_dispatch m vm = (stop, vm1)" by fastforce
  show ?case
  proof (cases stop)
    case True
    with d Suc.prems have "hart_step m (Dispatch, vm) (Paused, vm')" by (auto intro: step_pause)
    then show ?thesis by blast
  next
    case False
    with d Suc.prems obtain vm2 where r: "riscv_run_till_event m fuel vm1 = Some vm2"
      and rest: "riscv_hart_run rounds m fuel (resume_trap vm2) = Some vm'"
      by (auto split: option.splits)
    have "hart_step m (Dispatch, vm) (enter_interpreter vm1, vm1)" using d False by (auto intro: step_dispatch)
    with run_till_event_steps [OF r] Suc.IH [OF rest] show ?thesis by (meson converse_rtranclp_into_rtranclp rtranclp_trans)
  qed
qed simp

end
