(* ===== verification/Invariants.thy ===== *)
theory Invariants
  imports Interpreter
begin

text \<open>
  Invariants of a running hart.  A locale states what a predicate on harts must survive to hold in
  every state that a hart reaches whatever program it runs: register writes, traps, memory accesses
  and stores through translated pointers, privileged instructions, interrupts and events.  Inside
  it, every instruction and the loops of the interpreter are shown to keep such a predicate, once.
\<close>

section \<open>Writes to host memory\<close>

definition agree_outside :: "u64 \<Rightarrow> nat \<Rightarrow> host_mem \<Rightarrow> host_mem \<Rightarrow> bool" where
  "agree_outside ptr n h h' \<longleftrightarrow> (\<forall>a. (\<forall>i<n. a \<noteq> ptr + of_nat i) \<longrightarrow> h' a = h a)"

lemma agree_outside_refl [simp]: "agree_outside ptr n h h"
  by (simp add: agree_outside_def)

lemma agree_outsideI: "(\<And>a. h' a \<noteq> h a \<Longrightarrow> \<exists>i<n. a = ptr + of_nat i) \<Longrightarrow> agree_outside ptr n h h'"
  unfolding agree_outside_def by blast

lemma agree_outside_upd:
  assumes "agree_outside ptr n h h'" "i < n"
  shows "agree_outside ptr n h (h'(ptr + of_nat i := v))"
  using assms unfolding agree_outside_def by auto

lemma agree_write [simp]:
  "agree_outside ptr 1 h (write_uint8 h ptr v8)" "agree_outside ptr 2 h (write_uint16_le h ptr v16)"
  "agree_outside ptr 4 h (write_uint32_le h ptr v32)" "agree_outside ptr 8 h (write_uint64_le h ptr v64)"
proof -
  note u = agree_outside_upd [where i = 0, simplified] agree_outside_upd [where i = 1, simplified]
    agree_outside_upd [where i = 2, simplified] agree_outside_upd [where i = 3, simplified]
    agree_outside_upd [where i = 4, simplified] agree_outside_upd [where i = 5, simplified]
    agree_outside_upd [where i = 6, simplified] agree_outside_upd [where i = 7, simplified]
  show "agree_outside ptr 1 h (write_uint8 h ptr v8)" "agree_outside ptr 2 h (write_uint16_le h ptr v16)"
    "agree_outside ptr 4 h (write_uint32_le h ptr v32)" "agree_outside ptr 8 h (write_uint64_le h ptr v64)"
    unfolding write_uint8_def write_uint16_le_def write_uint32_le_def write_uint64_le_def
    by (intro u agree_outside_refl; simp)+
qed

lemmas agree_write_Suc [simp] = agree_write(1) [unfolded One_nat_def]

lemma agree_mem_write: "length bs \<le> n \<Longrightarrow> agree_outside ptr n h (mem_write h ptr bs)"
proof (induction bs arbitrary: h ptr n)
  case (Cons b bs)
  show ?case
  proof (rule agree_outsideI)
    fix a assume d: "mem_write h ptr (b # bs) a \<noteq> h a"
    show "\<exists>i<n. a = ptr + of_nat i"
    proof (cases "a = ptr")
      case True
      with Cons.prems show ?thesis by (intro exI [of _ 0]) auto
    next
      case False
      with d have "mem_write (h(ptr := b)) (ptr + 1) bs a \<noteq> (h(ptr := b)) a" by simp
      moreover have "agree_outside (ptr + 1) (n - 1) (h(ptr := b)) (mem_write (h(ptr := b)) (ptr + 1) bs)"
        using Cons.prems by (intro Cons.IH) auto
      ultimately obtain i where "i < n - 1" "a = ptr + 1 + of_nat i" unfolding agree_outside_def by blast
      then show ?thesis by (intro exI [of _ "Suc i"]) (auto simp: algebra_simps)
    qed
  qed
qed simp

lemma agree_trans: "agree_outside p n h h' \<Longrightarrow> agree_outside p n h' h'' \<Longrightarrow> agree_outside p n h h''"
  by (simp add: agree_outside_def)

lemma agree_shift:
  assumes "agree_outside (p + of_nat k) n h h'" "k + n \<le> l"
  shows "agree_outside p l h h'"
proof (rule agree_outsideI)
  fix a assume "h' a \<noteq> h a"
  then obtain i where "i < n" "a = p + of_nat k + of_nat i" using assms(1) unfolding agree_outside_def by blast
  then show "\<exists>i<l. a = p + of_nat i" using assms(2) by (intro exI [of _ "k + i"]) (simp add: algebra_simps)
qed

lemma agree_cas:
  "(\<And>v. agree_outside a n h (wr h a v)) \<Longrightarrow> agree_outside a n h (snd (snd (atomic_cas rd wr h a e v)))"
  by (simp add: atomic_cas_def Let_def)

lemma agree_cas_write [simp]:
  "agree_outside a 8 h (snd (snd (atomic_cas_uint64_ex h a e v)))" "agree_outside a 4 h (snd (snd (atomic_cas_uint32_ex h a e' v')))"
  "agree_outside a 16 h (snd (snd (atomic_cas_uint128_ex h a e2 v2)))"
proof -
  have "agree_outside a 16 h (write_uint64_le (write_uint64_le h a x) (a + 8) y)" for x y
    using agree_shift [where p = a and k = 8 and n = 8 and l = 16 and h = "write_uint64_le h a x"]
      agree_shift [where p = a and k = 0 and n = 8 and l = 16 and h = h] by simp (blast intro: agree_trans agree_write(4))
  then show "agree_outside a 16 h (snd (snd (atomic_cas_uint128_ex h a e2 v2)))"
    unfolding atomic_cas_uint128_ex_def by (intro agree_cas) (auto split: prod.split)
qed (simp_all add: atomic_cas_uint64_ex_def atomic_cas_uint32_ex_def agree_cas)

lemma agree_switch:
  "agree_outside a 1 h (snd (amo_switch_b op h a e8 v8))" "agree_outside a 2 h (snd (amo_switch_h op h a e16 v16))"
  "agree_outside a 4 h (snd (amo_switch_w op h a e32 v32))" "agree_outside a 8 h (snd (amo_switch_d op h a e64 v64))"
proof -
  have o: "amo_switch_h op h a e16 v16 = (0, h)" "amo_switch_w op h a e32 v32 = (0, h)" "amo_switch_d op h a e64 v64 = (0, h)"
    if "op \<notin> amo_ops"
    using that by (auto simp: amo_switch_h_def amo_switch_w_def amo_switch_d_def amo_ops_def)
  show "agree_outside a 2 h (snd (amo_switch_h op h a e16 v16))" "agree_outside a 4 h (snd (amo_switch_w op h a e32 v32))"
    "agree_outside a 8 h (snd (amo_switch_d op h a e64 v64))"
    by (cases "op \<in> amo_ops"; simp add: o amo_switch_h_spec amo_switch_w_spec amo_switch_d_spec)+
  show "agree_outside a 1 h (snd (amo_switch_b op h a e8 v8))"
    using agree_write(1) [of a h]
    by (simp add: amo_switch_b_def atomic_cas_uint8_ex_def atomic_swap_uint8_def atomic_add_uint8_def
      atomic_and_uint8_def atomic_or_uint8_def atomic_xor_uint8_def atomic_maxu_uint8_def atomic_minu_uint8_def
      atomic_max_int8_def atomic_min_int8_def atomic_fetch_def atomic_cas_def Let_def)
qed

section \<open>What address translation touches\<close>

text \<open>A walk writes nothing but an aligned page table entry in RAM, and keeps the page offset.\<close>

lemma FFF_mask: "(0xFFF :: u64) = mask 12" by (simp add: mask_eq_exp_minus_1)

definition pte_write :: "'d hart \<Rightarrow> 'd hart \<Rightarrow> bool" where
  "pte_write vm vm' \<longleftrightarrow> vm' = vm \<or> (\<exists>pa ptr n h. riscv_phys_access vm pa = Some ptr \<and> n \<in> {4, 8} \<and> pa AND (of_nat n - 1) = 0
     \<and> agree_outside ptr n (host vm) h \<and> vm' = vm\<lparr>host := h\<rparr>)"

lemma pte_write_refl [simp]: "pte_write vm vm"
  by (simp add: pte_write_def)

lemma leaf_offset:
  assumes "12 \<le> off"
  shows "((x AND shl (bit_mask n) off) OR (va AND bit_mask off)) AND 0xFFF = va AND (0xFFF :: u64)"
  unfolding FFF_mask bit_mask_eq using assms by (intro bit_word_eqI) (auto simp: bit_simps)

lemma pte_aligned:
  fixes table :: u64
  assumes "table AND 0xFFF = 0"
  shows "(table + shl x 3) AND 7 = 0" "(table + shl x 2) AND 3 = 0"
proof -
  have m: "unat (a AND mask k) = unat a mod 2 ^ k" for a :: u64 and k
    unfolding take_bit_eq_mask [symmetric] unsigned_take_bit_eq by (simp add: take_bit_eq_mod)
  have t: "unat table mod 2 ^ 12 = 0" using m [of table 12] assms by (simp add: FFF_mask)
  have "(table + shl x k) AND mask k = 0" if "k \<le> 12" for k
  proof -
    have d: "(2 :: nat) ^ k dvd 2 ^ 12" "(2 :: nat) ^ k dvd 2 ^ 64" using that by (auto intro: le_imp_power_dvd simp del: power_numeral)
    have "shl x k AND mask k = 0" by (rule bit_word_eqI) (simp add: bit_simps)
    then have "unat (shl x k) mod 2 ^ k = 0" using m [of "shl x k" k] by simp
    moreover have "unat table mod 2 ^ k = 0" using t d(1) by (meson dvd_imp_mod_0 dvd_trans mod_0_imp_dvd)
    moreover have "unat (table + shl x k) mod 2 ^ k = (unat table + unat (shl x k)) mod 2 ^ k"
      using mod_mod_cancel [OF d(2), of "unat table + unat (shl x k)"] by (simp add: unat_word_ariths)
    ultimately have "unat ((table + shl x k) AND mask k) = 0" unfolding m by (metis add_0 mod_0 mod_add_eq)
    then show ?thesis by (simp only: unat_eq_zero)
  qed
  from this [of 3] this [of 2] show "(table + shl x 3) AND 7 = 0" "(table + shl x 2) AND 3 = 0"
    by (simp_all add: mask_eq_exp_minus_1)
qed

lemma next_aligned:
  "(shl (shr (pte :: u64) 10) 12 AND SV64_PHYS_MASK) AND 0xFFF = 0" "(ucast (shl (shr (p :: u32) 10) 12) :: u64) AND 0xFFF = 0"
  by (rule bit_word_eqI; simp add: FFF_mask bit_simps)+

lemma sv64_walk_touch:
  "sv64_walk va priv k i table off vm = (r, vm') \<Longrightarrow> table AND 0xFFF = 0 \<Longrightarrow> pte_write vm vm'"
proof (induction i arbitrary: table off)
  case 0
  then show ?case by (simp add: pte_write_def)
next
  case (Suc i)
  show ?case
  proof (cases "riscv_phys_access vm (table + shl (shr va off AND 0x1FF) 3)")
    case None
    with Suc.prems show ?thesis by (simp add: pte_write_def)
  next
    case (Some ptr)
    have w: "pte_write vm (vm\<lparr>host := write_uint64_le (host vm) ptr v\<rparr>)" for v
      unfolding pte_write_def
      by (rule disjI2, rule exI [of _ "table + shl (shr va off AND 0x1FF) 3"], rule exI [of _ ptr], rule exI [of _ 8],
          rule exI [of _ "write_uint64_le (host vm) ptr v"])
        (use Some pte_aligned(1) [OF Suc.prems(2)] in \<open>simp del: push_bit_and\<close>)
    show ?thesis
      using Suc.prems(1) Some w Suc.IH [OF _ Suc.prems(2)] Suc.IH [OF _ next_aligned(1)]
      by (auto simp: Let_def split: if_splits)
  qed
qed

lemma sv64_walk_offset:
  "sv64_walk va priv k i table off vm = (Some pa, vm') \<Longrightarrow> 12 + 9 * i \<le> off + 9 \<Longrightarrow> pa AND 0xFFF = va AND 0xFFF"
proof (induction i arbitrary: table off)
  case (Suc i)
  have o: "12 \<le> off" using Suc.prems(2) by simp
  have n: "12 + 9 * i \<le> off - 9 + 9" if "0 < i" using Suc.prems(2) that by simp
  have z: "sv64_walk va priv k 0 t b vm \<noteq> (Some pa, vm')" for t b by simp
  show ?case
    using Suc.prems Suc.IH n leaf_offset [OF o] z
    by (cases "i = 0") (auto simp: Let_def simp del: sv64_walk.simps(1) split: option.splits if_splits)
qed simp
lemma sv32_walk_touch:
  "sv32_walk va priv k i table off vm = (r, vm') \<Longrightarrow> table AND 0xFFF = 0 \<Longrightarrow> pte_write vm vm'"
proof (induction i arbitrary: table off)
  case 0
  then show ?case by (simp add: pte_write_def)
next
  case (Suc i)
  show ?case
  proof (cases "riscv_phys_access vm (table + shl (shr va off AND 0x3FF) 2)")
    case None
    with Suc.prems show ?thesis by (simp add: pte_write_def)
  next
    case (Some ptr)
    have w: "pte_write vm (vm\<lparr>host := write_uint32_le (host vm) ptr v\<rparr>)" for v
      unfolding pte_write_def
      by (rule disjI2, rule exI [of _ "table + shl (shr va off AND 0x3FF) 2"], rule exI [of _ ptr], rule exI [of _ 4],
          rule exI [of _ "write_uint32_le (host vm) ptr v"])
        (use Some pte_aligned(2) [OF Suc.prems(2)] in \<open>simp del: push_bit_and\<close>)
    show ?thesis
      using Suc.prems(1) Some w Suc.IH [OF _ Suc.prems(2)] Suc.IH [OF _ next_aligned(2)]
      by (auto simp: Let_def split: if_splits)
  qed
qed

lemma sv32_walk_offset:
  "sv32_walk va priv k i table off vm = (Some pa, vm') \<Longrightarrow> 12 + 10 * i \<le> off + 10 \<Longrightarrow> pa AND 0xFFF = va AND 0xFFF"
proof (induction i arbitrary: table off)
  case (Suc i)
  have o: "12 \<le> off" using Suc.prems(2) by simp
  have n: "12 + 10 * i \<le> off - 10 + 10" if "0 < i" using Suc.prems(2) that by simp
  have z: "sv32_walk va priv k 0 t b vm \<noteq> (Some pa, vm')" for t b by simp
  show ?case
    using Suc.prems Suc.IH n leaf_offset [OF o] z
    by (cases "i = 0") (auto simp: Let_def simp del: sv32_walk.simps(1) split: option.splits if_splits)
qed simp

lemma translate_cases:
  "\<exists>p a i. riscv_mmu_translate vm va k = (Some va, vm) \<or> riscv_mmu_translate vm va k = (None, vm)
     \<or> riscv_mmu_translate vm va k = sv32_walk va p a 2 (root_page_table vm) 22 vm
     \<or> riscv_mmu_translate vm va k = sv64_walk va p a i (root_page_table vm) (i * 9 + 12 - 9) vm"
  by (rule exI [of _ "eff_priv vm k"], rule exI [of _ "eff_access vm k"], rule exI [of _ "mmu_mode vm - 5"])
    (simp add: mmu_translate_eq riscv_mmu_translate_rv64_def riscv_mmu_translate_sv32_def Let_def del: sv64_walk.simps sv32_walk.simps)

lemma translate_touch:
  assumes "root_page_table vm AND 0xFFF = 0"
  shows "pte_write vm (snd (riscv_mmu_translate vm va k))"
proof -
  have w: "pte_write vm (snd (sv64_walk va p a i (root_page_table vm) b vm))" "pte_write vm (snd (sv32_walk va p a i (root_page_table vm) b vm))"
    for p a i b
    by (rule sv64_walk_touch [OF prod.collapse [symmetric] assms] sv32_walk_touch [OF prod.collapse [symmetric] assms])+
  from translate_cases [of vm va k] show ?thesis by (elim exE disjE) (simp_all only: w snd_conv pte_write_refl)
qed

lemma translate_offset:
  assumes "riscv_mmu_translate vm va k = (Some pa, vm')"
  shows "pa AND 0xFFF = va AND 0xFFF"
  using translate_cases [of vm va k] unfolding assms
proof (elim exE disjE)
  fix p a i assume "(Some pa, vm') = sv64_walk va p a i (root_page_table vm) (i * 9 + 12 - 9) vm"
  from sv64_walk_offset [OF this [symmetric]] show ?thesis by simp
next
  fix p a assume "(Some pa, vm') = sv32_walk va p a 2 (root_page_table vm) 22 vm"
  from sv32_walk_offset [OF this [symmetric]] show ?thesis by simp
qed simp_all

section \<open>Invariants of memory accesses\<close>

locale mmu_invariant =
  fixes m :: "'d machine" and P :: "'d hart \<Rightarrow> bool"
  assumes trap: "P vm \<Longrightarrow> unat cause < 32 \<Longrightarrow> P (riscv_trap vm cause tval)"
    and walk: "P vm \<Longrightarrow> P (snd (riscv_mmu_translate vm va k))"
    and ram_put: "\<lbrakk>P vm; k \<in> mmu_kinds; riscv_phys_access vm pa = Some ptr; pa AND 0xFFF = va AND 0xFFF\<rbrakk> \<Longrightarrow>
      P (riscv_tlb_put vm va ptr k)"
    and ram_write: "\<lbrakk>P vm; riscv_phys_access vm pa = Some ptr; riscv_block_in_page pa n; n < 65536; agree_outside ptr n (host vm) h\<rbrakk> \<Longrightarrow>
      P (vm\<lparr>host := h\<rparr>)"
    and dev_call: "\<lbrakk>P vm; dev \<in> set (mc_mmio_devs m); md_read dev = Some f \<or> md_write dev = Some f\<rbrakk> \<Longrightarrow>
      P (snd (snd (f vm d off sz)))"
    and dev_put: "\<lbrakk>P vm; k \<in> mmu_kinds; dev \<in> set (mc_mmio_devs m); md_mapping dev = Some p; md_addr dev \<le> pa;
      pa < md_addr dev + md_size dev; pa AND 0xFFF = va AND 0xFFF\<rbrakk> \<Longrightarrow> P (riscv_tlb_put vm va (p + (pa - md_addr dev)) k)"
    and dev_write: "\<lbrakk>P vm; dev \<in> set (mc_mmio_devs m); md_mapping dev = Some p; md_addr dev \<le> pa; pa < md_addr dev + md_size dev;
      riscv_block_in_page pa n; n < 65536; agree_outside (p + (pa - md_addr dev)) n (host vm) h\<rbrakk> \<Longrightarrow> P (vm\<lparr>host := h\<rparr>)"
begin

lemma unaligned_loop:
  assumes "dev \<in> set (mc_mmio_devs m)"
  shows "P vm \<Longrightarrow> P (snd (snd (mmio_unaligned_loop fuel dev align k tmp d oa od os sz vm)))"
proof (induction fuel arbitrary: tmp d oa od os sz vm)
  case (Suc fuel)
  let ?n = "if align - od > sz then sz else align - od"
  obtain ok tmp1 vm1 where r: "(if k \<noteq> RISCV_MMU_WRITE \<or> od \<noteq> 0 \<or> ?n \<noteq> align
      then (case md_read dev of None \<Rightarrow> (False, tmp, vm) | Some rd \<Rightarrow> rd vm tmp oa align) else (True, tmp, vm)) = (ok, tmp1, vm1)"
    by (rule prod_cases3)
  have vm1: "P vm1"
    using r Suc.prems dev_call [OF Suc.prems assms] by (auto split: if_splits option.splits) (metis snd_conv)+
  let ?tmp = "take od tmp1 @ take ?n (drop os d) @ drop (od + ?n) tmp1"
  obtain ok2 tmp2 vm2 where w: "(case md_write dev of None \<Rightarrow> (False, ?tmp, vm1) | Some wr \<Rightarrow> wr vm1 ?tmp oa align) = (ok2, tmp2, vm2)"
    by (rule prod_cases3)
  have vm2: "P vm2"
    using w vm1 dev_call [OF vm1 assms] by (auto split: option.splits) (metis snd_conv)
  show ?case
    unfolding mmio_unaligned_loop.simps Let_def r w prod.case
    using Suc.prems vm1 vm2 Suc.IH by auto
qed simp

lemma unaligned_op: "P vm \<Longrightarrow> dev \<in> set (mc_mmio_devs m) \<Longrightarrow> P (snd (snd (riscv_mmio_unaligned_op dev d off sz k vm)))"
  by (simp add: riscv_mmio_unaligned_op_def unaligned_loop Let_def)

lemma scan_devs:
  assumes "P vm" "set devices \<subseteq> set (mc_mmio_devs m)" "k \<in> mmu_kinds" "pa AND 0xFFF = va AND 0xFFF" "riscv_block_in_page pa sz" "sz < 65536"
  shows "P (snd (snd (mmio_scan_devs devices vm va pa d sz k)))"
  using assms(2)
proof (induction devices)
  case (Cons dev devices)
  show ?case
  proof (cases "md_addr dev \<le> pa \<and> pa < md_addr dev + md_size dev")
    case False
    then have "mmio_scan_devs (dev # devices) vm va pa d sz k = mmio_scan_devs devices vm va pa d sz k"
      unfolding mmio_scan_devs.simps by (simp only: if_False)
    with Cons show ?thesis by simp
  next
    case True
    have dev: "dev \<in> set (mc_mmio_devs m)" using Cons.prems by simp
    define r where "r = (case if k = RISCV_MMU_WRITE then md_write dev else md_read dev of
        Some f \<Rightarrow> (if sz \<le> md_max_op_size dev \<and> sz \<ge> md_min_op_size dev \<and> (pa - md_addr dev) AND (of_nat sz - 1) = 0
                   then snd (f vm d (pa - md_addr dev) sz)
                   else snd (riscv_mmio_unaligned_op dev d (pa - md_addr dev) sz k vm))
      | None \<Rightarrow> if md_mapping dev = None then (buf_fill d (replicate sz 0), vm) else (d, vm))"
    have r: "P (snd r)"
      unfolding r_def using assms(1) dev_call [OF assms(1) dev] unaligned_op [OF assms(1) dev]
      by (auto split: option.split if_splits)
    have put: "P (riscv_tlb_put (snd r) va (p + (pa - md_addr dev)) k)" if "md_mapping dev = Some p" for p
      using dev_put [OF r assms(3) dev that] True assms(4) by simp
    have out: "P (h\<lparr>host := mem_write (host h) (p + (pa - md_addr dev)) (take sz b)\<rparr>)" if "md_mapping dev = Some p" "P h" for p h b
      using dev_write [OF that(2) dev that(1) _ _ assms(5,6)] True agree_mem_write by auto
    have put_out: "P ((riscv_tlb_put (snd r) va (p + (pa - md_addr dev)) k)\<lparr>host := mem_write (host (snd r)) (p + (pa - md_addr dev)) (take sz b)\<rparr>)"
      if "md_mapping dev = Some p" for p b
      using out [OF that put [OF that], of b] by simp
    show ?thesis
      using True r put out put_out unfolding mmio_scan_devs.simps Let_def r_def [symmetric]
      by (auto simp: case_prod_beta split: option.split)
  qed
qed (simp add: assms(1))

lemma op_page:
  assumes "P vm" "ucast attr \<in> mmu_kinds" "attr AND RISCV_MMU_ATTR_NO_PROT = 0" "riscv_block_in_page va (unat (shr attr 16))"
  shows "P (snd (snd (mmu_op_page m vm va d attr)))"
proof -
  define k where "k = (ucast attr :: u8)"
  obtain r vm1 where t: "riscv_mmu_translate vm va k = (r, vm1)" by fastforce
  have v: "P vm1" using walk [OF assms(1), of va k] t by simp
  have fault: "P (mmu_fault a b c h x attr)" if "P h" "unat a < 32" "unat b < 32" "unat c < 32" for a b c h x
    using that by (simp add: mmu_fault_def trap Let_def)
  show ?thesis
  proof (cases r)
    case None
    with t v assms(3) show ?thesis
      by (simp add: mmu_op_page_def k_def [symmetric] riscv_mmu_pagefault_def fault Let_def)
  next
    case (Some pa)
    with t have o: "pa AND 0xFFF = va AND 0xFFF" by (simp add: translate_offset)
    with assms(4) have blk: "riscv_block_in_page pa (unat (shr attr 16))" by (simp add: riscv_block_in_page_def)
    have n: "unat (shr attr 16) < 65536" using unat_drop_bit_less [of 16 attr] by simp
    have k: "k \<in> mmu_kinds" "RISCV_MMU_READ \<in> mmu_kinds" using assms(2) by (simp_all add: k_def mmu_kinds_def)
    have put: "P (riscv_tlb_put vm1 va ptr k)" if "riscv_phys_access vm1 pa = Some ptr" for ptr
      using ram_put [OF v k(1) that o] .
    have out: "P ((riscv_tlb_put vm1 va ptr k)\<lparr>host := mem_write (host vm1) ptr (take (unat (shr attr 16)) b)\<rparr>)"
      if "riscv_phys_access vm1 pa = Some ptr" for ptr b
      by (rule ram_write [where ptr = ptr, OF put [OF that] _ blk n]) (use that agree_mem_write in \<open>auto simp: riscv_phys_access_def split: if_splits\<close>)
    have scan: "P (snd (snd (riscv_mmio_scan m vm1 va pa b (unat (shr attr 16)) kk)))" if "kk \<in> mmu_kinds" for b kk
      unfolding riscv_mmio_scan_def by (rule scan_devs [OF v _ that o blk n]) simp
    show ?thesis
      using t Some v assms(3) put out scan [OF k(1)] scan [OF k(2)]
      by (auto simp: mmu_op_page_def k_def [symmetric] riscv_mmu_phys_fault_def fault Let_def case_prod_beta split: option.split)
  qed
qed

lemma helper:
  assumes "P vm" "k \<in> mmu_kinds" "sz \<le> 256" "attr AND RISCV_MMU_ATTR_NO_PROT = 0"
  shows "P (snd (snd (riscv_mmu_op_helper m vm va d attr sz k)))"
proof -
  define a where "a = mmu_attr attr sz k"
  have a: "ucast a = k" "unat (shr a 16) = sz" "a AND RISCV_MMU_ATTR_NO_PROT = 0"
    using assms(3,4) by (simp_all add: a_def mmu_attr_fields)
  have page: "P (snd (snd (mmu_op_page m h v b (mmu_attr a n k))))" if "P h" "riscv_block_in_page v n" "n \<le> 256" for h v b n
    using that assms(2) a(3) by (intro op_page) (simp_all add: mmu_attr_fields)
  have misalign: "P (riscv_mmu_misalign vm va a)"
    using assms(1) by (simp add: riscv_mmu_misalign_def mmu_fault_def trap Let_def)
  show ?thesis
  proof (cases "riscv_block_in_page va sz")
    case True
    then show ?thesis
      using op_page [OF assms(1), of a va d] assms(2) a
      by (simp add: riscv_mmu_op_helper_def riscv_mmu_op_internal_def a_def [symmetric] Let_def)
  next
    case False
    define n where "n = unat (ucast (RISCV_PAGE_SIZE - (va AND RISCV_PAGE_MASK)) :: u8)"
    note parts = block_parts_in_page [OF False assms(3) n_def]
    obtain r1 d1 vm1 where p1: "mmu_op_page m vm va d (mmu_attr a n k) = (r1, d1, vm1)" by (rule prod_cases3)
    have 1: "P vm1" using page [OF assms(1) parts(3), of d] p1 parts(2) assms(3) by simp
    have 2: "P (snd (snd (mmu_op_page m vm1 (va + of_nat n) b (mmu_attr a (sz - n) k))))" for b
      using page [OF 1 parts(4), of b] assms(3) by simp
    show ?thesis
      using False misalign 1 2 unfolding riscv_mmu_op_helper_def riscv_mmu_op_internal_def a_def [symmetric] Let_def a n_def [symmetric] p1
      by (auto simp: case_prod_beta split: mmu_ptr.split)
  qed
qed

lemma access: "P vm \<Longrightarrow> k \<in> mmu_kinds \<Longrightarrow> sz \<le> 256 \<Longrightarrow> attr \<in> {0, RISCV_MMU_ATTR_NO_TRAP} \<Longrightarrow>
    P (snd (snd (riscv_mmu_op_helper m vm va (Some d) attr sz k)))"
  by (rule helper) auto

lemma translate: "P vm \<Longrightarrow> k \<in> mmu_kinds \<Longrightarrow> sz \<le> 256 \<Longrightarrow> P (snd (snd (riscv_mmu_ptr_translate m vm va buf sz k)))"
  unfolding riscv_mmu_ptr_translate_def by (rule helper) simp_all

end

section \<open>The contract of an invariant\<close>

definition access_sizes :: "nat set" where
  "access_sizes = {1, 2, 4, 8, 16, 64}"

text \<open>What the instructions, with their fetches and traps, do to a hart.\<close>

locale insn_invariant = mmu_invariant m P
  for m :: "'d machine" and P :: "'d hart \<Rightarrow> bool" +
  assumes reg: "P vm \<Longrightarrow> P (set_reg vm r v)"
    and trap_done: "P vm \<Longrightarrow> P (vm\<lparr>trap := False\<rparr>)"
    and breakpoint: "P vm \<Longrightarrow> P (riscv_breakpoint m vm)"
    and reserve: "P vm \<Longrightarrow> P (vm\<lparr>lrsc := b, lrsc_addr := ra, lrsc_cas := c\<rparr>)"
    and ptr_write: "\<lbrakk>P vm; sz \<in> access_sizes; va AND (of_nat sz - 1) = 0;
      riscv_rmw_translate m vm va buf sz = (Mhost ptr, buf', vm'); agree_outside ptr sz (host vm') h\<rbrakk> \<Longrightarrow> P (vm'\<lparr>host := h\<rparr>)"
    and system: "P vm \<Longrightarrow> riscv_emulate_opc_system m vm insn = Some vm' \<Longrightarrow> P vm'"
begin

lemma write_reg: "P vm \<Longrightarrow> P (riscv_write_reg vm r v)"
  by (simp add: riscv_write_reg_def reg)

lemma illegal: "P vm \<Longrightarrow> P (riscv_illegal_insn vm insn)"
  by (simp add: riscv_illegal_insn_def trap)

lemma mmu_op: "\<lbrakk>P vm; k \<in> mmu_kinds; sz \<le> 256; riscv_mmu_op m vm va d sz k = (ok, d', vm')\<rbrakk> \<Longrightarrow> P vm'"
  using access [of vm k sz 0 va d] by (auto simp: riscv_mmu_op_def case_prod_beta)

lemma load:
  assumes "P vm" "sz \<le> 256"
  shows "P (load_with conv sz m vm va r)"
  using assms mmu_op [where k = RISCV_MMU_READ, OF assms(1) _ assms(2)]
  by (auto simp: load_with_def reg mmu_kinds_def split: option.split prod.split bool.split)

lemma store:
  assumes "P vm" "sz \<in> access_sizes" "\<And>h a v. agree_outside a sz h (wr h a v)"
  shows "P (store_with wr sz m vm va r)"
proof -
  have "sz \<le> 256" using assms(2) by (auto simp: access_sizes_def)
  then have slow: "P (snd (snd (riscv_mmu_op m vm va d sz RISCV_MMU_WRITE)))" for d
    using mmu_op [where k = RISCV_MMU_WRITE, OF assms(1)]
    by (cases "riscv_mmu_op m vm va d sz RISCV_MMU_WRITE") (auto simp: mmu_kinds_def)
  have hit: "P (vm\<lparr>host := wr (host vm) ptr v\<rparr>)"
    if "va AND (of_nat sz - 1) = 0" "tlb_lookup vm va RISCV_MMU_WRITE = Some ptr" for ptr v
    by (rule ptr_write [OF assms(1,2) that(1), of None ptr None]) (use that(2) assms(3) in \<open>simp_all add: riscv_rmw_translate_def\<close>)
  show ?thesis using slow hit by (auto simp: store_with_def split: option.split)
qed

lemma loads_stores:
  assumes "P vm"
  shows "P (riscv_load_u64 m vm va r)" "P (riscv_load_u32 m vm va r)" "P (riscv_load_s32 m vm va r)" "P (riscv_load_u16 m vm va r)"
    "P (riscv_load_s16 m vm va r)" "P (riscv_load_u8 m vm va r)" "P (riscv_load_s8 m vm va r)"
    "P (riscv_store_u64 m vm va r)" "P (riscv_store_u32 m vm va r)" "P (riscv_store_u16 m vm va r)" "P (riscv_store_u8 m vm va r)"
  using assms unfolding riscv_load_u64_def riscv_load_u32_def riscv_load_s32_def riscv_load_u16_def riscv_load_s16_def
    riscv_load_u8_def riscv_load_s8_def riscv_store_u64_def riscv_store_u32_def riscv_store_u16_def riscv_store_u8_def
  by (intro load store; simp add: access_sizes_def)+

text \<open>Atomics: a translated pointer, the new contents of its cell, and the commit to a device.\<close>

lemma rmw:
  assumes "P vm" "sz \<in> access_sizes"
  shows "P (snd (snd (riscv_rmw_translate m vm va buf sz)))" "P (snd (snd (riscv_ro_translate m vm va buf sz)))"
proof -
  have "sz \<le> 256" using assms(2) by (auto simp: access_sizes_def)
  then show "P (snd (snd (riscv_rmw_translate m vm va buf sz)))" "P (snd (snd (riscv_ro_translate m vm va buf sz)))"
    using translate [OF assms(1)] assms(1)
    by (simp_all add: riscv_rmw_translate_def riscv_ro_translate_def mmu_kinds_def split: option.split)
qed

lemma commit: "P vm \<Longrightarrow> sz \<le> 256 \<Longrightarrow> P (amo_commit m r va h sz vm)"
  by (auto simp: amo_commit_def riscv_rmw_mmio_commit_def mmu_kinds_def access split: mmu_ptr.split)

lemma cell_store:
  assumes "P vm" "sz \<in> access_sizes" "va AND (of_nat sz - 1) = 0" "riscv_rmw_translate m vm va buf sz = (r, buf', vm')"
    and "agree_outside (snd (amo_cell r buf' vm')) sz (fst (amo_cell r buf' vm')) h"
  shows "P (amo_store r h vm')"
proof (cases r)
  case (Mhost ptr)
  with ptr_write [OF assms(1-3)] assms(4,5) show ?thesis by (auto simp: amo_cell_def amo_store_def)
qed (use rmw(1) [OF assms(1,2), of va buf] assms(4) in \<open>auto simp: amo_store_def\<close>)

lemma unreserve: "P vm \<Longrightarrow> P (vm\<lparr>lrsc := b\<rparr>)"
  using reserve [where vm = vm and b = b and ra = "lrsc_addr vm" and c = "lrsc_cas vm"] by simp

lemma amo_tail:
  assumes "riscv_rmw_translate m vm va buf sz = (r, buf', vm')" "P vm" "sz \<in> access_sizes" "va AND (of_nat sz - 1) = 0"
    and "agree_outside (snd (amo_cell r buf' vm')) sz (fst (amo_cell r buf' vm')) h"
  shows "P (amo_commit m r va h sz (riscv_write_reg (amo_store r h vm') rd x))"
    "P (amo_commit m r va h sz ((riscv_write_reg (amo_store r h vm') rd x)\<lparr>lrsc := b\<rparr>))"
    "P (amo_commit m r va h sz (amo_store r h vm'))"
    "P (amo_commit m r va h sz (riscv_write_reg (riscv_write_reg (amo_store r h vm') rd x) rd' y))"
proof -
  have "sz \<le> 256" using assms(3) by (auto simp: access_sizes_def)
  moreover have "P (amo_store r h vm')" by (rule cell_store [OF assms(2,3,4,1,5)])
  ultimately show "P (amo_commit m r va h sz (riscv_write_reg (amo_store r h vm') rd x))"
    "P (amo_commit m r va h sz ((riscv_write_reg (amo_store r h vm') rd x)\<lparr>lrsc := b\<rparr>))"
    "P (amo_commit m r va h sz (amo_store r h vm'))"
    "P (amo_commit m r va h sz (riscv_write_reg (riscv_write_reg (amo_store r h vm') rd x) rd' y))"
    by (auto intro!: commit write_reg unreserve)
qed

lemma atomic_b:
  assumes "P vm"
  shows "P (riscv_emulate_atomic_b TYPE('x::len) m vm insn)"
proof -
  define va where "va = (ucast (riscv_read_reg vm (unat (bit_ext_u32 insn 15 5)) :: 'x word) :: u64)"
  obtain r buf vm' where t: "riscv_rmw_translate m vm va (Some (replicate 1 0)) 1 = (r, buf, vm')" by (rule prod_cases3)
  have p: "P vm'" using rmw(1) [where sz = 1 and va = va, OF assms, of "Some (replicate 1 0)"] t by (simp add: access_sizes_def)
  have tail: "P (amo_commit m r va (snd (amo_switch_b op (fst (amo_cell r buf vm')) (snd (amo_cell r buf vm')) e v)) 1
      (riscv_write_reg (amo_store r (snd (amo_switch_b op (fst (amo_cell r buf vm')) (snd (amo_cell r buf vm')) e v)) vm') rd (x :: 'x word)))"
    for op e v rd x
    by (rule amo_tail(1) [OF t assms _ _ agree_switch(1)]) (simp_all add: access_sizes_def)
  show ?thesis
    unfolding riscv_emulate_atomic_b_def Let_def va_def [symmetric] t
    using p assms tail by (cases r) (auto simp: case_prod_beta illegal)
qed

lemma atomic_h:
  assumes "P vm"
  shows "P (riscv_emulate_atomic_h TYPE('x::len) m vm insn)"
proof -
  define va where "va = (ucast (riscv_read_reg vm (unat (bit_ext_u32 insn 15 5)) :: 'x word) :: u64)"
  obtain r buf vm' where t: "riscv_rmw_translate m vm va (Some (replicate 2 0)) 2 = (r, buf, vm')" by (rule prod_cases3)
  have s: "2 \<in> access_sizes" "va AND 1 = 0 \<Longrightarrow> va AND (of_nat 2 - 1) = 0" by (simp_all add: access_sizes_def)
  have p: "P vm'" using rmw(1) [OF assms s(1)] t by (metis snd_conv)
  have tail: "P (amo_commit m r va (snd (amo_switch_h op (fst (amo_cell r buf vm')) (snd (amo_cell r buf vm')) e v)) 2
      (riscv_write_reg (amo_store r (snd (amo_switch_h op (fst (amo_cell r buf vm')) (snd (amo_cell r buf vm')) e v)) vm') rd (x :: 'x word)))"
    if "va AND 1 = 0" for op e v rd x
    by (rule amo_tail(1) [OF t assms s(1) s(2) [OF that] agree_switch(2)])
  show ?thesis
    unfolding riscv_emulate_atomic_h_def Let_def va_def [symmetric] t
    using p assms tail by (cases r) (auto simp: case_prod_beta illegal trap)
qed

lemma atomic_w:
  assumes "P vm"
  shows "P (riscv_emulate_atomic_w TYPE('x::len) m vm insn)"
proof -
  define va where "va = (ucast (riscv_read_reg vm (unat (bit_ext_u32 insn 15 5)) :: 'x word) :: u64)"
  obtain r buf vm' where t: "riscv_rmw_translate m vm va (Some (replicate 4 0)) 4 = (r, buf, vm')" by (rule prod_cases3)
  obtain r2 buf2 vm2 where t2: "riscv_ro_translate m vm va (Some (replicate 4 0)) 4 = (r2, buf2, vm2)" by (rule prod_cases3)
  have s: "4 \<in> access_sizes" "va AND 3 = 0 \<Longrightarrow> va AND (of_nat 4 - 1) = 0" by (simp_all add: access_sizes_def)
  have p: "P vm'" using rmw(1) [OF assms s(1)] t by (metis snd_conv)
  have p2: "P vm2" using rmw(2) [OF assms s(1)] t2 by (metis snd_conv)
  have tail: "P (amo_commit m r va (snd (amo_switch_w op (fst (amo_cell r buf vm')) (snd (amo_cell r buf vm')) e v)) 4
      (riscv_write_reg (amo_store r (snd (amo_switch_w op (fst (amo_cell r buf vm')) (snd (amo_cell r buf vm')) e v)) vm') rd (x :: 'x word)))"
    if "va AND 3 = 0" for op e v rd x
    by (rule amo_tail(1) [OF t assms s(1) s(2) [OF that] agree_switch(3)])
  have sc: "P (amo_commit m r va (snd (snd (atomic_cas_uint32_ex (fst (amo_cell r buf vm')) (snd (amo_cell r buf vm')) e v))) 4
      ((riscv_write_reg (amo_store r (snd (snd (atomic_cas_uint32_ex (fst (amo_cell r buf vm')) (snd (amo_cell r buf vm')) e v))) vm') rd (x :: 'x word))\<lparr>lrsc := False\<rparr>))"
    if "va AND 3 = 0" for e v rd x
    by (rule amo_tail(2) [OF t assms s(1) s(2) [OF that] agree_cas_write(2)])
  have unres: "P h \<Longrightarrow> P ((riscv_write_reg h rd (x :: 'x word))\<lparr>lrsc := False\<rparr>)" for h rd x by (simp add: unreserve write_reg)
  show ?thesis
    unfolding riscv_emulate_atomic_w_def Let_def va_def [symmetric] t t2
    using p p2 assms tail sc unres
    by (cases r; cases r2; cases "shr insn 27 = RISCV_AMO_LR"; cases "shr insn 27 = RISCV_AMO_SC")
      (auto simp: case_prod_beta illegal trap write_reg reserve)
qed

lemma atomic_d:
  assumes "P vm"
  shows "P (riscv_emulate_atomic_d TYPE('x::len) m vm insn)"
proof -
  define va where "va = (ucast (riscv_read_reg vm (unat (bit_ext_u32 insn 15 5)) :: 'x word) :: u64)"
  obtain r buf vm' where t: "riscv_rmw_translate m vm va (Some (replicate 8 0)) 8 = (r, buf, vm')" by (rule prod_cases3)
  obtain r2 buf2 vm2 where t2: "riscv_ro_translate m vm va (Some (replicate 8 0)) 8 = (r2, buf2, vm2)" by (rule prod_cases3)
  have s: "8 \<in> access_sizes" "va AND 7 = 0 \<Longrightarrow> va AND (of_nat 8 - 1) = 0" by (simp_all add: access_sizes_def)
  have p: "P vm'" using rmw(1) [OF assms s(1)] t by (metis snd_conv)
  have p2: "P vm2" using rmw(2) [OF assms s(1)] t2 by (metis snd_conv)
  have tail: "P (amo_commit m r va (snd (amo_switch_d op (fst (amo_cell r buf vm')) (snd (amo_cell r buf vm')) e v)) 8
      (riscv_write_reg (amo_store r (snd (amo_switch_d op (fst (amo_cell r buf vm')) (snd (amo_cell r buf vm')) e v)) vm') rd (x :: 'x word)))"
    if "va AND 7 = 0" for op e v rd x
    by (rule amo_tail(1) [OF t assms s(1) s(2) [OF that] agree_switch(4)])
  have sc: "P (amo_commit m r va (snd (snd (atomic_cas_uint64_ex (fst (amo_cell r buf vm')) (snd (amo_cell r buf vm')) e v))) 8
      ((riscv_write_reg (amo_store r (snd (snd (atomic_cas_uint64_ex (fst (amo_cell r buf vm')) (snd (amo_cell r buf vm')) e v))) vm') rd (x :: 'x word))\<lparr>lrsc := False\<rparr>))"
    if "va AND 7 = 0" for e v rd x
    by (rule amo_tail(2) [OF t assms s(1) s(2) [OF that] agree_cas_write(1)])
  have unres: "P h \<Longrightarrow> P ((riscv_write_reg h rd (x :: 'x word))\<lparr>lrsc := False\<rparr>)" for h rd x by (simp add: unreserve write_reg)
  show ?thesis
    unfolding riscv_emulate_atomic_d_def Let_def va_def [symmetric] t t2
    using p p2 assms tail sc unres
    by (cases r; cases r2; cases "shr insn 27 = RISCV_AMO_LR"; cases "shr insn 27 = RISCV_AMO_SC")
      (auto simp: case_prod_beta illegal trap write_reg reserve)
qed

lemma atomic_dwcas:
  assumes "P vm"
  shows "P (riscv_emulate_atomic_dwcas TYPE('x::len) m vm insn)"
proof -
  define va where "va = (ucast (riscv_read_reg vm (unat (bit_ext_u32 insn 15 5)) :: 'x word) :: u64)"
  define sz :: nat where "sz = (if riscv64 TYPE('x) then 16 else 8)"
  obtain r buf vm' where t: "riscv_rmw_translate m vm va (Some (replicate sz 0)) sz = (r, buf, vm')" by (rule prod_cases3)
  have s: "sz \<in> access_sizes" by (simp_all add: access_sizes_def sz_def)
  have p: "P vm'" using rmw(1) [OF assms s] t by (metis snd_conv)
  let ?a = "snd (amo_cell r buf vm')" and ?h = "fst (amo_cell r buf vm')"
  have agree: "riscv64 TYPE('x) \<Longrightarrow> agree_outside ?a sz ?h (snd (snd (atomic_cas_uint128_ex ?h ?a e v)))"
    "\<not> riscv64 TYPE('x) \<Longrightarrow> agree_outside ?a sz ?h (snd (snd (atomic_cas_uint64_ex ?h ?a e' v')))" for e v e' v'
    by (simp_all add: sz_def)
  have tail: "P (amo_commit m r va h sz (amo_store r h vm'))"
    "P (amo_commit m r va h sz (riscv_write_reg (riscv_write_reg (amo_store r h vm') rd (x :: 'x word)) rd' (y :: 'x word)))"
    if "agree_outside ?a sz ?h h" "va AND (of_nat sz - 1) = 0" for h rd x rd' y
    by (rule amo_tail(3,4) [OF t assms s that(2,1)])+
  show ?thesis
    unfolding riscv_emulate_atomic_dwcas_def Let_def va_def [symmetric] sz_def [symmetric] t
    using p assms tail agree by (cases r) (auto simp: case_prod_beta illegal trap)
qed

lemma amo: "P vm \<Longrightarrow> P (riscv_emulate_a_opc_amo TYPE('x::len) m vm insn)"
  by (simp add: riscv_emulate_a_opc_amo_def atomic_b atomic_h atomic_w atomic_d atomic_dwcas illegal Let_def)

text \<open>The base and the compressed instruction sets.\<close>

lemma cbo_zero:
  assumes "P vm"
  shows "P (riscv_cbo_zero m vm va)"
proof -
  obtain r buf vm' where t: "riscv_rmw_translate m vm (va AND NOT 63) None 64 = (r, buf, vm')" by (rule prod_cases3)
  have s: "64 \<in> access_sizes" "(va AND NOT 63) AND (of_nat 64 - 1) = 0"
    by (simp_all add: access_sizes_def) (simp add: and.assoc)
  have "P vm'" using rmw(1) [OF assms s(1)] t by (metis snd_conv)
  moreover have "P (vm'\<lparr>host := mem_write (host vm') ptr (replicate 64 0)\<rparr>)" if "r = Mhost ptr" for ptr
    by (rule ptr_write [OF assms s, of None ptr buf]) (use t that agree_mem_write in auto)
  ultimately show ?thesis by (cases r) (simp_all add: riscv_cbo_zero_def t [simplified])
qed

lemma misc_mem: "P vm \<Longrightarrow> P (riscv_emulate_opc_misc_mem m vm insn)"
  by (simp add: riscv_emulate_opc_misc_mem_def cbo_zero illegal Let_def)

lemma base_ops:
  assumes "P vm"
  shows "P (riscv_emulate_i_opc_load TYPE('x::len) m vm insn)" "P (riscv_emulate_i_opc_store TYPE('x) m vm insn)"
    "P (riscv_emulate_i_opc_imm TYPE('x) vm insn)" "P (riscv_emulate_i_opc_imm32 TYPE('x) vm insn)"
    "P (riscv_emulate_i_opc_op TYPE('x) vm insn)" "P (riscv_emulate_i_opc_op32 TYPE('x) vm insn)"
    "P (riscv_emulate_i_auipc TYPE('x) vm insn)" "P (riscv_emulate_i_lui TYPE('x) vm insn)"
    "P (riscv_emulate_i_opc_branch TYPE('x) vm insn)" "P (riscv_emulate_i_jalr TYPE('x) vm insn)" "P (riscv_emulate_i_jal TYPE('x) vm insn)"
  using assms
  by (simp_all add: riscv_emulate_i_opc_load_def riscv_emulate_i_opc_store_def riscv_emulate_i_opc_imm_def riscv_emulate_i_opc_imm32_def
    riscv_emulate_i_opc_op_def riscv_emulate_i_opc_op32_def riscv_emulate_i_auipc_def riscv_emulate_i_lui_def riscv_emulate_i_opc_branch_def
    riscv_emulate_i_jalr_def riscv_emulate_i_jal_def loads_stores illegal write_reg Let_def split: option.split bool.split)

lemma base: "P vm \<Longrightarrow> riscv_emulate_i TYPE('x::len) m vm insn = Some vm' \<Longrightarrow> P vm'"
  by (auto simp: riscv_emulate_i_def base_ops misc_mem amo illegal Let_def split: if_splits intro: system)

lemma compressed:
  assumes "P vm"
  shows "P (riscv_emulate_c_c0 TYPE('x::len) m vm insn)" "P (riscv_emulate_c_c1 TYPE('x) vm insn)" "P (riscv_emulate_c_c2 TYPE('x) m vm insn)"
proof -
  have "P (c1_misc_alu TYPE('x) vm insn)" using assms by (simp add: c1_misc_alu_def write_reg illegal Let_def split: option.split)
  then show "P (riscv_emulate_c_c0 TYPE('x) m vm insn)" "P (riscv_emulate_c_c1 TYPE('x) vm insn)" "P (riscv_emulate_c_c2 TYPE('x) m vm insn)"
    using assms by (simp_all add: riscv_emulate_c_c0_def riscv_emulate_c_c1_def riscv_emulate_c_c2_def loads_stores illegal write_reg breakpoint Let_def)
qed

lemma insn: "P vm \<Longrightarrow> riscv_emulate_insn TYPE('x::len) m vm insn = Some vm' \<Longrightarrow> P vm'"
  by (auto simp: riscv_emulate_insn_def add_pc_def set_pc_def compressed reg Let_def split: if_splits dest: base)

text \<open>Fetching and the iteration of the interpreter.\<close>

lemma fetch: "P vm \<Longrightarrow> riscv_fetch_insn m vm va = (i, vm') \<Longrightarrow> P vm'"
  using mmu_op [where k = RISCV_MMU_EXEC and sz = 2]
  by (auto simp: riscv_fetch_insn_def mmu_kinds_def Let_def split: option.splits prod.splits bool.splits if_splits) blast+

lemma iter:
  assumes "P vm" "interp_iter TYPE('x::len) m p g vm = Some (next, vm')"
  shows "P vm'"
proof -
  obtain i vm1 where f: "interp_fetch TYPE('x) m p g vm = (i, vm1)" by fastforce
  have "P vm1" using f assms(1) fetch
    by (auto simp: interp_fetch_def Let_def split: if_splits prod.splits option.splits)
  then have "P vm1" "\<And>r v. P (set_reg vm1 r v)" by (simp_all add: reg)
  then show ?thesis using assms(2) f by (auto simp: interp_iter_def split: option.splits prod.splits dest: insn)
qed

lemma resume: "P vm \<Longrightarrow> P (resume_trap vm)"
  by (simp add: resume_trap_def set_pc_def reg trap_done)

end

text \<open>What the loop of a hart and other threads do.\<close>

locale hart_invariant = insn_invariant m P
  for m :: "'d machine" and P :: "'d hart \<Rightarrow> bool" +
  assumes running: "P vm \<Longrightarrow> P (vm\<lparr>running := b\<rparr>)"
    and queue: "P vm \<Longrightarrow> P (vm\<lparr>pending_events := ev\<rparr>)" "P vm \<Longrightarrow> P (vm\<lparr>preempt_ms := ms\<rparr>)"
    and wait: "P vm \<Longrightarrow> P (mc_wait m delay vm)"
    and irqs: "P vm \<Longrightarrow> P (riscv_handle_irqs vm)"
    and event: "P vm \<Longrightarrow> P (deliver e vm)"
begin

lemma dispatch: "P vm \<Longrightarrow> hart_dispatch m vm = (stop, vm') \<Longrightarrow> P vm'"
  by (auto simp: hart_dispatch_def running queue wait irqs Let_def split: if_splits)

lemma step: "hart_step m s s' \<Longrightarrow> P (snd s) \<Longrightarrow> P (snd s')"
  by (induction rule: hart_step.induct) (auto intro: dispatch iter resume event)

lemma reachable: "(hart_step m)\<^sup>*\<^sup>* s s' \<Longrightarrow> P (snd s) \<Longrightarrow> P (snd s')"
  by (induction rule: rtranclp_induct) (auto intro: step)

end

end
