(* ===== verification/Confinement.thy ===== *)
theory Confinement
  imports Invariants
begin

text \<open>
  Two invariants of every hart that runs, whatever the guest does: the control state (CSRs,
  privilege mode, address translation) stays legal, and the memory of the host outside the memory
  of the guest is never written.  Both are interpretations of \<open>hart_invariant\<close>, under the contract
  that the CPU relies on for the devices.
\<close>

section \<open>The contract of devices\<close>

text \<open>
  A device handler may change its own state, raise interrupts and access guest memory \<open>G\<close>; it
  leaves the translation and privilege state of the hart and the other memory of the host alone.
  So does a sleep.  A device that is mapped directly covers whole pages of guest memory.
\<close>

definition dev_contract :: "u64 set \<Rightarrow> 'd hart \<Rightarrow> 'd hart \<Rightarrow> bool" where
  "dev_contract G vm vm' \<longleftrightarrow> csr vm' = csr vm \<and> priv_mode vm' = priv_mode vm \<and> mmu_mode vm' = mmu_mode vm
     \<and> root_page_table vm' = root_page_table vm \<and> tlb vm' = tlb vm \<and> mem_addr vm' = mem_addr vm
     \<and> mem_size vm' = mem_size vm \<and> mem_data vm' = mem_data vm \<and> (\<forall>a. a \<notin> G \<longrightarrow> host vm' a = host vm a)"

definition machine_contract :: "u64 set \<Rightarrow> 'd machine \<Rightarrow> bool" where
  "machine_contract G m \<longleftrightarrow>
     (\<forall>dev \<in> set (mc_mmio_devs m).
        (\<forall>f vm d off sz. md_read dev = Some f \<or> md_write dev = Some f \<longrightarrow> dev_contract G vm (snd (snd (f vm d off sz))))
        \<and> (\<forall>p. md_mapping dev = Some p \<longrightarrow> md_addr dev AND 0xFFF = 0 \<and> md_size dev AND 0xFFF = 0
             \<and> (\<forall>off < md_size dev. p + off \<in> G)))
     \<and> (\<forall>delay vm. dev_contract G vm (mc_wait m delay vm))"

lemma machine_contractD:
  assumes "machine_contract G m"
  shows "dev \<in> set (mc_mmio_devs m) \<Longrightarrow> md_read dev = Some f \<or> md_write dev = Some f \<Longrightarrow> dev_contract G vm (snd (snd (f vm d off sz)))"
    and "dev_contract G vm (mc_wait m delay vm)"
    and "dev \<in> set (mc_mmio_devs m) \<Longrightarrow> md_mapping dev = Some p \<Longrightarrow>
      md_addr dev AND 0xFFF = 0 \<and> md_size dev AND 0xFFF = 0 \<and> (\<forall>off < md_size dev. p + off \<in> G)"
  using assms unfolding machine_contract_def by blast+

text \<open>The events of other threads keep the contract, if the RAM of the hart belongs to the guest.\<close>

lemma deliver_contract:
  assumes "\<forall>off < mem_size vm. mem_data vm + off \<in> G"
  shows "dev_contract G vm (deliver e vm)"
proof (cases e)
  case (Ev_ram_write pa b)
  with assms show ?thesis by (auto simp: dev_contract_def riscv_phys_access_def split: option.split)
qed (simp_all add: dev_contract_def control_defs riscv_send_aia_irq_def riscv_hart_check_timer_def riscv_hart_preempt_def
    riscv_hart_queue_pause_def riscv_restart_dispatch_def split: option.split)

section \<open>Control state\<close>

definition control_ok :: "u64 set \<Rightarrow> 'd machine \<Rightarrow> 'd hart \<Rightarrow> bool" where
  "control_ok G m vm \<longleftrightarrow> machine_contract G m \<and> control_legal False m vm"

lemma control_frame:
  "\<lbrakk>control_ok G m vm; csr vm' = csr vm; mmu_mode vm' = mmu_mode vm; root_page_table vm' = root_page_table vm; priv_mode vm' = priv_mode vm\<rbrakk>
   \<Longrightarrow> control_ok G m vm'"
  using csr_legal_frame [of vm' vm False m] by (simp add: control_ok_def control_legal_def)

lemma control_contract: "control_ok G m vm \<Longrightarrow> dev_contract G' vm vm' \<Longrightarrow> control_ok G m vm'"
  by (erule control_frame) (simp_all add: dev_contract_def)

interpretation control: hart_invariant m "control_ok G m" for m G
proof unfold_locales
  fix vm vm' :: "'a hart"
  assume P: "control_ok G m vm"
  then have l: "control_legal False m vm" and c: "machine_contract G m" by (simp_all add: control_ok_def)
  note frame = control_frame [OF P]
  show "control_ok G m (riscv_trap vm cause tval)" if "unat cause < 32" for cause tval
    using legal_trap [OF l that] c by (simp add: control_ok_def)
  show "control_ok G m (snd (riscv_mmu_translate vm va k))" for va k
    using translate_host [of vm va k] by (intro frame) (auto simp: host_only_def)
  show "control_ok G m (riscv_tlb_put vm va ptr k)" for va ptr k by (intro frame) simp_all
  show "control_ok G m (riscv_tlb_put vm va ptr k)" for va ptr k by (intro frame) simp_all
  show "control_ok G m (vm\<lparr>host := h\<rparr>)" for h by (intro frame) simp_all
  show "control_ok G m (vm\<lparr>host := h\<rparr>)" for h by (intro frame) simp_all
  show "control_ok G m (snd (snd (f vm d off sz)))" if "dev \<in> set (mc_mmio_devs m)" "md_read dev = Some f \<or> md_write dev = Some f" for dev f d off sz
    using machine_contractD(1) [OF c that] by (rule control_contract [OF P])
  show "control_ok G m (set_reg vm r v)" for r v by (intro frame) (simp_all add: set_reg_def)
  show "control_ok G m (vm\<lparr>running := b\<rparr>)" "control_ok G m (vm\<lparr>pending_events := e\<rparr>)" "control_ok G m (vm\<lparr>preempt_ms := e\<rparr>)"
    "control_ok G m (vm\<lparr>trap := False\<rparr>)" "control_ok G m (vm\<lparr>lrsc := b, lrsc_addr := a, lrsc_cas := a'\<rparr>)" for b e a a'
    by (intro frame; simp)+
  show "control_ok G m (riscv_breakpoint m vm)"
    using legal_trap [OF l, of 3 0] c frame [of "riscv_restart_at_pc vm (reg_pc vm)"]
    by (auto simp: riscv_breakpoint_def control_ok_def)
  show "control_ok G m (vm'\<lparr>host := h\<rparr>)" if "riscv_rmw_translate m vm va buf sz = (Mhost ptr, buf', vm')" for va buf sz ptr buf' h
    using rmw_translate_ram(1) [OF that] by (intro frame) (auto simp: ram_only_def)
  show "control_ok G m vm'" if "riscv_emulate_opc_system m vm insn = Some vm'" for insn
  proof -
    have "control_legal False m (mc_wait m d h)" if "control_legal False m h" for d h
      using control_contract [OF _ machine_contractD(2) [OF c], of G m h d] that c by (simp add: control_ok_def)
    from legal_system [OF this l that] c show ?thesis by (simp add: control_ok_def)
  qed
  show "control_ok G m (mc_wait m delay vm)" for delay
    by (rule control_contract [OF P machine_contractD(2) [OF c]])
  show "control_ok G m (riscv_handle_irqs vm)" using legal_handle_irqs [OF l] c by (simp add: control_ok_def)
  show "control_ok G m (deliver e vm)" for e
    by (rule control_contract [OF P deliver_contract [of _ UNIV]]) simp
qed

section \<open>Pages of guest memory\<close>

definition page_in :: "u64 set \<Rightarrow> u64 \<Rightarrow> bool" where
  "page_in G base \<longleftrightarrow> (\<forall>off < 0x1000. base + off \<in> G)"

lemma unat_and_FFF: "unat (x AND 0xFFF :: u64) = unat x mod 4096"
  unfolding FFF_mask take_bit_eq_mask [symmetric] unsigned_take_bit_eq by (simp add: take_bit_eq_mod)

lemma sub_aligned:
  fixes pa base :: u64
  assumes "base AND 0xFFF = 0" "base \<le> pa"
  shows "(pa - base) AND 0xFFF = pa AND 0xFFF"
proof -
  have "unat base mod 4096 = 0" using unat_and_FFF [of base] assms(1) by simp
  then have "(unat pa - unat base) mod 4096 = unat pa mod 4096"
    using assms(2) by (metis add_0_right le_add_diff_inverse2 mod_add_right_eq mod_0 word_le_nat_alt)
  then show ?thesis
    using assms(2) unat_and_FFF [of "pa - base"] unat_and_FFF [of pa] by (simp add: word_unat_eq_iff unat_sub)
qed

lemma page_within:
  fixes off size :: u64
  assumes "size AND 0xFFF = 0" "off < size" "i < 0x1000"
  shows "off - (off AND 0xFFF) + i < size"
proof -
  have s: "unat size mod 4096 = 0" using unat_and_FFF [of size] assms(1) by simp
  have a: "unat (off - (off AND 0xFFF)) = unat off - unat off mod 4096"
    using unat_and_FFF [of off] by (subst unat_sub) (simp_all add: word_and_le1 word_le_nat_alt)
  have o: "unat off < unat size" "unat i < 4096" using assms(2,3) by (simp_all add: word_less_nat_alt)
  obtain c where c: "unat size = 4096 * c" using s by (metis mod_0_imp_dvd dvdE)
  have "unat off div 4096 < c" using o(1) c by (simp add: less_mult_imp_div_less mult.commute)
  then have "4096 * (unat off div 4096) + 4096 \<le> unat size" using c by simp
  moreover have "unat off - unat off mod 4096 = 4096 * (unat off div 4096)" by (metis minus_mod_eq_mult_div)
  ultimately have "unat off - unat off mod 4096 + 4096 \<le> unat size" by simp
  then have lt: "unat off - unat off mod 4096 + unat i < unat size" using o(2) by linarith
  then have "unat (off - (off AND 0xFFF) + i) = unat off - unat off mod 4096 + unat i"
    unfolding a [symmetric] using unsigned_less [of size, where 'a = nat] by (subst unat_word_ariths) simp
  with lt show ?thesis by (simp add: word_less_nat_alt)
qed

lemma page_block:
  assumes "page_in G (ptr - (va AND 0xFFF))" "riscv_block_in_page va n" "n < 65536" "i < n"
  shows "ptr + of_nat i \<in> G"
proof -
  have m: "unat (va AND 0xFFF) < 4096" using unat_and_FFF [of va] by simp
  have "unat ((va AND 0xFFF) + of_nat n) = unat (va AND 0xFFF) + n"
    using m assms(3) by (simp add: unat_word_ariths unat_of_nat)
  with assms(2) have "unat (va AND 0xFFF) + n \<le> 4096" by (simp add: riscv_block_in_page_def word_le_nat_alt)
  then have "unat ((va AND 0xFFF) + of_nat i) < 4096"
    using assms(4) by (simp add: unat_word_ariths unat_of_nat)
  then have "(va AND 0xFFF) + of_nat i < (0x1000 :: u64)" by (simp add: word_less_nat_alt)
  with assms(1) have "ptr - (va AND 0xFFF) + ((va AND 0xFFF) + of_nat i) \<in> G" unfolding page_in_def by blast
  then show ?thesis by simp
qed

section \<open>Memory confinement\<close>

text \<open>
  RAM of the hart in whole pages of guest memory, an aligned root page table, a TLB that answers
  with pages of guest memory only, and the memory of the host outside as it was at the start.
\<close>

definition ram_in :: "u64 set \<Rightarrow> 'd hart \<Rightarrow> bool" where
  "ram_in G vm \<longleftrightarrow> mem_addr vm AND 0xFFF = 0 \<and> mem_size vm AND 0xFFF = 0 \<and> (\<forall>off < mem_size vm. mem_data vm + off \<in> G)"

definition tlb_in :: "u64 set \<Rightarrow> 'd hart \<Rightarrow> bool" where
  "tlb_in G vm \<longleftrightarrow> (\<forall>va k p. k \<in> mmu_kinds \<longrightarrow> tlb_lookup vm va k = Some p \<longrightarrow> page_in G (p - (va AND 0xFFF)))"

definition confined :: "u64 set \<Rightarrow> host_mem \<Rightarrow> 'd machine \<Rightarrow> 'd hart \<Rightarrow> bool" where
  "confined G h0 m vm \<longleftrightarrow> machine_contract G m \<and> root_page_table vm AND 0xFFF = 0 \<and> ram_in G vm \<and> tlb_in G vm
     \<and> (\<forall>a. a \<notin> G \<longrightarrow> host vm a = h0 a)"

lemma confined_frame:
  "\<lbrakk>confined G h0 m vm; tlb vm' = tlb vm; host vm' = host vm; root_page_table vm' = root_page_table vm;
    mem_addr vm' = mem_addr vm; mem_size vm' = mem_size vm; mem_data vm' = mem_data vm\<rbrakk> \<Longrightarrow> confined G h0 m vm'"
  by (simp add: confined_def ram_in_def tlb_in_def tlb_lookup_def)

lemma confined_contract: "confined G h0 m vm \<Longrightarrow> dev_contract G vm vm' \<Longrightarrow> confined G h0 m vm'"
  by (auto simp: confined_def ram_in_def tlb_in_def tlb_lookup_def dev_contract_def)

lemma tlb_flush_fields [simp]:
  "mem_addr (riscv_tlb_flush vm) = mem_addr vm" "mem_size (riscv_tlb_flush vm) = mem_size vm"
  "mem_data (riscv_tlb_flush vm) = mem_data vm"
  by (simp_all add: riscv_tlb_flush_def riscv_restart_dispatch_def Let_def)

lemma confined_flush: "confined G h0 m vm \<Longrightarrow> confined G h0 m (riscv_tlb_flush vm)"
  by (simp add: confined_def ram_in_def tlb_in_def tlb_lookup_flush)

lemma page_base: "shr va' 12 = shr va 12 \<Longrightarrow> va' - (va' AND 0xFFF) = va - (va AND 0xFFF :: u64)"
proof -
  have "x - (x AND mask 12) = shl (shr x 12) 12" for x :: u64
  proof -
    have "x = shl (shr x 12) 12 + (x AND mask 12)"
      by (subst disjunctive_add) (auto simp: bit_simps intro!: bit_word_eqI)
    then show ?thesis by (metis add_diff_cancel_right')
  qed
  then show "shr va' 12 = shr va 12 \<Longrightarrow> va' - (va' AND 0xFFF) = va - (va AND 0xFFF)" by (simp add: FFF_mask)
qed

lemma confined_put:
  assumes "confined G h0 m vm" "k \<in> mmu_kinds" "page_in G (ptr - (va AND 0xFFF))"
  shows "confined G h0 m (riscv_tlb_put vm va ptr k)"
proof -
  have "page_in G (p - (va' AND 0xFFF))"
    if j: "j \<in> mmu_kinds" and hit: "tlb_lookup (riscv_tlb_put vm va ptr k) va' j = Some p" for va' j p
  proof (cases "shr va' 12 = shr va 12")
    case True
    from hart_tlb.put_page [OF assms(2) j True hit] have "p - (va' AND 0xFFF) = ptr - va + (va' - (va' AND 0xFFF))" by simp
    then have "p - (va' AND 0xFFF) = ptr - (va AND 0xFFF)" by (simp only: page_base [OF True]) simp
    with assms(3) show ?thesis by simp
  next
    case False
    from hart_tlb.put_other [OF assms(2) j False hit] assms(1) j show ?thesis unfolding confined_def tlb_in_def by blast
  qed
  then show ?thesis using assms(1) by (simp add: confined_def ram_in_def tlb_in_def)
qed

lemma confined_write:
  assumes "confined G h0 m vm" "\<And>i. i < n \<Longrightarrow> ptr + of_nat i \<in> G" "agree_outside ptr n (host vm) h"
  shows "confined G h0 m (vm\<lparr>host := h\<rparr>)"
proof -
  have "h a = host vm a" if "a \<notin> G" for a
  proof -
    have "\<forall>i<n. a \<noteq> ptr + of_nat i" using that assms(2) by metis
    with assms(3) show ?thesis unfolding agree_outside_def by simp
  qed
  with assms(1) show ?thesis by (simp add: confined_def ram_in_def tlb_in_def)
qed

lemma ram_page:
  assumes "ram_in G vm" "riscv_phys_access vm pa = Some ptr"
  shows "page_in G (ptr - (pa AND 0xFFF))"
proof -
  have pa: "mem_addr vm \<le> pa" "pa - mem_addr vm < mem_size vm" "ptr = mem_data vm + (pa - mem_addr vm)"
    using assms(2) by (simp_all add: riscv_phys_access_def split: if_splits)
  have "(pa - mem_addr vm) AND 0xFFF = pa AND 0xFFF" using assms(1) pa(1) by (intro sub_aligned) (simp_all add: ram_in_def)
  then have "ptr - (pa AND 0xFFF) + off = mem_data vm + ((pa - mem_addr vm) - ((pa - mem_addr vm) AND 0xFFF) + off)" for off
    by (simp add: pa(3))
  moreover have "(pa - mem_addr vm) - ((pa - mem_addr vm) AND 0xFFF) + off < mem_size vm" if "off < 0x1000" for off
    using page_within [OF _ pa(2) that] assms(1) by (simp add: ram_in_def)
  ultimately show ?thesis using assms(1) unfolding page_in_def ram_in_def by metis
qed

lemma mapped_page:
  assumes "machine_contract G m" "dev \<in> set (mc_mmio_devs m)" "md_mapping dev = Some p"
    and "md_addr dev \<le> pa" "pa < md_addr dev + md_size dev"
  shows "page_in G (p + (pa - md_addr dev) - (pa AND 0xFFF))"
proof -
  have d: "md_addr dev AND 0xFFF = 0" "md_size dev AND 0xFFF = 0" "\<forall>off < md_size dev. p + off \<in> G"
    using machine_contractD(3) [OF assms(1-3)] by simp_all
  have lt: "pa - md_addr dev < md_size dev"
    using assms(4,5) by (simp add: word_less_nat_alt word_le_nat_alt unat_sub unat_word_ariths)
  have "(pa - md_addr dev) AND 0xFFF = pa AND 0xFFF" by (rule sub_aligned [OF d(1) assms(4)])
  then have "p + (pa - md_addr dev) - (pa AND 0xFFF) + off = p + ((pa - md_addr dev) - ((pa - md_addr dev) AND 0xFFF) + off)" for off by simp
  with page_within [OF d(2) lt] d(3) show ?thesis unfolding page_in_def by metis
qed

text \<open>CSR operations, traps and interrupts only flush the TLB.\<close>

interpretation confined_csr: csr_invariant "confined G h0 m" for G h0 m
proof unfold_locales
  fix h :: "'a hart" and r :: u64 assume P: "confined G h0 m h"
  note frame = confined_frame [OF P]
  show "confined G h0 m (riscv_tlb_flush h)" by (rule confined_flush [OF P])
  have "shl r 12 AND 0xFFF = 0" by (rule bit_word_eqI) (simp add: FFF_mask bit_simps)
  with P show "confined G h0 m (h\<lparr>root_page_table := shl r 12\<rparr>)"
    by (simp add: confined_def ram_in_def tlb_in_def tlb_lookup_def)
qed (rule confined_frame, assumption; simp add: control_defs riscv_restart_dispatch_def upd_csr_def; fail)+

lemma confined_control:
  assumes P: "confined G h0 m vm"
  shows "confined G h0 m (vm\<lparr>trap_pc := pc, trap := b\<rparr>)" "confined G h0 m (set_pc vm pc)" "confined G h0 m (set_reg vm r v)"
    "confined G h0 m (vm\<lparr>priv_mode := p\<rparr>)" "confined G h0 m (riscv_tlb_flush_page vm va)"
proof -
  show "confined G h0 m (vm\<lparr>trap_pc := pc, trap := b\<rparr>)" "confined G h0 m (set_pc vm pc)" "confined G h0 m (set_reg vm r v)"
    "confined G h0 m (vm\<lparr>priv_mode := p\<rparr>)"
    by (rule confined_frame [OF P]; simp add: set_pc_def set_reg_def)+
  have f: "mem_addr (riscv_tlb_flush_page vm va) = mem_addr vm" "mem_size (riscv_tlb_flush_page vm va) = mem_size vm"
    "mem_data (riscv_tlb_flush_page vm va) = mem_data vm"
    by (simp_all add: riscv_tlb_flush_page_def riscv_restart_dispatch_def Let_def)
  have "tlb_lookup vm va' k = Some q" if "k \<in> mmu_kinds" "tlb_lookup (riscv_tlb_flush_page vm va) va' k = Some q" for va' k q
    using that hart_tlb.flush_page_miss [of k va' va vm] hart_tlb.flush_page_keeps [of k va' va vm] by (cases "shr va' 12 = shr va 12") auto
  with P show "confined G h0 m (riscv_tlb_flush_page vm va)" unfolding confined_def ram_in_def tlb_in_def f by simp
qed

lemma confined_traps:
  assumes "confined G h0 m vm"
  shows "confined G h0 m (riscv_switch_priv vm p)" "confined G h0 m (riscv_trap_priv_helper vm p)" "confined G h0 m (riscv_restart_at_pc vm pc)"
  using assms
  by (simp_all add: riscv_switch_priv_def trap_priv_helper_eq riscv_restart_at_pc_def confined_control confined_csr.control confined_csr.flush
      confined_csr.dispatch)

lemma confined_trap: "confined G h0 m vm \<Longrightarrow> confined G h0 m (riscv_trap vm cause tval)"
proof -
  have t: "confined G h0 m (h\<lparr>trap_pc := pc\<rparr>)" if "confined G h0 m h" for h pc by (rule confined_frame [OF that]) simp_all
  show "confined G h0 m vm \<Longrightarrow> confined G h0 m (riscv_trap vm cause tval)"
    by (simp add: riscv_trap_def confined_traps confined_csr.csr_write t Let_def)
qed

interpretation confined_mmu: mmu_invariant m "confined G h0 m" for m G h0
proof unfold_locales
  fix vm :: "'a hart" and va pa ptr :: u64 and k :: u8 and dev :: "'a mmio_dev" and p :: u64 and n :: nat and h :: host_mem
  assume P: "confined G h0 m vm"
  then have c: "machine_contract G m" and r: "ram_in G vm" by (simp_all add: confined_def)
  show "confined G h0 m (riscv_trap vm cause tval)" for cause tval by (rule confined_trap [OF P])
  show "confined G h0 m (snd (riscv_mmu_translate vm va k))"
  proof -
    have "pte_write vm (snd (riscv_mmu_translate vm va k))" using P by (intro translate_touch) (simp add: confined_def)
    then show ?thesis unfolding pte_write_def
    proof (elim disjE exE conjE)
      fix pa' ptr' n' h' assume w: "riscv_phys_access vm pa' = Some ptr'" "n' \<in> {4, 8}" "pa' AND (of_nat n' - 1) = 0"
        "agree_outside ptr' n' (host vm) h'" "snd (riscv_mmu_translate vm va k) = vm\<lparr>host := h'\<rparr>"
      have "riscv_block_in_page pa' n'" using w(2,3) aligned_in_page [of pa' 2] aligned_in_page [of pa' 3] by (auto simp: mask_eq_exp_minus_1)
      then have "ptr' + of_nat i \<in> G" if "i < n'" for i
        using page_block [OF ram_page [OF r w(1)] _ _ that] w(2) by auto
      then show ?thesis using confined_write [OF P _ w(4)] w(5) by simp
    qed (simp add: P)
  qed
  show "confined G h0 m (riscv_tlb_put vm va ptr k)" if "k \<in> mmu_kinds" "riscv_phys_access vm pa = Some ptr" "pa AND 0xFFF = va AND 0xFFF"
    using confined_put [OF P that(1)] ram_page [OF r that(2)] that(3) by simp
  show "confined G h0 m (vm\<lparr>host := h\<rparr>)" if "riscv_phys_access vm pa = Some ptr" "riscv_block_in_page pa n" "n < 65536" "agree_outside ptr n (host vm) h"
    using confined_write [OF P page_block [OF ram_page [OF r that(1)] that(2,3)] that(4)] by simp
  show "confined G h0 m (snd (snd (f vm d off sz)))" if "dev \<in> set (mc_mmio_devs m)" "md_read dev = Some f \<or> md_write dev = Some f" for f d off sz
    by (rule confined_contract [OF P machine_contractD(1) [OF c that]])
  show "confined G h0 m (riscv_tlb_put vm va (p + (pa - md_addr dev)) k)"
    if "k \<in> mmu_kinds" "dev \<in> set (mc_mmio_devs m)" "md_mapping dev = Some p" "md_addr dev \<le> pa" "pa < md_addr dev + md_size dev" "pa AND 0xFFF = va AND 0xFFF"
    using confined_put [OF P that(1)] mapped_page [OF c that(2-5)] that(6) by simp
  show "confined G h0 m (vm\<lparr>host := h\<rparr>)"
    if "dev \<in> set (mc_mmio_devs m)" "md_mapping dev = Some p" "md_addr dev \<le> pa" "pa < md_addr dev + md_size dev" "riscv_block_in_page pa n" "n < 65536"
      "agree_outside (p + (pa - md_addr dev)) n (host vm) h"
    using confined_write [OF P page_block [OF mapped_page [OF c that(1-4)] that(5,6)] that(7)] by simp
qed

lemma rmw_translate_cached:
  assumes "riscv_rmw_translate m vm va buf sz = (Mhost ptr, buf', vm')"
  shows "tlb_lookup vm' va RISCV_MMU_WRITE = Some ptr"
proof -
  have k: "RISCV_MMU_WRITE \<in> mmu_kinds" by (simp add: mmu_kinds_def)
  have hit: "tlb_lookup (riscv_tlb_put v va p RISCV_MMU_WRITE) va RISCV_MMU_WRITE = Some p" for v p
    using k by (simp add: tlb_lookup_tag tlb_tag_def put_entry Let_def)
  have "tlb_lookup v' va RISCV_MMU_WRITE = Some ptr"
    if "mmu_op_page m vm va buf attr = (Mhost ptr, b, v')" "attr AND RISCV_MMU_ATTR_PTR \<noteq> 0" "ucast attr = RISCV_MMU_WRITE" for attr b v'
    using that by (auto simp: mmu_op_page_def Let_def case_prod_beta hit split: if_splits option.splits prod.splits)
  then show ?thesis
    using assms by (auto simp: riscv_rmw_translate_def riscv_mmu_ptr_translate_def riscv_mmu_op_helper_def riscv_mmu_op_internal_def
        mmu_attr_fields Let_def split: if_splits option.splits)
qed

lemma access_in_page: "sz \<in> access_sizes \<Longrightarrow> va AND (of_nat sz - 1) = 0 \<Longrightarrow> riscv_block_in_page va sz"
  using aligned_in_page [of va 0] aligned_in_page [of va 1] aligned_in_page [of va 2] aligned_in_page [of va 3]
    aligned_in_page [of va 4] aligned_in_page [of va 6]
  by (auto simp: access_sizes_def mask_eq_exp_minus_1)

lemma confined_ptr_write:
  assumes P: "confined G h0 m vm" and sz: "sz \<in> access_sizes" "va AND (of_nat sz - 1) = 0"
    and t: "riscv_rmw_translate m vm va buf sz = (Mhost ptr, buf', vm')" "agree_outside ptr sz (host vm') h"
  shows "confined G h0 m (vm'\<lparr>host := h\<rparr>)"
proof -
  have "sz \<le> 256" using sz(1) by (auto simp: access_sizes_def)
  then have c: "confined G h0 m vm'"
    using t(1) P confined_mmu.translate [OF P, of RISCV_MMU_WRITE sz va buf]
    by (auto simp: riscv_rmw_translate_def mmu_kinds_def split: option.splits)
  then have "page_in G (ptr - (va AND 0xFFF))"
    using rmw_translate_cached [OF t(1)] unfolding confined_def tlb_in_def by (simp add: mmu_kinds_def)
  then have "ptr + of_nat i \<in> G" if "i < sz" for i
    using page_block [OF _ access_in_page [OF sz] _ that] \<open>sz \<le> 256\<close> by simp
  from confined_write [OF c this t(2)] show ?thesis .
qed

lemma confined_returns:
  assumes "confined G h0 m vm"
  shows "confined G h0 m (insn_mret vm)" "confined G h0 m (insn_sret vm)" "confined G h0 m (riscv_handle_irqs vm)"
    "confined G h0 m (riscv_breakpoint m vm)" "confined G h0 m (riscv_illegal_insn vm insn)"
  using assms
  by (simp_all add: insn_mret_def insn_sret_def riscv_handle_irqs_def riscv_breakpoint_def riscv_illegal_insn_def confined_traps
      confined_control confined_csr.control confined_csr.csr_write confined_trap Let_def case_prod_beta)

lemma confined_check_timer: "confined G h0 m vm \<Longrightarrow> confined G h0 m (riscv_hart_check_timer vm)"
  by (erule confined_frame) (simp_all add: riscv_hart_check_timer_def control_defs riscv_restart_dispatch_def)

lemma confined_wfi: "confined G h0 m vm \<Longrightarrow> wfi_loop n m vm = Some vm' \<Longrightarrow> confined G h0 m vm'"
proof (induction n arbitrary: vm)
  case (Suc n)
  then have "machine_contract G m" by (simp add: confined_def)
  from confined_check_timer [OF confined_contract [OF Suc.prems(1) machine_contractD(2) [OF this]]] Suc show ?case
    by (auto split: if_splits)
qed (simp split: if_splits)

lemma confined_csr_insn: "confined G h0 m vm \<Longrightarrow> confined G h0 m (csr_insn m vm insn v op)"
  using confined_csr.csr_op [of G h0 m vm m "shr insn 20" v op]
  by (auto simp: csr_insn_def confined_control confined_returns split: prod.split bool.split)

lemma confined_system:
  assumes "confined G h0 m vm" "riscv_emulate_opc_system m vm insn = Some vm'"
  shows "confined G h0 m vm'"
proof -
  have "insn_wfi m vm = Some vm' \<Longrightarrow> confined G h0 m vm'"
    using assms(1) confined_wfi [OF assms(1)] by (auto simp: insn_wfi_def split: if_splits)
  then show ?thesis
    using assms confined_returns [OF assms(1)] confined_trap [OF assms(1)] confined_csr_insn [OF assms(1)]
      confined_control(5) [OF assms(1)] confined_flush [OF assms(1)]
    by (auto simp: riscv_emulate_opc_system_def Let_def split: if_splits)
qed

interpretation confinement: hart_invariant m "confined G h0 m" for m G h0
proof unfold_locales
  fix vm vm' :: "'a hart" assume P: "confined G h0 m vm"
  then have c: "machine_contract G m" and r: "ram_in G vm" by (simp_all add: confined_def)
  show "confined G h0 m (set_reg vm r v)" for r v by (rule confined_control(3) [OF P])
  show "confined G h0 m (vm\<lparr>running := b\<rparr>)" "confined G h0 m (vm\<lparr>pending_events := e\<rparr>)" "confined G h0 m (vm\<lparr>preempt_ms := e\<rparr>)"
    "confined G h0 m (vm\<lparr>trap := False\<rparr>)" "confined G h0 m (vm\<lparr>lrsc := b, lrsc_addr := a, lrsc_cas := a'\<rparr>)" for b e a a'
    by (rule confined_frame [OF P]; simp)+
  show "confined G h0 m (riscv_breakpoint m vm)" "confined G h0 m (riscv_handle_irqs vm)" by (rule confined_returns [OF P])+
  show "confined G h0 m (vm'\<lparr>host := h\<rparr>)" if "sz \<in> access_sizes" "va AND (of_nat sz - 1) = 0"
    "riscv_rmw_translate m vm va buf sz = (Mhost ptr, buf', vm')" "agree_outside ptr sz (host vm') h" for va buf sz ptr buf' h
    by (rule confined_ptr_write [OF P that])
  show "confined G h0 m vm'" if "riscv_emulate_opc_system m vm insn = Some vm'" for insn by (rule confined_system [OF P that])
  show "confined G h0 m (mc_wait m delay vm)" for delay by (rule confined_contract [OF P machine_contractD(2) [OF c]])
  show "confined G h0 m (deliver e vm)" for e
    by (rule confined_contract [OF P deliver_contract]) (use r in \<open>simp add: ram_in_def\<close>)
qed

section \<open>Properties\<close>

text \<open>A fresh hart satisfies both invariants.\<close>

lemma hart_init_fields:
  "csr (riscv_hart_init m addr sz data h d) = csr (riscv_csr_init ((hart_zero d)\<lparr>rv64 := mc_rv64 m\<rparr>))"
  "mmu_mode (riscv_hart_init m addr sz data h d) = 0" "root_page_table (riscv_hart_init m addr sz data h d) = 0"
  "priv_mode (riscv_hart_init m addr sz data h d) = RISCV_PRIV_MACHINE" "host (riscv_hart_init m addr sz data h d) = h"
  "mem_addr (riscv_hart_init m addr sz data h d) = addr" "mem_size (riscv_hart_init m addr sz data h d) = sz"
  "mem_data (riscv_hart_init m addr sz data h d) = data" "k \<in> mmu_kinds \<Longrightarrow> tlb_lookup (riscv_hart_init m addr sz data h d) va k = None"
  by (simp_all add: riscv_hart_init_def riscv_csr_init_def hart_zero_def csr_zero_def tlb_lookup_flush Let_def)

lemma hart_init_control:
  assumes "machine_contract G m"
  shows "control_ok G m (riscv_hart_init m addr sz data h d)"
proof -
  have "csr_legal False m (riscv_csr_init ((hart_zero d)\<lparr>rv64 := mc_rv64 m\<rparr>))"
    by (rule csr_init_legal) (simp_all add: hart_zero_def)
  then have "csr_legal False m (riscv_hart_init m addr sz data h d)"
    by (subst csr_legal_frame [OF hart_init_fields(1)]) (simp_all add: hart_init_fields riscv_csr_init_def hart_zero_def Let_def)
  then show ?thesis using assms by (simp add: control_ok_def control_legal_def hart_init_fields)
qed

lemma hart_init_confined:
  assumes "machine_contract G m" "addr AND 0xFFF = 0" "sz AND 0xFFF = 0" "\<forall>off < sz. data + off \<in> G"
  shows "confined G h m (riscv_hart_init m addr sz data h d)"
  using assms by (simp add: confined_def ram_in_def tlb_in_def hart_init_fields)

text \<open>
  C1. The guest cannot write to the memory of the host.  Let \<open>G\<close> be the memory given to the guest:
  its RAM, which is a number of whole pages, and what the devices map or write.  However long a
  fresh hart runs, whatever its instructions, its page tables and the interrupts and writes of
  others are, every byte of the host outside \<open>G\<close> keeps its value, and every pointer that the TLB
  holds leads into \<open>G\<close>.
\<close>

theorem memory_confinement:
  assumes "machine_contract G m"
    and "addr AND 0xFFF = 0" "sz AND 0xFFF = 0" "\<forall>off < sz. data + off \<in> G"
    and "(hart_step m)\<^sup>*\<^sup>* (Dispatch, riscv_hart_init m addr sz data h d) (l, vm)"
  shows "(\<forall>a. a \<notin> G \<longrightarrow> host vm a = h a)
    \<and> (\<forall>va k p. k \<in> mmu_kinds \<longrightarrow> tlb_lookup vm va k = Some p \<longrightarrow> p \<in> G)"
proof -
  have c: "confined G h m vm"
    using confinement.reachable [OF assms(5)] hart_init_confined [OF assms(1-4)] by simp
  have "p \<in> G" if "k \<in> mmu_kinds" "tlb_lookup vm va k = Some p" for va k p
  proof -
    have "(va AND 0xFFF) < 0x1000" using unat_and_FFF [of va] by (simp add: word_less_nat_alt)
    with c that have "p - (va AND 0xFFF) + (va AND 0xFFF) \<in> G" unfolding confined_def tlb_in_def page_in_def by blast
    then show ?thesis by simp
  qed
  with c show ?thesis unfolding confined_def by blast
qed

text \<open>A hart whose first instruction, at address 0, overwrites itself: \<^verbatim>\<open>sb zero, 0(zero)\<close>.\<close>

definition store_mem :: host_mem where
  "store_mem = (\<lambda>_. 7)(0x10000 := 0x23, 0x10001 := 0, 0x10002 := 0, 0x10003 := 0)"

definition hart_store :: "unit hart" where
  "hart_store = riscv_hart_init machine_bare 0 0x1000 0x10000 store_mem ()"

definition hart_stored :: "unit hart" where
  "hart_stored = (case interp_iter TYPE(64) machine_bare 0 0x1000 (snd (hart_dispatch machine_bare hart_store)) of
     Some (_, vm) \<Rightarrow> vm | None \<Rightarrow> hart_store)"

lemma bare_contract: "machine_contract G machine_bare"
  by (simp add: machine_contract_def machine_bare_def dev_contract_def)

lemma hart_stored_steps: "\<exists>l. (hart_step machine_bare)\<^sup>*\<^sup>* (Dispatch, hart_store) (l, hart_stored)" "host hart_stored 0x10000 = 0"
proof -
  let ?vm = "snd (hart_dispatch machine_bare hart_store)"
  have d: "fst (hart_dispatch machine_bare hart_store) = False" by code_simp
  have e: "enter_interpreter ?vm = Run64 0 0x1000" by code_simp
  have i: "case interp_iter TYPE(64) machine_bare 0 0x1000 ?vm of Some (Some _, vm) \<Rightarrow> host vm 0x10000 = 0 | _ \<Rightarrow> False" by code_simp
  then obtain p g where r: "interp_iter TYPE(64) machine_bare 0 0x1000 ?vm = Some (Some (p, g), hart_stored)"
    by (auto simp: hart_stored_def split: option.splits)
  show "host hart_stored 0x10000 = 0" using i r by simp
  have "hart_step machine_bare (Dispatch, hart_store) (Run64 0 0x1000, ?vm)"
    using d e step_dispatch [of machine_bare hart_store ?vm] by (metis prod.collapse)
  with step_insn64 [OF r] show "\<exists>l. (hart_step machine_bare)\<^sup>*\<^sup>* (Dispatch, hart_store) (l, hart_stored)"
    by (meson converse_rtranclp_into_rtranclp r_into_rtranclp)
qed

theorem memory_confinement_witness:
  "host hart_stored 0x10000 = 0 \<and> {a. host hart_stored a \<noteq> store_mem a} \<subseteq> {0x10000..0x10FFF}"
proof -
  have "\<forall>off < 0x1000. 0x10000 + off \<in> {0x10000..0x10FFF :: u64}"
    by (simp add: word_less_nat_alt word_le_nat_alt unat_word_ariths)
  then have "(\<forall>a. a \<notin> {0x10000..0x10FFF} \<longrightarrow> host hart_stored a = store_mem a)
    \<and> (\<forall>va k p. k \<in> mmu_kinds \<longrightarrow> tlb_lookup hart_stored va k = Some p \<longrightarrow> p \<in> {0x10000..0x10FFF})"
    using hart_stored_steps(1) unfolding hart_store_def by (elim exE) (rule memory_confinement [OF bare_contract], simp_all)
  with hart_stored_steps(2) show ?thesis by blast
qed

text \<open>
  C2. Every state that a fresh hart reaches is well formed: the CSRs hold legal values only, the
  privilege mode is user, supervisor or machine mode, the paging mode is one that the machine
  supports and the root page table is a page of the physical address space.
\<close>

theorem control_invariant:
  assumes "machine_contract G m"
    and "(hart_step m)\<^sup>*\<^sup>* (Dispatch, riscv_hart_init m addr sz data h d) (l, vm)"
  shows "control_legal False m vm"
  using control.reachable [OF assms(2), of G] hart_init_control [OF assms(1)] by (simp add: control_ok_def)

theorem control_invariant_witness: "control_legal False machine_bare hart_stored"
  using hart_stored_steps(1) unfolding hart_store_def by (elim exE) (rule control_invariant [OF bare_contract])

section \<open>Instruction fetches from devices\<close>

text \<open>
  A device at the page after the zero page, whose contents are \<^verbatim>\<open>jalr zero, 0(zero)\<close>, and a hart that
  starts there.
\<close>

definition rom_jump :: "unit mmio_dev" where
  "rom_jump = \<lparr>md_addr = 0x1000, md_size = 0x1000,
     md_read = Some (\<lambda>vm d off sz. (True, take sz (drop (unat off) [0x67, 0, 0, 0]), vm)), md_write = None,
     md_mapping = None, md_min_op_size = 1, md_max_op_size = 8\<rparr>"

definition machine_rom :: "unit machine" where
  "machine_rom = machine_bare\<lparr>mc_mmio_devs := [rom_jump]\<rparr>"

definition hart_rom :: "host_mem \<Rightarrow> unit hart" where
  "hart_rom h = set_pc (riscv_hart_init machine_rom 0x80000000 0x1000 0x10000 h ()) 0x1000"

text \<open>
  C36. Reads are not confined.  After an instruction fetch from a device the interpreter keeps the
  pointer and the page of a TLB entry that it did not check, although the comment says that direct
  fetches then fail.  From the device the guest jumps to address 0, where it has no memory, and
  the next instruction is read from address 0 of the host.
\<close>

theorem device_fetch_escapes:
  "\<exists>vm. (hart_step machine_rom)\<^sup>*\<^sup>* (Dispatch, hart_rom h) (Run64 0 0, vm) \<and> reg_pc vm = 0
     \<and> riscv_phys_access vm 0 = None
     \<and> fst (interp_fetch TYPE(64) machine_rom 0 0 vm) = Some (read_uint32_le h 0, 0, 0)"
proof -
  let ?vm = "snd (hart_dispatch machine_rom (hart_rom h))"
  have d: "fst (hart_dispatch machine_rom (hart_rom h)) = False" by code_simp
  have e: "enter_interpreter ?vm = Run64 0 0x2000" by code_simp
  have i: "case interp_iter TYPE(64) machine_rom 0 0x2000 ?vm of
      Some (Some (p, g), vm) \<Rightarrow> p = 0 \<and> g = 0 \<and> reg_pc vm = 0 \<and> riscv_phys_access vm 0 = None
        \<and> read_uint32_le (host vm) 0 = read_uint32_le h 0
    | _ \<Rightarrow> False" by code_simp
  then obtain vm where r: "interp_iter TYPE(64) machine_rom 0 0x2000 ?vm = Some (Some (0, 0), vm)"
    and vm: "reg_pc vm = 0" "riscv_phys_access vm 0 = None" "read_uint32_le (host vm) 0 = read_uint32_le h 0"
    by (auto split: option.splits)
  have "hart_step machine_rom (Dispatch, hart_rom h) (Run64 0 0x2000, ?vm)"
    using d e step_dispatch [of machine_rom "hart_rom h" ?vm] by (metis prod.collapse)
  with step_insn64 [OF r] have "(hart_step machine_rom)\<^sup>*\<^sup>* (Dispatch, hart_rom h) (Run64 0 0, vm)"
    by (meson converse_rtranclp_into_rtranclp r_into_rtranclp)
  with vm show ?thesis by (auto simp: interp_fetch_def)
qed

end
