(* ===== verification/Pausing.thy ===== *)
theory Pausing
  imports Invariants
begin

text \<open>
  Termination.  The loops of a hart run as long as the guest does; these lemmas show that another
  thread can always stop them: every instruction returns, only a \<^verbatim>\<open>wfi\<close> waits while the hart is to
  run, and a pause request survives whatever the current instruction does.
\<close>

section \<open>Stopped harts\<close>

text \<open>
  A hart that is told to leave the interpreter and to pause.  A handler of a device may stop the
  hart of the access, but does not let it run on or take back a request to pause.
\<close>

definition stopped :: "'d hart \<Rightarrow> bool" where
  "stopped vm \<longleftrightarrow> \<not> running vm \<and> pending_events vm AND HART_EVENT_PAUSE \<noteq> 0"

definition pause_contract :: "'d machine \<Rightarrow> bool" where
  "pause_contract m \<longleftrightarrow> (\<forall>dev \<in> set (mc_mmio_devs m). \<forall>f vm d off sz.
     md_read dev = Some f \<or> md_write dev = Some f \<longrightarrow> stopped vm \<longrightarrow> stopped (snd (snd (f vm d off sz))))"

definition stopped_ok :: "'d machine \<Rightarrow> 'd hart \<Rightarrow> bool" where
  "stopped_ok m vm \<longleftrightarrow> pause_contract m \<and> stopped vm"

lemma stopped_frame:
  "\<lbrakk>stopped_ok m vm; running vm' \<longrightarrow> running vm; pending_events vm' = pending_events vm\<rbrakk> \<Longrightarrow> stopped_ok m vm'"
  by (auto simp: stopped_ok_def stopped_def)

interpretation stopped_csr: csr_invariant "stopped_ok m" for m
  by unfold_locales (erule stopped_frame; simp add: control_defs riscv_restart_dispatch_def riscv_tlb_flush_def upd_csr_def; fail)+

lemma stopped_control:
  assumes P: "stopped_ok m vm"
  shows "stopped_ok m (set_reg vm r v)" "stopped_ok m (set_pc vm pc)" "stopped_ok m (riscv_switch_priv vm p)"
    "stopped_ok m (riscv_trap_priv_helper vm p)" "stopped_ok m (riscv_tlb_flush_page vm va)" "stopped_ok m (vm\<lparr>trap_pc := pc, trap := b\<rparr>)"
    "stopped_ok m (vm\<lparr>trap_pc := pc\<rparr>)" "stopped_ok m (riscv_restart_at_pc vm pc)"
  by (rule stopped_frame [OF P]; simp add: set_reg_def set_pc_def riscv_switch_priv_def riscv_tlb_flush_def trap_priv_helper_eq set_status_def
      riscv_tlb_flush_page_def riscv_restart_dispatch_def riscv_restart_at_pc_def riscv_update_xlen_def upd_csr_def Let_def)+

lemma stopped_trap: "stopped_ok m vm \<Longrightarrow> stopped_ok m (riscv_trap vm cause tval)"
  by (simp add: riscv_trap_def stopped_control stopped_csr.csr_write Let_def)

lemma stopped_traps:
  assumes "stopped_ok m vm"
  shows "stopped_ok m (insn_mret vm)" "stopped_ok m (insn_sret vm)" "stopped_ok m (riscv_breakpoint m vm)" "stopped_ok m (riscv_illegal_insn vm insn)"
    "stopped_ok m (csr_insn m vm i v op)"
  using assms stopped_csr.csr_op [of m vm m "shr i 20" v op]
  by (auto simp: insn_mret_def insn_sret_def riscv_breakpoint_def riscv_illegal_insn_def csr_insn_def stopped_control
      stopped_csr.control stopped_trap Let_def split: prod.split bool.split)

lemma stopped_wfi: "\<not> running vm \<Longrightarrow> insn_wfi m vm = Some vm"
proof -
  have "\<not> running vm \<Longrightarrow> wfi_loop n m vm = Some vm" for n by (cases n) simp_all
  then show "\<not> running vm \<Longrightarrow> insn_wfi m vm = Some vm" by (simp add: insn_wfi_def)
qed

lemma stopped_system:
  assumes "stopped_ok m vm" "riscv_emulate_opc_system m vm insn = Some vm'"
  shows "stopped_ok m vm'"
proof -
  have "insn_wfi m vm = Some vm" using assms(1) by (simp add: stopped_wfi stopped_ok_def stopped_def)
  then show ?thesis
    using assms stopped_traps [OF assms(1)] stopped_trap [OF assms(1)] stopped_csr.flush [OF assms(1)] stopped_control(5) [OF assms(1)]
    by (auto simp: riscv_emulate_opc_system_def Let_def split: if_splits)
qed

interpretation stopping: insn_invariant m "stopped_ok m" for m
proof unfold_locales
  fix vm vm' :: "'a hart" assume P: "stopped_ok m vm"
  note frame = stopped_frame [OF P]
  show "stopped_ok m (riscv_trap vm cause tval)" for cause tval by (rule stopped_trap [OF P])
  show "stopped_ok m (snd (riscv_mmu_translate vm va k))" for va k
    using translate_host [of vm va k] by (intro frame) (auto simp: host_only_def)
  show "stopped_ok m (riscv_tlb_put vm va ptr k)" for va ptr k by (intro frame) (simp_all add: riscv_tlb_put_def Let_def)
  show "stopped_ok m (riscv_tlb_put vm va ptr k)" for va ptr k by (intro frame) (simp_all add: riscv_tlb_put_def Let_def)
  show "stopped_ok m (vm\<lparr>host := h\<rparr>)" for h by (intro frame) simp_all
  show "stopped_ok m (vm\<lparr>host := h\<rparr>)" for h by (intro frame) simp_all
  show "stopped_ok m (snd (snd (f vm d off sz)))" if "dev \<in> set (mc_mmio_devs m)" "md_read dev = Some f \<or> md_write dev = Some f" for dev f d off sz
    using P that unfolding stopped_ok_def pause_contract_def by blast
  show "stopped_ok m (set_reg vm r v)" for r v by (rule stopped_control(1) [OF P])
  show "stopped_ok m (vm\<lparr>trap := False\<rparr>)" "stopped_ok m (vm\<lparr>lrsc := b, lrsc_addr := a, lrsc_cas := a'\<rparr>)" for b a a'
    by (intro frame; simp)+
  show "stopped_ok m (riscv_breakpoint m vm)" by (rule stopped_traps [OF P])
  show "stopped_ok m (vm'\<lparr>host := h\<rparr>)" if "riscv_rmw_translate m vm va buf sz = (Mhost ptr, buf', vm')" for va buf sz ptr buf' h
    using rmw_translate_ram(1) [OF that] by (intro frame) (auto simp: ram_only_def)
  show "stopped_ok m vm'" if "riscv_emulate_opc_system m vm insn = Some vm'" for insn by (rule stopped_system [OF P that])
qed

section \<open>Instructions return\<close>

text \<open>Only a \<^verbatim>\<open>wfi\<close> of a hart that is to run can wait.\<close>

lemma insn_returns:
  assumes "riscv_emulate_insn TYPE('x::len) m vm insn = None"
  shows "insn = RISCV_INSN_WFI \<and> insn_wfi m vm = None"
  using assms
  by (auto simp: riscv_emulate_insn_def riscv_emulate_i_def riscv_emulate_opc_system_def Let_def split: if_splits)

lemma wfi_none: "insn_wfi m vm = None \<Longrightarrow> running vm"
  using stopped_wfi [of vm m] by auto

lemma stopped_iter:
  assumes "stopped_ok m vm"
  shows "\<exists>vm'. interp_iter TYPE('x::len) m p g vm = Some (None, vm') \<and> stopped_ok m vm'"
proof -
  obtain i vm1 where f: "interp_fetch TYPE('x) m p g vm = (i, vm1)" by fastforce
  have "stopped_ok m vm1" using f assms stopping.fetch
    by (auto simp: interp_fetch_def Let_def split: if_splits prod.splits option.splits)
  then have s: "stopped_ok m (set_reg vm1 0 0)" by (rule stopped_control)
  show ?thesis
  proof (cases i)
    case None
    with f \<open>stopped_ok m vm1\<close> show ?thesis by (simp add: interp_iter_def)
  next
    case (Some j)
    obtain insn q h where j: "j = (insn, q, h)" by (rule prod_cases3)
    obtain vm2 where e: "riscv_emulate_insn TYPE('x) m (set_reg vm1 0 0) insn = Some vm2"
      using insn_returns [of m "set_reg vm1 0 0" insn, where 'x = 'x] wfi_none [of m "set_reg vm1 0 0"] s
      by (cases "riscv_emulate_insn TYPE('x) m (set_reg vm1 0 0) insn") (auto simp: stopped_ok_def stopped_def)
    from stopping.insn [OF s e] have "stopped_ok m vm2" .
    then show ?thesis using f Some j e by (simp add: interp_iter_def stopped_ok_def stopped_def)
  qed
qed

section \<open>Property\<close>

text \<open>
  C20. A pause request stops a hart.  Whatever the guest does, once another thread has queued a
  pause, the interpreter leaves its loop after the current instruction, even if that is a \<^verbatim>\<open>wfi\<close>,
  and the loop of the hart returns at its next round instead of running the guest again.
\<close>

theorem pause_terminates:
  fixes g :: "'x::len word"
  assumes "pause_contract m"
  shows "\<exists>vm' vm''. interp_loop TYPE('x) m (Suc fuel) p g (riscv_hart_queue_pause vm) = Some vm'
    \<and> riscv_hart_run (Suc rounds) m fuel' (resume_trap vm') = Some vm''"
proof -
  have "(pending_events vm OR 1) AND 1 = 1" by (rule bit_word_eqI) (auto simp: bit_simps)
  then have "stopped_ok m (riscv_hart_queue_pause vm)"
    using assms by (simp add: stopped_ok_def stopped_def riscv_hart_queue_pause_def riscv_hart_notify_def rvvm_event_wake_def
        riscv_restart_dispatch_def Let_def)
  then obtain vm' where i: "interp_iter TYPE('x) m p g (riscv_hart_queue_pause vm) = Some (None, vm')" and s: "stopped_ok m vm'"
    using stopped_iter by blast
  from stopping.resume [OF s] have "stopped (resume_trap vm')" by (simp add: stopped_ok_def)
  then have "fst (hart_dispatch m (resume_trap vm')) = True" by (simp add: hart_dispatch_def stopped_def Let_def)
  then show ?thesis using i by (auto split: prod.split)
qed

theorem pause_terminates_witness:
  "\<exists>vm' vm''. interp_loop TYPE(64) machine_bare 1 0 0x1000 (riscv_hart_queue_pause (hart_zero ())) = Some vm'
    \<and> riscv_hart_run 1 machine_bare 0 (resume_trap vm') = Some vm''"
  using pause_terminates [of machine_bare 0 0 "0x1000 :: u64" "hart_zero ()" 0 0] by (simp add: pause_contract_def machine_bare_def)

end
