(* ===== verification/IrqLines.thy ===== *)
theory IrqLines
  imports Hart
begin

text \<open>
  What the interrupt controllers share: the loop over the set bits of a register that they all
  write out, bit sets of 64 interrupts in two registers, and the interrupt lines of the harts of a machine, which are a list in the order of
  their numbers.
\<close>

section \<open>Loops over the bits of a register\<close>

text \<open>The source writes \<^verbatim>\<open>while (irqs) { bit = bit_ctz32(irqs); ...; irqs &= ~bit_set32(bit); }\<close>.\<close>

function foreach_bit :: "(u32 \<Rightarrow> 's \<Rightarrow> 's) \<Rightarrow> u32 \<Rightarrow> 's \<Rightarrow> 's" where
  "foreach_bit f irqs s =
     (if irqs = 0 then s else (let b = bit_ctz32 irqs in foreach_bit f (irqs AND NOT (bit_set32 b)) (f b s)))"
  by auto

lemma ctz32_lowest: "x \<noteq> 0 \<Longrightarrow> \<exists>k < 32. bit_ctz32 x = of_nat k \<and> bit x k \<and> (\<forall>j < k. \<not> bit x j)"
proof -
  assume "x \<noteq> 0"
  then obtain k where k: "k < LENGTH(32)" "bit x k" "\<And>m. m < k \<Longrightarrow> \<not> bit x m" by (rule lowest_bit) blast
  from trail_zeros_odd [OF k(2,3), of 32] k(1) \<open>x \<noteq> 0\<close> have "bit_ctz32 x = of_nat k" by (simp add: bit_ctz32_def)
  with k show ?thesis by auto
qed

lemma bit_set32_of_nat: "k < 32 \<Longrightarrow> bit_set32 (of_nat k) = shl 1 k"
proof -
  assume "k < 32"
  moreover have "list_all (\<lambda>k. of_nat k AND (0x1F :: u32) = of_nat k) [0..<32]" by code_simp
  ultimately have "of_nat k AND (0x1F :: u32) = of_nat k" by (simp add: list_all_iff)
  with \<open>k < 32\<close> show ?thesis by (simp add: bit_set32_def unat_of_nat)
qed

lemma clear_bit: "k < 32 \<Longrightarrow> bit (x AND NOT (2 ^ k) :: u32) i \<longleftrightarrow> bit x i \<and> i \<noteq> k"
  using bit_imp_le_length [of x i] by (auto simp: bit_simps)

termination foreach_bit
proof (relation "measure (\<lambda>(f, irqs, s). unat irqs)", simp)
  fix irqs b :: u32 assume "irqs \<noteq> 0" "b = bit_ctz32 irqs"
  then obtain k where k: "k < 32" "b = of_nat k" "bit irqs k" using ctz32_lowest by blast
  then have b: "\<not> bit (irqs AND NOT (bit_set32 b)) k" by (simp add: bit_set32_of_nat clear_bit)
  have "irqs AND NOT (bit_set32 b) \<le> irqs" by (rule word_and_le2)
  moreover have "irqs AND NOT (bit_set32 b) \<noteq> irqs" using b k(3) by metis
  ultimately have "irqs AND NOT (bit_set32 b) < irqs" by simp
  then show "((f, irqs AND NOT (bit_set32 b), f' b s), f, irqs, s') \<in> measure (\<lambda>(f, irqs, s). unat irqs)" for f f' s s'
    by (simp add: word_less_nat_alt)
qed

declare foreach_bit.simps [simp del]

text \<open>The loop visits the bits that are set in increasing order.\<close>

definition set_bits32 :: "u32 \<Rightarrow> nat list" where
  "set_bits32 w = filter (bit w) [0..<32]"

lemma set_bits32_lowest:
  assumes "k < 32" "bit w k" "\<forall>j < k. \<not> bit w j"
  shows "set_bits32 w = k # set_bits32 (w AND NOT (shl 1 k))"
proof -
  have "k < n" if "n \<in> set (set_bits32 (w AND NOT (shl 1 k)))" for n
    using that assms by (auto simp: set_bits32_def clear_bit) (metis linorder_neqE_nat)
  then have s: "sorted (k # set_bits32 (w AND NOT (shl 1 k)))" "distinct (k # set_bits32 (w AND NOT (shl 1 k)))"
    by (auto simp: set_bits32_def sorted_wrt_filter less_imp_le)
  moreover have "sorted (set_bits32 w)" "distinct (set_bits32 w)" by (simp_all add: set_bits32_def sorted_wrt_filter)
  moreover have "set (set_bits32 w) = set (k # set_bits32 (w AND NOT (shl 1 k)))"
    using assms by (auto simp: set_bits32_def clear_bit)
  ultimately show ?thesis by (intro sorted_distinct_set_unique)
qed

lemma foreach_bit_fold: "foreach_bit f w s = fold (\<lambda>n. f (of_nat n)) (set_bits32 w) s"
proof (induction f w s rule: foreach_bit.induct)
  case (1 f w s)
  show ?case
  proof (cases "w = 0")
    case False
    then obtain k where k: "k < 32" "bit_ctz32 w = of_nat k" "bit w k" "\<forall>j < k. \<not> bit w j" using ctz32_lowest by blast
    with 1 [OF False refl] False set_bits32_lowest [OF k(1,3,4)] show ?thesis
      by (simp add: foreach_bit.simps [of f w s] bit_set32_of_nat)
  qed (simp add: foreach_bit.simps set_bits32_def)
qed

section \<open>Bit sets\<close>

text \<open>The register and the mask of an interrupt in a bit set.\<close>

abbreviation (input) irq_reg :: "u32 \<Rightarrow> nat" where
  "irq_reg irq \<equiv> unat (shr irq 5)"

definition src_bit :: "u32 list \<Rightarrow> nat \<Rightarrow> bool" where
  "src_bit bs n = bit (bs ! (n div 32)) (n mod 32)"

lemma irq_index:
  assumes "n < 64"
  shows "irq_reg (of_nat n) = n div 32" "bit_set32 (of_nat n) = shl 1 (n mod 32)" "unat (of_nat n :: u32) = n"
    "bit_check32 w (of_nat n) \<longleftrightarrow> bit w (n mod 32)"
proof -
  have "list_all (\<lambda>n. irq_reg (of_nat n) = n div 32 \<and> (of_nat n AND 0x1F :: u32) = of_nat (n mod 32)) [0..<64]" by code_simp
  with assms have a: "irq_reg (of_nat n) = n div 32" "(of_nat n AND 0x1F :: u32) = of_nat (n mod 32)" by (simp_all add: list_all_iff)
  then show "irq_reg (of_nat n) = n div 32" "bit_set32 (of_nat n) = shl 1 (n mod 32)" "unat (of_nat n :: u32) = n"
    using assms by (simp_all add: bit_set32_def unat_of_nat)
  have "unat (of_nat (n mod 32) :: u32) = n mod 32" by (simp add: unat_of_nat)
  then show "bit_check32 w (of_nat n) \<longleftrightarrow> bit w (n mod 32)"
    by (simp add: bit_check32_def a(2) and_one_eq bit_iff_odd_drop_bit odd_iff_mod_2_eq_one)
qed

lemma irq_of_reg: "reg < 2 \<Longrightarrow> b < 32 \<Longrightarrow> shl (of_nat reg) 5 OR of_nat b = (of_nat (32 * reg + b) :: u32)"
proof -
  have "list_all (\<lambda>r. list_all (\<lambda>b. shl (of_nat r) 5 OR of_nat b = (of_nat (32 * r + b) :: u32)) [0..<32]) [0..<2]" by code_simp
  then show "reg < 2 \<Longrightarrow> b < 32 \<Longrightarrow> shl (of_nat reg) 5 OR of_nat b = (of_nat (32 * reg + b) :: u32)" by (simp add: list_all_iff)
qed

lemma src_bit_set:
  assumes "n < 64" "length bs = 2" "m < 64"
  shows "src_bit (bs[n div 32 := bs ! (n div 32) OR shl 1 (n mod 32)]) m \<longleftrightarrow> src_bit bs m \<or> m = n"
    "src_bit (bs[n div 32 := bs ! (n div 32) AND NOT (shl 1 (n mod 32))]) m \<longleftrightarrow> src_bit bs m \<and> m \<noteq> n"
proof -
  have d: "n div 32 < 2" using assms(1) by simp
  have "m = n \<longleftrightarrow> m div 32 = n div 32 \<and> m mod 32 = n mod 32" by (metis div_mult_mod_eq)
  then show "src_bit (bs[n div 32 := bs ! (n div 32) OR shl 1 (n mod 32)]) m \<longleftrightarrow> src_bit bs m \<or> m = n"
    "src_bit (bs[n div 32 := bs ! (n div 32) AND NOT (shl 1 (n mod 32))]) m \<longleftrightarrow> src_bit bs m \<and> m \<noteq> n"
    using assms d by (auto simp: src_bit_def nth_list_update bit_simps)
qed

text \<open>The bits of both registers, visited register by register.\<close>

lemma scan_regs:
  assumes "\<And>reg. reg < 2 \<Longrightarrow> bs ! reg = w reg"
  shows "fold (\<lambda>reg. foreach_bit (\<lambda>b. f (shl (of_nat reg) 5 OR b)) (w reg)) [0..<2] s =
    fold (\<lambda>n. f (of_nat n)) (filter (src_bit bs) [0..<64]) s"
proof -
  have reg: "foreach_bit (\<lambda>b. f (shl (of_nat reg) 5 OR b)) (w reg) s =
      fold (\<lambda>n. f (of_nat n)) (map (\<lambda>n. 32 * reg + n) (set_bits32 (w reg))) s" if "reg < 2" for reg s
    unfolding foreach_bit_fold fold_map
    by (rule fold_cong) (use that irq_of_reg in \<open>auto simp: set_bits32_def\<close>)
  have d: "(32 + x) div 32 = Suc 0" if "x < 32" for x :: nat by (rule div_nat_eqI) (use that in simp_all)
  have "[0..<64] = [0..<32] @ map (\<lambda>n. 32 + n) [0..<32 :: nat]" by code_simp
  moreover have "filter (src_bit bs) [0..<32] = set_bits32 (w 0)" "filter (src_bit bs) (map (\<lambda>n. 32 + n) [0..<32]) = map (\<lambda>n. 32 + n) (set_bits32 (w 1))"
    using assms [of 0] assms [of 1] by (auto simp: set_bits32_def src_bit_def filter_map o_def d intro!: filter_cong)
  ultimately show ?thesis using reg [of 0] reg [of 1] by (simp add: numeral_2_eq_2)
qed

section \<open>Interrupt lines\<close>

text \<open>An operation on the hart with a number.\<close>

definition with_hart :: "('d hart \<Rightarrow> 'd hart) \<Rightarrow> nat \<Rightarrow> 'd hart list \<Rightarrow> 'd hart list" where
  "with_hart f i hs = hs[i := f (hs ! i)]"

definition irq_line :: "'d hart list \<Rightarrow> nat \<Rightarrow> u8 \<Rightarrow> bool" where
  "irq_line hs i irq = bit (pending_irqs (hs ! i)) (unat irq)"

lemma length_with_hart [simp]: "length (with_hart f i hs) = length hs"
  by (simp add: with_hart_def)

lemma irq_line_raise:
  assumes "unat irq < 32" "i < length hs"
  shows "irq_line (with_hart (\<lambda>h. riscv_interrupt h irq) i hs) j irq' \<longleftrightarrow> irq_line hs j irq' \<or> j = i \<and> irq' = irq"
proof -
  have "list_all (\<lambda>k. of_nat k AND (0x1F :: u8) = of_nat k) [0..<32]" by code_simp
  with assms(1) have "of_nat (unat irq) AND 0x1F = (of_nat (unat irq) :: u8)" unfolding list_all_iff by fastforce
  then have "irq AND 0x1F = irq" by simp
  then have r: "pending_irqs (riscv_interrupt h irq) = pending_irqs h OR shl 1 (unat irq)" for h :: "'a hart"
    by (simp add: riscv_interrupt_def riscv_interrupt_set_def riscv_hart_notify_def rvvm_event_wake_def Let_def)
  have e: "irq' = irq \<longleftrightarrow> unat irq' = unat irq" by (simp add: word_unat_eq_iff)
  show ?thesis
    unfolding e using assms by (cases "j = i") (auto simp: irq_line_def with_hart_def r bit_simps nth_list_update dest: bit_imp_le_length)
qed

lemma irq_line_lower:
  assumes "unat irq < 32" "i < length hs"
  shows "irq_line (with_hart (\<lambda>h. riscv_interrupt_clear h irq) i hs) j irq' \<longleftrightarrow> irq_line hs j irq' \<and> \<not> (j = i \<and> irq' = irq)"
  using assms
  by (cases "j = i") (auto simp: irq_line_def with_hart_def riscv_interrupt_clear_def bit_simps nth_list_update word_unat_eq_iff dest: bit_imp_le_length)

end
