(* ===== verification/Plic.thy ===== *)
theory Plic
  imports IrqLines
begin

text \<open>
  The platform-level interrupt controller of \<^verbatim>\<open>src/devices/riscv-plic.c\<close>.  The controller and the
  harts of the machine are passed through every function.  Contexts are natural numbers, two for
  each hart; an array of the source is a list.
\<close>

section \<open>State\<close>

abbreviation (input) PLIC_SRC_LIMIT :: nat where "PLIC_SRC_LIMIT \<equiv> 64"
abbreviation (input) PLIC_SRC_REGS :: nat where "PLIC_SRC_REGS \<equiv> 2"

record plic_dev =
  pl_prio :: "u32 list"
  pl_pending :: "u32 list"
  pl_raised :: "u32 list"
  pl_enable :: "u32 list list"
  pl_threshold :: "u32 list"

definition plic_ctx_prio :: "nat \<Rightarrow> u8" where
  "plic_ctx_prio ctx = (if odd ctx then RISCV_INTERRUPT_SEXTERNAL else RISCV_INTERRUPT_MEXTERNAL)"

definition plic_ctx_hartid :: "nat \<Rightarrow> nat" where
  "plic_ctx_hartid ctx = ctx div 2"

definition plic_ctx_count :: "'d hart list \<Rightarrow> nat" where
  "plic_ctx_count hs = 2 * length hs"

definition plic_irq_pending :: "plic_dev \<Rightarrow> u32 \<Rightarrow> bool" where
  "plic_irq_pending plic irq = bit_check32 (pl_pending plic ! irq_reg irq) irq"

definition plic_irq_enabled :: "plic_dev \<Rightarrow> nat \<Rightarrow> u32 \<Rightarrow> bool" where
  "plic_irq_enabled plic ctx irq = bit_check32 (pl_enable plic ! ctx ! irq_reg irq) irq"

section \<open>Notifications\<close>

definition plic_notify_ctx_irq :: "plic_dev \<Rightarrow> nat \<Rightarrow> u32 \<Rightarrow> 'd hart list \<Rightarrow> bool \<times> 'd hart list" where
  "plic_notify_ctx_irq plic ctx irq hs =
     (if \<not> plic_irq_enabled plic ctx irq then (False, hs)
      else if pl_prio plic ! unat irq \<le> pl_threshold plic ! ctx then (False, hs)
      else (True, with_hart (\<lambda>h. riscv_interrupt h (plic_ctx_prio ctx)) (plic_ctx_hartid ctx) hs))"

primrec notify_first :: "plic_dev \<Rightarrow> u32 \<Rightarrow> nat list \<Rightarrow> 'd hart list \<Rightarrow> 'd hart list" where
  "notify_first plic irq [] hs = hs"
| "notify_first plic irq (ctx # ctxs) hs =
     (case plic_notify_ctx_irq plic ctx irq hs of
        (True, hs) \<Rightarrow> hs
      | (False, hs) \<Rightarrow> notify_first plic irq ctxs hs)"

definition plic_notify_irq :: "plic_dev \<Rightarrow> u32 \<Rightarrow> 'd hart list \<Rightarrow> 'd hart list" where
  "plic_notify_irq plic irq hs = notify_first plic irq [0..<plic_ctx_count hs] hs"

definition plic_update_ctx_irq_reg :: "plic_dev \<Rightarrow> nat \<Rightarrow> nat \<Rightarrow> 'd hart list \<Rightarrow> 'd hart list" where
  "plic_update_ctx_irq_reg plic ctx reg hs =
     (let irqs = pl_pending plic ! reg AND pl_enable plic ! ctx ! reg
      in foreach_bit (\<lambda>b. plic_notify_irq plic (shl (of_nat reg) 5 OR b)) irqs hs)"

section \<open>Updates of a context\<close>

text \<open>The body of the scan, on the local variables \<^verbatim>\<open>signals\<close>, \<^verbatim>\<open>max_irq\<close> and \<^verbatim>\<open>max_prio\<close>.\<close>

definition plic_scan_irq :: "plic_dev \<Rightarrow> u32 \<Rightarrow> u32 \<Rightarrow> u32 \<times> u32 \<times> u32 \<Rightarrow> u32 \<times> u32 \<times> u32" where
  "plic_scan_irq plic threshold irq s =
     (let (signals, max_irq, max_prio) = s;
          prio = pl_prio plic ! unat irq;
          signals = (if prio > threshold then signals + 1 else signals)
      in if prio > max_prio then (signals, irq, prio) else (signals, max_irq, max_prio))"

definition plic_scan :: "plic_dev \<Rightarrow> nat \<Rightarrow> u32 \<times> u32 \<times> u32" where
  "plic_scan plic ctx =
     fold (\<lambda>reg. foreach_bit (\<lambda>b. plic_scan_irq plic (pl_threshold plic ! ctx) (shl (of_nat reg) 5 OR b))
                   (pl_pending plic ! reg AND pl_enable plic ! ctx ! reg))
       [0..<PLIC_SRC_REGS] (0, 0, 0)"

definition plic_update_ctx :: "plic_dev \<Rightarrow> nat \<Rightarrow> bool \<Rightarrow> 'd hart list \<Rightarrow> u32 \<times> 'd hart list" where
  "plic_update_ctx plic ctx claim hs =
     (let threshold = pl_threshold plic ! ctx;
          hs = with_hart (\<lambda>h. riscv_interrupt_clear h (plic_ctx_prio ctx)) (plic_ctx_hartid ctx) hs;
          (signals, max_irq, max_prio) = plic_scan plic ctx;
          signals = (if claim \<and> max_prio > threshold then signals - 1 else signals);
          hs = (if signals \<noteq> 0
                then with_hart (\<lambda>h. riscv_interrupt h (plic_ctx_prio ctx)) (plic_ctx_hartid ctx) hs else hs)
      in (max_irq, hs))"

definition plic_full_update :: "plic_dev \<Rightarrow> 'd hart list \<Rightarrow> 'd hart list" where
  "plic_full_update plic hs = fold (\<lambda>ctx hs. snd (plic_update_ctx plic ctx False hs)) [0..<plic_ctx_count hs] hs"

section \<open>Registers\<close>

type_synonym 'd plic_state = "plic_dev \<times> 'd hart list"

definition plic_set_irq_prio :: "u32 \<Rightarrow> u32 \<Rightarrow> 'd plic_state \<Rightarrow> 'd plic_state" where
  "plic_set_irq_prio irq prio s =
     (let (plic, hs) = s in
      if irq \<noteq> 0 \<and> irq < of_nat PLIC_SRC_LIMIT then
        (let old_prio = pl_prio plic ! unat irq;
             plic = plic\<lparr>pl_prio := (pl_prio plic)[unat irq := prio]\<rparr>
         in if prio < old_prio then (if plic_irq_pending plic irq then (plic, plic_full_update plic hs) else (plic, hs))
            else if prio > old_prio \<and> plic_irq_pending plic irq then (plic, plic_notify_irq plic irq hs)
            else (plic, hs))
      else (plic, hs))"

definition plic_set_enable_bits :: "nat \<Rightarrow> nat \<Rightarrow> u32 \<Rightarrow> 'd plic_state \<Rightarrow> 'd plic_state" where
  "plic_set_enable_bits ctx reg enable s =
     (let (plic, hs) = s in
      if ctx < plic_ctx_count hs \<and> reg < PLIC_SRC_REGS then
        (let old_enable = pl_enable plic ! ctx ! reg;
             plic = plic\<lparr>pl_enable := (pl_enable plic)[ctx := (pl_enable plic ! ctx)[reg := enable]]\<rparr>;
             irqs_disabled = old_enable AND NOT enable
         in if irqs_disabled \<noteq> 0
            then (if irqs_disabled AND pl_pending plic ! reg \<noteq> 0 then (plic, plic_full_update plic hs) else (plic, hs))
            else if enable AND NOT old_enable \<noteq> 0 then (plic, plic_update_ctx_irq_reg plic ctx reg hs)
            else (plic, hs))
      else (plic, hs))"

definition plic_set_ctx_threshold :: "nat \<Rightarrow> u32 \<Rightarrow> 'd plic_state \<Rightarrow> 'd plic_state" where
  "plic_set_ctx_threshold ctx threshold s =
     (let (plic, hs) = s in
      if ctx < plic_ctx_count hs then
        (let old_threshold = pl_threshold plic ! ctx;
             plic = plic\<lparr>pl_threshold := (pl_threshold plic)[ctx := threshold]\<rparr>
         in if old_threshold \<noteq> threshold then (plic, snd (plic_update_ctx plic ctx False hs)) else (plic, hs))
      else (plic, hs))"

text \<open>The claim repeats if another thread took the interrupt that the scan found.\<close>

partial_function (option) plic_claim_loop :: "nat \<Rightarrow> 'd plic_state \<Rightarrow> (u32 \<times> 'd plic_state) option" where
  "plic_claim_loop ctx s =
     (let (plic, hs) = s;
          (irq, hs) = plic_update_ctx plic ctx True hs;
          mask = bit_set32 irq
      in if irq \<noteq> 0
         then (let old = pl_pending plic ! irq_reg irq;
                   plic = plic\<lparr>pl_pending := (pl_pending plic)[irq_reg irq := old AND NOT mask]\<rparr>
               in if old AND mask = 0 then plic_claim_loop ctx (plic, hs) else Some (irq, plic, hs))
         else Some (irq, plic, hs))"

declare plic_claim_loop.simps [code]

definition plic_claim_irq :: "nat \<Rightarrow> 'd plic_state \<Rightarrow> (u32 \<times> 'd plic_state) option" where
  "plic_claim_irq ctx s = (if ctx < plic_ctx_count (snd s) then plic_claim_loop ctx s else Some (0, s))"

definition plic_complete_irq :: "nat \<Rightarrow> u32 \<Rightarrow> 'd plic_state \<Rightarrow> 'd plic_state" where
  "plic_complete_irq ctx irq s =
     (let (plic, hs) = s in
      if ctx < plic_ctx_count hs \<and> irq < of_nat PLIC_SRC_LIMIT then
        (let raised = pl_raised plic ! irq_reg irq AND bit_set32 irq in
         if raised \<noteq> 0 then
           (let plic = plic\<lparr>pl_pending := (pl_pending plic)[irq_reg irq := pl_pending plic ! irq_reg irq OR raised]\<rparr>
            in (plic, snd (plic_notify_ctx_irq plic ctx irq hs)))
         else (plic, hs))
      else (plic, hs))"

section \<open>Bus and interrupt wires\<close>

text \<open>The value that a read stores into its buffer.\<close>

definition plic_mmio_read :: "u64 \<Rightarrow> 'd plic_state \<Rightarrow> (u32 \<times> 'd plic_state) option" where
  "plic_mmio_read off s =
     (let (plic, hs) = s in
      if off \<ge> 0x200000 then
        (let ctx = unat (ucast (shr (off - 0x200000) 12) :: u32); r = (off - 0x200000) AND 0xFFF in
         if r = 0 then Some (if ctx < plic_ctx_count hs then pl_threshold plic ! ctx else 0, s)
         else if r = 4 then plic_claim_irq ctx s
         else Some (0, s))
      else if off \<ge> 0x2000 then
        (let reg = unat (shr (off - 0x2000) 2 AND 0x1F); ctx = unat (ucast (shr (off - 0x2000) 7) :: u32) in
         Some (if reg < PLIC_SRC_REGS \<and> ctx < plic_ctx_count hs then pl_enable plic ! ctx ! reg else 0, s))
      else if off \<ge> 0x1000 then
        (let reg = unat (shr (off - 0x1000) 2) in
         Some (if reg < PLIC_SRC_REGS then pl_pending plic ! reg else 0, s))
      else
        (let irq = unat (shr off 2) in
         Some (if irq \<noteq> 0 \<and> irq < PLIC_SRC_LIMIT then pl_prio plic ! irq else 0, s)))"

definition plic_mmio_write :: "u64 \<Rightarrow> u32 \<Rightarrow> 'd plic_state \<Rightarrow> 'd plic_state" where
  "plic_mmio_write off val s =
     (if off \<ge> 0x200000 then
        (let ctx = unat (ucast (shr (off - 0x200000) 12) :: u32); r = (off - 0x200000) AND 0xFFF in
         if r = 0 then plic_set_ctx_threshold ctx val s
         else if r = 4 then plic_complete_irq ctx val s
         else s)
      else if off \<ge> 0x2000 then
        (let reg = unat (shr (off - 0x2000) 2 AND 0x1F); ctx = unat (ucast (shr (off - 0x2000) 7) :: u32)
         in plic_set_enable_bits ctx reg val s)
      else plic_set_irq_prio (ucast (shr off 2)) val s)"

definition plic_set_irq :: "u32 \<Rightarrow> bool \<Rightarrow> 'd plic_state \<Rightarrow> 'd plic_state" where
  "plic_set_irq irq lvl s =
     (let (plic, hs) = s in
      if irq > 0 \<and> irq < of_nat PLIC_SRC_LIMIT then
        (let mask = bit_set32 irq; r = irq_reg irq; old = pl_raised plic ! r in
         if lvl then
           (let plic = plic\<lparr>pl_raised := (pl_raised plic)[r := old OR mask]\<rparr> in
            if old AND mask = 0 then
              (let old = pl_pending plic ! r;
                   plic = plic\<lparr>pl_pending := (pl_pending plic)[r := old OR mask]\<rparr>
               in if old AND mask = 0 then (plic, plic_notify_irq plic irq hs) else (plic, hs))
            else (plic, hs))
         else (plic\<lparr>pl_raised := (pl_raised plic)[r := old AND NOT mask]\<rparr>, hs))
      else (plic, hs))"

definition rvvm_riscv_plic_init :: "'d hart list \<Rightarrow> plic_dev" where
  "rvvm_riscv_plic_init hs =
     \<lparr>pl_prio = replicate PLIC_SRC_LIMIT 0, pl_pending = replicate PLIC_SRC_REGS 0, pl_raised = replicate PLIC_SRC_REGS 0,
      pl_enable = replicate (plic_ctx_count hs) (replicate PLIC_SRC_REGS 0), pl_threshold = replicate (plic_ctx_count hs) 0\<rparr>"

section \<open>What a scan finds\<close>

definition plic_wf :: "'d plic_state \<Rightarrow> bool" where
  "plic_wf s \<longleftrightarrow> (let (plic, hs) = s in
     length (pl_prio plic) = PLIC_SRC_LIMIT \<and> length (pl_pending plic) = PLIC_SRC_REGS \<and> length (pl_raised plic) = PLIC_SRC_REGS
     \<and> length (pl_enable plic) = plic_ctx_count hs \<and> length (pl_threshold plic) = plic_ctx_count hs
     \<and> (\<forall>e \<in> set (pl_enable plic). length e = PLIC_SRC_REGS) \<and> \<not> src_bit (pl_pending plic) 0 \<and> \<not> src_bit (pl_raised plic) 0)"

text \<open>An interrupt that a context can claim, and one that it is to be notified of.\<close>

definition plic_claimable :: "plic_dev \<Rightarrow> nat \<Rightarrow> nat \<Rightarrow> bool" where
  "plic_claimable plic ctx n \<longleftrightarrow> n < PLIC_SRC_LIMIT \<and> src_bit (pl_pending plic) n \<and> src_bit (pl_enable plic ! ctx) n"

definition plic_deliverable :: "plic_dev \<Rightarrow> nat \<Rightarrow> nat \<Rightarrow> bool" where
  "plic_deliverable plic ctx n \<longleftrightarrow> plic_claimable plic ctx n \<and> pl_threshold plic ! ctx < pl_prio plic ! n"

lemma plic_wfD:
  assumes "plic_wf (plic, hs)"
  shows "length (pl_prio plic) = 64" "length (pl_pending plic) = 2" "length (pl_raised plic) = 2"
    "length (pl_enable plic) = plic_ctx_count hs" "length (pl_threshold plic) = plic_ctx_count hs"
    "ctx < plic_ctx_count hs \<Longrightarrow> length (pl_enable plic ! ctx) = 2" "\<not> src_bit (pl_pending plic) 0" "\<not> src_bit (pl_raised plic) 0"
  using assms by (auto simp: plic_wf_def)

lemma plic_scan_fold:
  assumes "plic_wf (plic, hs)" "ctx < plic_ctx_count hs"
  shows "plic_scan plic ctx =
    fold (\<lambda>n. plic_scan_irq plic (pl_threshold plic ! ctx) (of_nat n)) (filter (plic_claimable plic ctx) [0..<64]) (0, 0, 0)"
proof -
  note l = plic_wfD [OF assms(1)]
  let ?w = "\<lambda>reg. pl_pending plic ! reg AND pl_enable plic ! ctx ! reg"
  have "plic_scan plic ctx = fold (\<lambda>n. plic_scan_irq plic (pl_threshold plic ! ctx) (of_nat n)) (filter (src_bit [?w 0, ?w 1]) [0..<64]) (0, 0, 0)"
    unfolding plic_scan_def by (rule scan_regs) (auto simp: less_2_cases_iff)
  moreover have "src_bit [?w 0, ?w 1] n \<longleftrightarrow> plic_claimable plic ctx n" if "n < 64" for n
  proof -
    have "n div 32 = 0 \<or> n div 32 = 1" using that by auto
    then show ?thesis using that by (auto simp: src_bit_def plic_claimable_def bit_simps)
  qed
  then have "filter (src_bit [?w 0, ?w 1]) [0..<64] = filter (plic_claimable plic ctx) [0..<64]" by (intro filter_cong) auto
  ultimately show ?thesis by simp
qed

text \<open>The local variables after a scan of some interrupts in increasing order.\<close>

definition scan_result :: "plic_dev \<Rightarrow> u32 \<Rightarrow> nat list \<Rightarrow> u32 \<times> u32 \<times> u32 \<Rightarrow> bool" where
  "scan_result plic thr ns r \<longleftrightarrow> (case r of (signals, max_irq, max_prio) \<Rightarrow>
     signals = of_nat (length (filter (\<lambda>n. thr < pl_prio plic ! n) ns))
     \<and> (\<forall>n \<in> set ns. pl_prio plic ! n \<le> max_prio)
     \<and> (if max_prio = 0 then max_irq = 0
        else \<exists>n \<in> set ns. max_irq = of_nat n \<and> pl_prio plic ! n = max_prio \<and> (\<forall>k \<in> set ns. k < n \<longrightarrow> pl_prio plic ! k < max_prio)))"

lemma scan_resultI:
  assumes "sg = of_nat (length (filter (\<lambda>n. thr < pl_prio plic ! n) ns))" "\<forall>n \<in> set ns. pl_prio plic ! n \<le> mp"
    and "mp = 0 \<Longrightarrow> mi = 0"
    and "mp \<noteq> 0 \<Longrightarrow> \<exists>n \<in> set ns. mi = of_nat n \<and> pl_prio plic ! n = mp \<and> (\<forall>k \<in> set ns. k < n \<longrightarrow> pl_prio plic ! k < mp)"
  shows "scan_result plic thr ns (sg, mi, mp)"
  unfolding scan_result_def prod.case using assms by (cases "mp = 0") (simp_all only: if_True if_False simp_thms)

lemma scan_resultD:
  assumes "scan_result plic thr ns (sg, mi, mp)"
  shows "sg = of_nat (length (filter (\<lambda>n. thr < pl_prio plic ! n) ns))" "\<forall>n \<in> set ns. pl_prio plic ! n \<le> mp"
    "mp = 0 \<Longrightarrow> mi = 0"
    "mp \<noteq> 0 \<Longrightarrow> \<exists>n \<in> set ns. mi = of_nat n \<and> pl_prio plic ! n = mp \<and> (\<forall>k \<in> set ns. k < n \<longrightarrow> pl_prio plic ! k < mp)"
  using assms unfolding scan_result_def prod.case by (cases "mp = 0"; simp only: if_True if_False simp_thms; blast)+

lemma scan_result_step:
  assumes "scan_result plic thr ns (sg, mi, mp)" "n < 64" "\<And>k. k \<in> set ns \<Longrightarrow> k < n"
  shows "scan_result plic thr (ns @ [n]) (plic_scan_irq plic thr (of_nat n) (sg, mi, mp))"
proof -
  let ?p = "pl_prio plic ! n" and ?sg = "if thr < pl_prio plic ! n then sg + 1 else sg"
  have n: "unat (of_nat n :: u32) = n" using assms(2) by (simp add: unat_of_nat)
  note r = scan_resultD [OF assms(1)]
  have sg: "?sg = of_nat (length (filter (\<lambda>n. thr < pl_prio plic ! n) (ns @ [n])))" using r(1) by simp
  show ?thesis
  proof (cases "mp < ?p")
    case True
    then have e: "plic_scan_irq plic thr (of_nat n) (sg, mi, mp) = (?sg, of_nat n, ?p)" by (simp add: plic_scan_irq_def n)
    have lt: "\<forall>k \<in> set ns. pl_prio plic ! k < ?p" using r(2) True order.strict_trans1 by blast
    have "?p \<noteq> 0" using True by auto
    moreover have "\<exists>m \<in> set (ns @ [n]). of_nat n = (of_nat m :: u32) \<and> pl_prio plic ! m = ?p \<and> (\<forall>k \<in> set (ns @ [n]). k < m \<longrightarrow> pl_prio plic ! k < ?p)"
      using lt by (intro bexI [of _ n]) auto
    moreover have "\<forall>k \<in> set (ns @ [n]). pl_prio plic ! k \<le> ?p" using lt by (auto intro: less_imp_le)
    ultimately show ?thesis unfolding e by (intro scan_resultI sg) simp_all
  next
    case False
    then have e: "plic_scan_irq plic thr (of_nat n) (sg, mi, mp) = (?sg, mi, mp)" by (simp add: plic_scan_irq_def n)
    have "\<exists>m \<in> set (ns @ [n]). mi = of_nat m \<and> pl_prio plic ! m = mp \<and> (\<forall>k \<in> set (ns @ [n]). k < m \<longrightarrow> pl_prio plic ! k < mp)"
      if nz: "mp \<noteq> 0"
    proof -
      obtain m where m: "m \<in> set ns" "mi = of_nat m" "pl_prio plic ! m = mp" "\<forall>k \<in> set ns. k < m \<longrightarrow> pl_prio plic ! k < mp"
        using r(4) [OF nz] by blast
      have "\<not> n < m" using assms(3) [OF m(1)] by simp
      with m show ?thesis by (intro bexI [of _ m]) auto
    qed
    moreover have "\<forall>k \<in> set (ns @ [n]). pl_prio plic ! k \<le> mp" using r(2) False by auto
    ultimately show ?thesis unfolding e by (intro scan_resultI sg r(3))
  qed
qed

lemma scan_result_fold:
  "sorted ns \<Longrightarrow> distinct ns \<Longrightarrow> \<forall>n \<in> set ns. n < 64 \<Longrightarrow>
   scan_result plic thr ns (fold (\<lambda>n. plic_scan_irq plic thr (of_nat n)) ns (0, 0, 0))"
proof (induction ns rule: rev_induct)
  case (snoc n ns)
  obtain sg mi mp where f: "fold (\<lambda>n. plic_scan_irq plic thr (of_nat n)) ns (0, 0, 0) = (sg, mi, mp)" by (rule prod_cases3)
  have r: "scan_result plic thr ns (sg, mi, mp)" using snoc f by (simp add: sorted_append)
  have "k < n" if "k \<in> set ns" for k
  proof -
    have "k \<le> n" "k \<noteq> n" using snoc.prems that by (auto simp: sorted_append)
    then show ?thesis by simp
  qed
  from scan_result_step [OF r _ this] snoc.prems(3) f show ?case by simp
qed (simp add: scan_result_def)

text \<open>The interrupt that a claim takes: the first of those with the highest priority, or none.\<close>

definition plic_best :: "plic_dev \<Rightarrow> nat \<Rightarrow> u32 \<Rightarrow> bool" where
  "plic_best plic ctx irq \<longleftrightarrow>
     (if \<forall>n. plic_claimable plic ctx n \<longrightarrow> pl_prio plic ! n = 0 then irq = 0
      else plic_claimable plic ctx (unat irq) \<and> 0 < pl_prio plic ! unat irq
        \<and> (\<forall>n. plic_claimable plic ctx n \<longrightarrow> pl_prio plic ! n \<le> pl_prio plic ! unat irq)
        \<and> (\<forall>n. plic_claimable plic ctx n \<longrightarrow> n < unat irq \<longrightarrow> pl_prio plic ! n < pl_prio plic ! unat irq))"

definition plic_line :: "nat \<Rightarrow> 'd hart list \<Rightarrow> bool" where
  "plic_line ctx hs = irq_line hs (plic_ctx_hartid ctx) (plic_ctx_prio ctx)"

lemma plic_scan_best:
  assumes "plic_wf (plic, hs)" "ctx < plic_ctx_count hs" "plic_scan plic ctx = (sg, mi, mp)"
  shows "plic_best plic ctx mi" "mp = (if mi = 0 then 0 else pl_prio plic ! unat mi)"
    "sg = of_nat (card {n. plic_deliverable plic ctx n})"
proof -
  let ?ns = "filter (plic_claimable plic ctx) [0..<64]"
  have set: "n \<in> set ?ns \<longleftrightarrow> plic_claimable plic ctx n" for n by (auto simp: plic_claimable_def)
  have "scan_result plic (pl_threshold plic ! ctx) ?ns (sg, mi, mp)"
    unfolding assms(3) [symmetric] plic_scan_fold [OF assms(1,2)]
    by (rule scan_result_fold) (auto simp: sorted_wrt_filter)
  note r = scan_resultD [OF this, unfolded Ball_def Bex_def set]
  have "{n. plic_deliverable plic ctx n} = set (filter (\<lambda>n. pl_threshold plic ! ctx < pl_prio plic ! n) ?ns)"
    by (auto simp: plic_deliverable_def plic_claimable_def)
  then show "sg = of_nat (card {n. plic_deliverable plic ctx n})"
    unfolding r(1) by (simp add: distinct_card del: set_filter)
  have z: "plic_claimable plic ctx n \<Longrightarrow> n < 64 \<and> n \<noteq> 0" for n
    using plic_wfD(7) [OF assms(1)] by (auto simp: plic_claimable_def intro: gr0I)
  show "plic_best plic ctx mi" "mp = (if mi = 0 then 0 else pl_prio plic ! unat mi)"
  proof (atomize (full), cases "mp = 0")
    case True
    with r(2,3) show "plic_best plic ctx mi \<and> mp = (if mi = 0 then 0 else pl_prio plic ! unat mi)" by (simp add: plic_best_def)
  next
    case False
    from r(4) [OF this] obtain n where n: "plic_claimable plic ctx n" "mi = of_nat n" "pl_prio plic ! n = mp"
      "\<forall>k. plic_claimable plic ctx k \<longrightarrow> k < n \<longrightarrow> pl_prio plic ! k < mp" by blast
    have u: "unat mi = n" using z [OF n(1)] n(2) by (simp add: unat_of_nat)
    then have "mi \<noteq> 0" using z [OF n(1)] by auto
    moreover have "plic_best plic ctx mi"
      unfolding plic_best_def u n(3) using n(1,3,4) r(2) False by (auto simp: word_gt_0)
    ultimately show "plic_best plic ctx mi \<and> mp = (if mi = 0 then 0 else pl_prio plic ! unat mi)" using u n(3) by simp
  qed
qed

lemma deliverable_card: "card {n. plic_deliverable plic ctx n} \<le> 64" "finite {n. plic_deliverable plic ctx n}"
proof -
  have s: "{n. plic_deliverable plic ctx n} \<subseteq> {..<64}" by (auto simp: plic_deliverable_def plic_claimable_def)
  then show "finite {n. plic_deliverable plic ctx n}" by (rule finite_subset) simp
  from card_mono [OF _ s] show "card {n. plic_deliverable plic ctx n} \<le> 64" by simp
qed

text \<open>The lines of the contexts are different bits.\<close>

lemma plic_line_raise:
  assumes "ctx < plic_ctx_count hs"
  shows "plic_line c (with_hart (\<lambda>h. riscv_interrupt h (plic_ctx_prio ctx)) (plic_ctx_hartid ctx) hs) \<longleftrightarrow> plic_line c hs \<or> c = ctx"
    "plic_line c (with_hart (\<lambda>h. riscv_interrupt_clear h (plic_ctx_prio ctx)) (plic_ctx_hartid ctx) hs) \<longleftrightarrow> plic_line c hs \<and> c \<noteq> ctx"
proof -
  have "c = ctx \<longleftrightarrow> plic_ctx_hartid c = plic_ctx_hartid ctx \<and> plic_ctx_prio c = plic_ctx_prio ctx"
    unfolding plic_ctx_hartid_def plic_ctx_prio_def by (auto; presburger)
  moreover have "unat (plic_ctx_prio ctx) < 32" "plic_ctx_hartid ctx < length hs"
    using assms by (simp_all add: plic_ctx_prio_def plic_ctx_hartid_def plic_ctx_count_def)
  ultimately show "plic_line c (with_hart (\<lambda>h. riscv_interrupt h (plic_ctx_prio ctx)) (plic_ctx_hartid ctx) hs) \<longleftrightarrow> plic_line c hs \<or> c = ctx"
    "plic_line c (with_hart (\<lambda>h. riscv_interrupt_clear h (plic_ctx_prio ctx)) (plic_ctx_hartid ctx) hs) \<longleftrightarrow> plic_line c hs \<and> c \<noteq> ctx"
    unfolding plic_line_def by (simp_all add: irq_line_raise irq_line_lower)
qed

lemma plic_update_ctx_spec:
  assumes "plic_wf (plic, hs)" "ctx < plic_ctx_count hs" "plic_update_ctx plic ctx claim hs = (irq, hs')"
  shows "plic_best plic ctx irq" "length hs' = length hs"
    "plic_line c hs' \<longleftrightarrow> (if c = ctx then \<exists>n. plic_deliverable plic ctx n \<and> \<not> (claim \<and> n = unat irq) else plic_line c hs)"
proof -
  obtain sg mi mp where sc: "plic_scan plic ctx = (sg, mi, mp)" by (rule prod_cases3)
  note b = plic_scan_best [OF assms(1,2) sc]
  define D where "D = {n. plic_deliverable plic ctx n}"
  let ?sg = "if claim \<and> mp > pl_threshold plic ! ctx then sg - 1 else sg"
  have irq: "irq = mi" "hs' = (if ?sg \<noteq> 0 then with_hart (\<lambda>h. riscv_interrupt h (plic_ctx_prio ctx)) (plic_ctx_hartid ctx)
      (with_hart (\<lambda>h. riscv_interrupt_clear h (plic_ctx_prio ctx)) (plic_ctx_hartid ctx) hs)
    else with_hart (\<lambda>h. riscv_interrupt_clear h (plic_ctx_prio ctx)) (plic_ctx_hartid ctx) hs)"
    using assms(3) sc by (auto simp: plic_update_ctx_def Let_def)
  show "plic_best plic ctx irq" using b(1) irq(1) by simp
  show "length hs' = length hs" using irq(2) by simp
  have d: "finite D" "card D \<le> 64" unfolding D_def by (rule deliverable_card)+
  have top: "unat mi \<in> D \<longleftrightarrow> pl_threshold plic ! ctx < mp" and all: "n \<in> D \<Longrightarrow> pl_threshold plic ! ctx < mp" for n
    using b(1,2) plic_wfD(7) [OF assms(1)]
    by (auto simp: plic_best_def D_def plic_deliverable_def plic_claimable_def split: if_splits dest: order.strict_trans2)
  have "?sg = of_nat (card (if claim then D - {unat mi} else D))"
  proof (cases "claim \<and> mp > pl_threshold plic ! ctx")
    case True
    then have "unat mi \<in> D" using top by simp
    then have "card D = Suc (card (D - {unat mi}))" by (metis d(1) card.remove)
    with True b(3) D_def show ?thesis by simp
  next
    case False
    then have "claim \<Longrightarrow> D - {unat mi} = D" using top by auto
    with False b(3) D_def show ?thesis by auto
  qed
  moreover have "card (if claim then D - {unat mi} else D) \<le> 64"
    using d card_mono [of D "D - {unat mi}"] by auto
  moreover have "(of_nat c :: u32) = 0 \<longleftrightarrow> c = 0" if "c \<le> 64" for c using that by (simp add: word_unat_eq_iff unat_of_nat)
  ultimately have "?sg \<noteq> 0 \<longleftrightarrow> card (if claim then D - {unat mi} else D) \<noteq> 0" by presburger
  also have "\<dots> \<longleftrightarrow> (\<exists>n. plic_deliverable plic ctx n \<and> \<not> (claim \<and> n = unat irq))"
    using d(1) by (auto simp: D_def irq(1))
  finally show "plic_line c hs' \<longleftrightarrow> (if c = ctx then \<exists>n. plic_deliverable plic ctx n \<and> \<not> (claim \<and> n = unat irq) else plic_line c hs)"
    unfolding irq(2) using assms(2) by (simp add: plic_line_raise plic_ctx_count_def)
qed

section \<open>Claims\<close>

lemma irq_set_cases:
  assumes "length bs = 2" "irq < 64" "m < 64"
  shows "src_bit (bs[irq_reg irq := bs ! irq_reg irq OR bit_set32 irq]) m \<longleftrightarrow> src_bit bs m \<or> m = unat irq"
    "src_bit (bs[irq_reg irq := bs ! irq_reg irq AND NOT (bit_set32 irq)]) m \<longleftrightarrow> src_bit bs m \<and> m \<noteq> unat irq"
    "bs ! irq_reg irq AND bit_set32 irq = 0 \<longleftrightarrow> \<not> src_bit bs (unat irq)"
    "bit_check32 (bs ! irq_reg irq) irq \<longleftrightarrow> src_bit bs (unat irq)"
    "bs ! irq_reg irq AND bit_set32 irq = (if src_bit bs (unat irq) then bit_set32 irq else 0)"
proof -
  have n: "unat irq < 64" using assms(2) by (simp add: word_less_nat_alt)
  have i: "irq_reg irq = unat irq div 32" "bit_set32 irq = shl 1 (unat irq mod 32)" "bit_check32 w irq \<longleftrightarrow> bit w (unat irq mod 32)" for w
    using irq_index [OF n] by simp_all
  show "src_bit (bs[irq_reg irq := bs ! irq_reg irq OR bit_set32 irq]) m \<longleftrightarrow> src_bit bs m \<or> m = unat irq"
    "src_bit (bs[irq_reg irq := bs ! irq_reg irq AND NOT (bit_set32 irq)]) m \<longleftrightarrow> src_bit bs m \<and> m \<noteq> unat irq"
    unfolding i by (rule src_bit_set [OF n assms(1,3)])+
  show "bit_check32 (bs ! irq_reg irq) irq \<longleftrightarrow> src_bit bs (unat irq)" unfolding i src_bit_def ..
  have e: "bs ! irq_reg irq AND bit_set32 irq = (if bit (bs ! (unat irq div 32)) (unat irq mod 32) then shl 1 (unat irq mod 32) else 0)"
    unfolding i by (rule bit_word_eqI) (auto simp: bit_simps)
  then show "bs ! irq_reg irq AND bit_set32 irq = (if src_bit bs (unat irq) then bit_set32 irq else 0)"
    unfolding i src_bit_def .
  have "bit (shl 1 (unat irq mod 32) :: u32) (unat irq mod 32)" by (simp add: bit_simps)
  then have "shl 1 (unat irq mod 32) \<noteq> (0 :: u32)" by (metis bit_0_eq bot_apply bot_bool_def)
  with e show "bs ! irq_reg irq AND bit_set32 irq = 0 \<longleftrightarrow> \<not> src_bit bs (unat irq)" by (simp add: src_bit_def)
qed

lemma update_ctx_length: "plic_update_ctx plic ctx claim hs = (irq, hs') \<Longrightarrow> length hs' = length hs"
  by (auto simp: plic_update_ctx_def Let_def case_prod_beta split: if_splits)

lemma plic_wf_harts: "plic_wf (plic, hs) \<Longrightarrow> length hs' = length hs \<Longrightarrow> plic_wf (plic, hs')"
  by (simp add: plic_wf_def plic_ctx_count_def)

text \<open>Without another thread the claim loop ends in its first round.\<close>

lemma plic_claim_once:
  assumes "plic_wf (plic, hs)" "ctx < plic_ctx_count hs" "plic_update_ctx plic ctx True hs = (irq, hs')"
  shows "plic_claim_irq ctx (plic, hs) =
    Some (irq, if irq = 0 then plic
      else plic\<lparr>pl_pending := (pl_pending plic)[irq_reg irq := pl_pending plic ! irq_reg irq AND NOT (bit_set32 irq)]\<rparr>, hs')"
proof -
  have "pl_pending plic ! irq_reg irq AND bit_set32 irq \<noteq> 0" if "irq \<noteq> 0"
  proof -
    have "plic_claimable plic ctx (unat irq)"
      using plic_update_ctx_spec(1) [OF assms] that by (auto simp: plic_best_def split: if_splits)
    then have "irq < 64" "src_bit (pl_pending plic) (unat irq)" by (simp_all add: plic_claimable_def word_less_nat_alt)
    then show ?thesis using irq_set_cases(3) [of "pl_pending plic" irq 0] plic_wfD(2) [OF assms(1)] by simp
  qed
  then show ?thesis using assms(2,3) by (simp add: plic_claim_irq_def plic_claim_loop.simps [of ctx] Let_def)
qed

section \<open>Notified contexts\<close>

text \<open>
  The controller notifies one context of an interrupt, the first that can take it.  No interrupt is
  lost as long as every interrupt that some context is to be notified of raises the line of one of
  these contexts.
\<close>

definition plic_notified :: "'d plic_state \<Rightarrow> bool" where
  "plic_notified s \<longleftrightarrow> (let (plic, hs) = s in
     \<forall>n. (\<exists>ctx < plic_ctx_count hs. plic_deliverable plic ctx n) \<longrightarrow>
         (\<exists>ctx < plic_ctx_count hs. plic_deliverable plic ctx n \<and> plic_line ctx hs))"

lemma plic_notifiedI:
  "(\<And>ctx n. \<lbrakk>ctx < plic_ctx_count hs; plic_deliverable plic ctx n\<rbrakk> \<Longrightarrow>
      \<exists>c < plic_ctx_count hs. plic_deliverable plic c n \<and> plic_line c hs) \<Longrightarrow> plic_notified (plic, hs)"
  by (auto simp: plic_notified_def)

lemma plic_notifiedD:
  "\<lbrakk>plic_notified (plic, hs); ctx < plic_ctx_count hs; plic_deliverable plic ctx n\<rbrakk> \<Longrightarrow>
     \<exists>c < plic_ctx_count hs. plic_deliverable plic c n \<and> plic_line c hs"
  by (auto simp: plic_notified_def)

lemma full_update_lines:
  assumes "plic_wf (plic, hs)" "n \<le> plic_ctx_count hs"
  shows "length (fold (\<lambda>ctx hs. snd (plic_update_ctx plic ctx False hs)) [0..<n] hs) = length hs"
    "c < n \<Longrightarrow> plic_line c (fold (\<lambda>ctx hs. snd (plic_update_ctx plic ctx False hs)) [0..<n] hs) \<longleftrightarrow> (\<exists>k. plic_deliverable plic c k)"
  using assms(2)
proof (induction n)
  case (Suc n)
  let ?hs = "fold (\<lambda>ctx hs. snd (plic_update_ctx plic ctx False hs)) [0..<n] hs"
  { case 1 then show ?case using Suc(1) by (simp add: update_ctx_length [OF prod.collapse [symmetric]]) }
  { case 2
    have l: "length ?hs = length hs" using Suc(1) 2 by simp
    have w: "plic_wf (plic, ?hs)" "n < plic_ctx_count ?hs" using plic_wf_harts [OF assms(1) l] l 2(2) by (simp_all add: plic_ctx_count_def)
    from plic_update_ctx_spec(3) [OF w prod.collapse [symmetric], of c False] 2 Suc(2) show ?case by (auto simp: less_Suc_eq) }
qed simp_all

lemma full_update_notified:
  assumes "plic_wf (plic, hs)"
  shows "plic_notified (plic, plic_full_update plic hs)" "length (plic_full_update plic hs) = length hs"
proof -
  note f = full_update_lines [OF assms order_refl, folded plic_full_update_def]
  show "length (plic_full_update plic hs) = length hs" by (rule f(1))
  then show "plic_notified (plic, plic_full_update plic hs)"
    using f(2) by (intro plic_notifiedI) (auto simp: plic_ctx_count_def)
qed

lemma notify_ctx_spec:
  assumes "plic_wf (plic, hs)" "ctx < plic_ctx_count hs" "irq < 64" "plic_notify_ctx_irq plic ctx irq hs = (ok, hs')"
  shows "ok \<longleftrightarrow> src_bit (pl_enable plic ! ctx) (unat irq) \<and> pl_threshold plic ! ctx < pl_prio plic ! unat irq"
    "length hs' = length hs" "plic_line c hs' \<longleftrightarrow> plic_line c hs \<or> ok \<and> c = ctx"
proof -
  have e: "plic_irq_enabled plic ctx irq \<longleftrightarrow> src_bit (pl_enable plic ! ctx) (unat irq)"
    unfolding plic_irq_enabled_def by (rule irq_set_cases(4) [OF plic_wfD(6) [OF assms(1,2)] assms(3), of 0]) simp
  show "ok \<longleftrightarrow> src_bit (pl_enable plic ! ctx) (unat irq) \<and> pl_threshold plic ! ctx < pl_prio plic ! unat irq"
    "length hs' = length hs" "plic_line c hs' \<longleftrightarrow> plic_line c hs \<or> ok \<and> c = ctx"
    using assms(4) by (auto simp: plic_notify_ctx_irq_def e plic_line_raise [OF assms(2)] not_le split: if_splits)
qed

lemma notify_first_spec:
  assumes "irq < 64"
  shows "plic_wf (plic, hs) \<Longrightarrow> \<forall>c \<in> set ctxs. c < plic_ctx_count hs \<Longrightarrow>
    length (notify_first plic irq ctxs hs) = length hs
    \<and> (\<forall>c. plic_line c hs \<longrightarrow> plic_line c (notify_first plic irq ctxs hs))
    \<and> ((\<exists>c \<in> set ctxs. src_bit (pl_enable plic ! c) (unat irq) \<and> pl_threshold plic ! c < pl_prio plic ! unat irq) \<longrightarrow>
       (\<exists>c \<in> set ctxs. src_bit (pl_enable plic ! c) (unat irq) \<and> pl_threshold plic ! c < pl_prio plic ! unat irq
          \<and> plic_line c (notify_first plic irq ctxs hs)))"
proof (induction ctxs arbitrary: hs)
  case (Cons ctx ctxs)
  obtain ok hs' where n: "plic_notify_ctx_irq plic ctx irq hs = (ok, hs')" by fastforce
  have "ctx < plic_ctx_count hs" using Cons.prems by simp
  note s = notify_ctx_spec [OF Cons.prems(1) this assms n]
  show ?case
  proof (cases ok)
    case True
    with s n show ?thesis by auto
  next
    case False
    have "plic_wf (plic, hs')" "\<forall>c \<in> set ctxs. c < plic_ctx_count hs'"
      using Cons.prems(2) s(2) plic_wf_harts [OF Cons.prems(1) s(2)] by (simp_all add: plic_ctx_count_def)
    from Cons.IH [OF this] False s n show ?thesis by auto
  qed
qed simp

lemma notify_irq_spec:
  assumes "plic_wf (plic, hs)" "irq < 64"
  shows "length (plic_notify_irq plic irq hs) = length hs" "plic_line c hs \<Longrightarrow> plic_line c (plic_notify_irq plic irq hs)"
    "\<lbrakk>ctx < plic_ctx_count hs; plic_deliverable plic ctx (unat irq)\<rbrakk> \<Longrightarrow>
      \<exists>c < plic_ctx_count hs. plic_deliverable plic c (unat irq) \<and> plic_line c (plic_notify_irq plic irq hs)"
  using notify_first_spec [OF assms(2,1), of "[0..<plic_ctx_count hs]"]
  unfolding plic_notify_irq_def plic_deliverable_def plic_claimable_def by auto

lemma notified_frame:
  assumes "plic_notified (plic, hs)" "length hs' = length hs" "\<And>c. plic_line c hs \<Longrightarrow> plic_line c hs'"
    and "\<And>n. (\<forall>c < plic_ctx_count hs. plic_deliverable plic' c n \<longleftrightarrow> plic_deliverable plic c n)
      \<or> (\<forall>c < plic_ctx_count hs. plic_deliverable plic' c n \<longrightarrow> (\<exists>c' < plic_ctx_count hs. plic_deliverable plic' c' n \<and> plic_line c' hs'))"
  shows "plic_notified (plic', hs')"
proof (rule plic_notifiedI)
  fix ctx n assume c: "ctx < plic_ctx_count hs'" and d: "plic_deliverable plic' ctx n"
  have l: "plic_ctx_count hs' = plic_ctx_count hs" using assms(2) by (simp add: plic_ctx_count_def)
  show "\<exists>c < plic_ctx_count hs'. plic_deliverable plic' c n \<and> plic_line c hs'"
    using assms(4) [of n]
  proof
    assume e: "\<forall>c < plic_ctx_count hs. plic_deliverable plic' c n \<longleftrightarrow> plic_deliverable plic c n"
    then obtain c' where "c' < plic_ctx_count hs" "plic_deliverable plic c' n" "plic_line c' hs"
      using plic_notifiedD [OF assms(1)] c d l by metis
    with e assms(3) l show ?thesis by auto
  qed (use c d l in auto)
qed

lemmas plic_sets = plic_deliverable_def plic_claimable_def

lemma set_irq_prio_notified:
  assumes w: "plic_wf (plic, hs)" and n: "plic_notified (plic, hs)"
  shows "plic_wf (plic_set_irq_prio irq prio (plic, hs)) \<and> plic_notified (plic_set_irq_prio irq prio (plic, hs))"
proof (cases "irq \<noteq> 0 \<and> irq < 64")
  case True
  let ?plic = "plic\<lparr>pl_prio := (pl_prio plic)[unat irq := prio]\<rparr>"
  have w': "plic_wf (?plic, hs)" using w by (simp add: plic_wf_def)
  have p: "plic_irq_pending ?plic irq \<longleftrightarrow> src_bit (pl_pending plic) (unat irq)"
    unfolding plic_irq_pending_def using irq_set_cases(4) [of "pl_pending plic" irq 0] plic_wfD(2) [OF w] True by simp
  have same: "plic_deliverable ?plic c k \<longleftrightarrow> plic_deliverable plic c k" if "k \<noteq> unat irq \<or> \<not> src_bit (pl_pending plic) (unat irq)" for c k
    using that by (cases "k = unat irq") (auto simp: plic_sets)
  have idle: "plic_notified (?plic, hs)" if "\<not> src_bit (pl_pending plic) (unat irq)"
    by (rule notified_frame [OF n]) (use same that in auto)
  have eq: "plic_notified (?plic, hs)" if "prio = pl_prio plic ! unat irq"
  proof -
    have "?plic = plic" using that by simp
    with n show ?thesis by metis
  qed
  have raise: "plic_notified (?plic, plic_notify_irq ?plic irq hs)"
  proof (rule notified_frame [OF n])
    fix k
    show "(\<forall>c < plic_ctx_count hs. plic_deliverable ?plic c k \<longleftrightarrow> plic_deliverable plic c k)
      \<or> (\<forall>c < plic_ctx_count hs. plic_deliverable ?plic c k \<longrightarrow>
          (\<exists>c' < plic_ctx_count hs. plic_deliverable ?plic c' k \<and> plic_line c' (plic_notify_irq ?plic irq hs)))"
      using same [of k] notify_irq_spec(3) [OF w', of irq] True by (cases "k = unat irq") auto
  qed (use notify_irq_spec [OF w', of irq] True in auto)
  have len: "length (plic_notify_irq ?plic irq hs) = length hs" using notify_irq_spec(1) [OF w'] True by simp
  note full = full_update_notified [OF w']
  show ?thesis
    using True idle eq raise full plic_wf_harts [OF w' full(2)] plic_wf_harts [OF w' len] w'
    by (auto simp: plic_set_irq_prio_def p Let_def not_less)
qed (use assms in \<open>auto simp: plic_set_irq_prio_def\<close>)

lemma notify_all_spec:
  assumes "plic_wf (plic, hs)" "\<forall>n \<in> set ns. n < 64"
  shows "length (fold (\<lambda>n. plic_notify_irq plic (of_nat n)) ns hs) = length hs
    \<and> (\<forall>c. plic_line c hs \<longrightarrow> plic_line c (fold (\<lambda>n. plic_notify_irq plic (of_nat n)) ns hs))
    \<and> (\<forall>n \<in> set ns. (\<exists>c < plic_ctx_count hs. plic_deliverable plic c n) \<longrightarrow>
         (\<exists>c < plic_ctx_count hs. plic_deliverable plic c n \<and> plic_line c (fold (\<lambda>n. plic_notify_irq plic (of_nat n)) ns hs)))"
  using assms
proof (induction ns arbitrary: hs)
  case (Cons n ns)
  let ?hs = "plic_notify_irq plic (of_nat n) hs"
  have i: "(of_nat n :: u32) < 64" "unat (of_nat n :: u32) = n" using Cons.prems(2) by (auto simp: word_less_nat_alt unat_of_nat)
  note s = notify_irq_spec [OF Cons.prems(1) i(1), unfolded i(2)]
  have l: "plic_ctx_count ?hs = plic_ctx_count hs" using s(1) by (simp add: plic_ctx_count_def)
  have "plic_wf (plic, ?hs)" by (rule plic_wf_harts [OF Cons.prems(1) s(1)])
  from Cons.IH [OF this] Cons.prems(2) s l show ?case by (auto; metis)
qed simp

text \<open>Enabling and disabling interrupts in one write can lose those that are enabled.\<close>

definition enable_safe :: "nat \<Rightarrow> nat \<Rightarrow> u32 \<Rightarrow> 'd plic_state \<Rightarrow> bool" where
  "enable_safe ctx reg enable s \<longleftrightarrow> (let (plic, hs) = s; old = pl_enable plic ! ctx ! reg; pending = pl_pending plic ! reg in
     ctx < plic_ctx_count hs \<and> reg < PLIC_SRC_REGS \<and> old AND NOT enable \<noteq> 0 \<and> enable AND NOT old AND pending \<noteq> 0
     \<longrightarrow> old AND NOT enable AND pending \<noteq> 0)"

lemma and_zero_bits: "x AND y = 0 \<longleftrightarrow> (\<forall>i. bit x i \<longrightarrow> \<not> bit (y :: u32) i)"
  using bit_imp_le_length [of x] by (auto simp: bit_eq_iff bit_simps)

lemma set_enable_bits_notified:
  assumes w: "plic_wf (plic, hs)" and n: "plic_notified (plic, hs)" and safe: "enable_safe ctx reg enable (plic, hs)"
  shows "plic_wf (plic_set_enable_bits ctx reg enable (plic, hs)) \<and> plic_notified (plic_set_enable_bits ctx reg enable (plic, hs))"
proof (cases "ctx < plic_ctx_count hs \<and> reg < 2")
  case True
  let ?plic = "plic\<lparr>pl_enable := (pl_enable plic)[ctx := (pl_enable plic ! ctx)[reg := enable]]\<rparr>"
  let ?old = "pl_enable plic ! ctx ! reg" and ?pending = "pl_pending plic ! reg"
  note l = plic_wfD [OF w]
  have w': "plic_wf (?plic, hs)" using w True l(6) [of ctx] by (auto simp: plic_wf_def dest: set_update_subset_insert [THEN subsetD])
  have eb: "src_bit (pl_enable ?plic ! c) k \<longleftrightarrow> (if c = ctx \<and> k div 32 = reg then bit enable (k mod 32) else src_bit (pl_enable plic ! c) k)" for c k
    using True l(4) l(6) [of ctx] by (auto simp: src_bit_def nth_list_update)
  have bits: "bit enable (k mod 32) \<longleftrightarrow> bit ?old (k mod 32)"
    if "enable AND NOT ?old AND ?pending = 0" "?old AND NOT enable AND ?pending = 0" "src_bit (pl_pending plic) k" "k div 32 = reg" for k
    using that by (auto simp: and_zero_bits bit_simps src_bit_def)
  have quiet: "plic_notified (?plic, hs)" if "enable AND NOT ?old AND ?pending = 0" "?old AND NOT enable AND ?pending = 0"
    by (rule notified_frame [OF n]) (use bits [OF that] eb in \<open>auto simp: plic_sets src_bit_def\<close>)
  have bit_eq: "?old = enable" if "?old AND NOT enable = 0" "enable AND NOT ?old = 0"
    by (rule bit_word_eqI) (use that in \<open>auto simp: and_zero_bits bit_simps\<close>)
  define ns where "ns = map (\<lambda>b. 32 * reg + b) (set_bits32 (?pending AND enable))"
  have "plic_update_ctx_irq_reg ?plic ctx reg hs = fold (\<lambda>n. plic_notify_irq ?plic (of_nat n)) ns hs"
    using True l(4) l(6) [of ctx] unfolding plic_update_ctx_irq_reg_def Let_def foreach_bit_fold ns_def fold_map
    by (intro fold_cong) (auto simp: set_bits32_def irq_of_reg)
  moreover have ns: "\<forall>k \<in> set ns. k < 64" "k \<in> set ns \<longleftrightarrow> k < 64 \<and> k div 32 = reg \<and> src_bit (pl_pending plic) k \<and> bit enable (k mod 32)" for k
    using True by (auto simp: ns_def set_bits32_def bit_simps src_bit_def image_iff intro!: exI [of _ "k mod 32"])
  moreover note a = notify_all_spec [OF w' ns(1)]
  ultimately have u: "length (plic_update_ctx_irq_reg ?plic ctx reg hs) = length hs" "\<And>c. plic_line c hs \<Longrightarrow> plic_line c (plic_update_ctx_irq_reg ?plic ctx reg hs)"
    "\<And>k c. \<lbrakk>k \<in> set ns; c < plic_ctx_count hs; plic_deliverable ?plic c k\<rbrakk> \<Longrightarrow>
      \<exists>c < plic_ctx_count hs. plic_deliverable ?plic c k \<and> plic_line c (plic_update_ctx_irq_reg ?plic ctx reg hs)" by auto
  have more: "plic_notified (?plic, plic_update_ctx_irq_reg ?plic ctx reg hs)" if "?old AND NOT enable = 0"
  proof (rule notified_frame [OF n u(1) u(2)])
    fix k
    show "(\<forall>c < plic_ctx_count hs. plic_deliverable ?plic c k \<longleftrightarrow> plic_deliverable plic c k)
      \<or> (\<forall>c < plic_ctx_count hs. plic_deliverable ?plic c k \<longrightarrow>
          (\<exists>c' < plic_ctx_count hs. plic_deliverable ?plic c' k \<and> plic_line c' (plic_update_ctx_irq_reg ?plic ctx reg hs)))"
    proof (cases "k \<in> set ns")
      case False
      then have "plic_deliverable ?plic c k \<longleftrightarrow> plic_deliverable plic c k" for c
        using that eb [of c k] by (auto simp: plic_sets ns(2) and_zero_bits bit_simps src_bit_def)
      then show ?thesis by simp
    qed (use u(3) in blast)
  qed
  note full = full_update_notified [OF w']
  have wfs: "plic_wf (?plic, plic_full_update ?plic hs)" "plic_wf (?plic, plic_update_ctx_irq_reg ?plic ctx reg hs)"
    by (rule plic_wf_harts [OF w' full(2)], rule plic_wf_harts [OF w' u(1)])
  have same: "plic_notified (?plic, hs)" if "?old = enable"
    by (rule quiet) (auto simp: that and_zero_bits bit_simps)
  show ?thesis
    using True safe full(1) wfs more quiet same w' bit_eq
    by (auto simp: plic_set_enable_bits_def enable_safe_def Let_def and.assoc)
qed (use assms in \<open>auto simp: plic_set_enable_bits_def\<close>)

text \<open>Raising the threshold of one context leaves an interrupt to contexts that were not notified.\<close>

definition threshold_safe :: "nat \<Rightarrow> u32 \<Rightarrow> 'd plic_state \<Rightarrow> bool" where
  "threshold_safe ctx threshold s \<longleftrightarrow> (let (plic, hs) = s in ctx < plic_ctx_count hs \<longrightarrow> threshold \<le> pl_threshold plic ! ctx)"

lemma update_ctx_notified:
  assumes w: "plic_wf (plic', hs)" and n: "plic_notified (plic, hs)" and c: "ctx < plic_ctx_count hs"
    and mono: "\<And>c k. \<lbrakk>c < plic_ctx_count hs; plic_deliverable plic c k\<rbrakk> \<Longrightarrow> plic_deliverable plic' c k"
    and same: "\<And>c k. \<lbrakk>c < plic_ctx_count hs; c \<noteq> ctx; plic_deliverable plic' c k\<rbrakk> \<Longrightarrow> plic_deliverable plic c k"
  shows "plic_notified (plic', snd (plic_update_ctx plic' ctx False hs))"
proof -
  obtain irq hs' where u: "plic_update_ctx plic' ctx False hs = (irq, hs')" by fastforce
  note s = plic_update_ctx_spec [OF w c u]
  have l: "plic_ctx_count hs' = plic_ctx_count hs" using s(2) by (simp add: plic_ctx_count_def)
  have "plic_notified (plic', hs')"
  proof (rule plic_notifiedI)
    fix c' k assume d: "c' < plic_ctx_count hs'" "plic_deliverable plic' c' k"
    show "\<exists>c < plic_ctx_count hs'. plic_deliverable plic' c k \<and> plic_line c hs'"
    proof (cases "c' = ctx")
      case True
      with d s(3) [of ctx] c l show ?thesis by auto
    next
      case False
      with d l same have "plic_deliverable plic c' k" by simp
      from plic_notifiedD [OF n _ this] d(1) l obtain c2 where c2: "c2 < plic_ctx_count hs" "plic_deliverable plic c2 k" "plic_line c2 hs" by auto
      have "plic_deliverable plic' c2 k" by (rule mono [OF c2(1,2)])
      moreover from this have "plic_line c2 hs'" using s(3) [of c2] c2(3) by auto
      ultimately show ?thesis using c2(1) l by auto
    qed
  qed
  with u show ?thesis by simp
qed

lemma set_ctx_threshold_notified:
  assumes w: "plic_wf (plic, hs)" and n: "plic_notified (plic, hs)" and safe: "threshold_safe ctx thr (plic, hs)"
  shows "plic_wf (plic_set_ctx_threshold ctx thr (plic, hs)) \<and> plic_notified (plic_set_ctx_threshold ctx thr (plic, hs))"
proof (cases "ctx < plic_ctx_count hs")
  case True
  let ?plic = "plic\<lparr>pl_threshold := (pl_threshold plic)[ctx := thr]\<rparr>"
  have w': "plic_wf (?plic, hs)" using w by (simp add: plic_wf_def)
  have "thr \<le> pl_threshold plic ! ctx" using safe True by (simp add: threshold_safe_def)
  then have d: "plic_deliverable plic c k \<Longrightarrow> plic_deliverable ?plic c k" for c k
    using True plic_wfD(5) [OF w] by (cases "c = ctx") (auto simp: plic_sets)
  have "plic_notified (?plic, snd (plic_update_ctx ?plic ctx False hs))"
    by (rule update_ctx_notified [OF w' n True d]) (auto simp: plic_sets)
  moreover have "plic_wf (?plic, snd (plic_update_ctx ?plic ctx False hs))"
    by (rule plic_wf_harts [OF w' update_ctx_length [OF prod.collapse [symmetric]]])
  moreover have "(pl_threshold plic)[ctx := pl_threshold plic ! ctx] = pl_threshold plic" by simp
  ultimately show ?thesis using True w n by (auto simp: plic_set_ctx_threshold_def Let_def)
qed (use assms in \<open>simp add: plic_set_ctx_threshold_def\<close>)

lemma claim_notified:
  assumes w: "plic_wf (plic, hs)" and n: "plic_notified (plic, hs)" and r: "plic_claim_irq ctx (plic, hs) = Some (irq, s')"
  shows "plic_wf s' \<and> plic_notified s'"
proof (cases "ctx < plic_ctx_count hs")
  case True
  obtain i hs' where u: "plic_update_ctx plic ctx True hs = (i, hs')" by fastforce
  note s = plic_update_ctx_spec [OF w True u]
  define plic' where "plic' = (if i = 0 then plic
      else plic\<lparr>pl_pending := (pl_pending plic)[irq_reg i := pl_pending plic ! irq_reg i AND NOT (bit_set32 i)]\<rparr>)"
  have s': "irq = i" "s' = (plic', hs')" using plic_claim_once [OF w True u] r by (simp_all add: plic'_def)
  have i: "i \<noteq> 0 \<Longrightarrow> i < 64" using s(1) by (auto simp: plic_best_def plic_claimable_def word_less_nat_alt split: if_splits)
  have d: "plic_deliverable plic' c k \<longleftrightarrow> plic_deliverable plic c k \<and> k \<noteq> unat i" for c k
    using irq_set_cases(2) [of "pl_pending plic" i k] i plic_wfD(2,7) [OF w] by (auto simp: plic'_def plic_sets)
  have z: "\<not> src_bit (pl_pending plic') 0"
    using irq_set_cases(2) [of "pl_pending plic" i 0] i plic_wfD(2,7) [OF w] by (auto simp: plic'_def)
  have "plic_wf (plic', hs)" using w z by (auto simp: plic_wf_def plic'_def)
  then have "plic_wf (plic', hs')" by (rule plic_wf_harts) (rule s(2))
  moreover have "plic_notified (plic', hs')"
  proof (rule plic_notifiedI)
    fix c k assume c: "c < plic_ctx_count hs'" "plic_deliverable plic' c k"
    have l: "plic_ctx_count hs' = plic_ctx_count hs" using s(2) by (simp add: plic_ctx_count_def)
    from plic_notifiedD [OF n, of c k] c d l obtain c2 where c2: "c2 < plic_ctx_count hs" "plic_deliverable plic c2 k" "plic_line c2 hs" by auto
    have "plic_deliverable plic' c2 k" using c(2) c2(2) d by simp
    moreover from this have "plic_line c2 hs'" using s(3) [of c2] c2(3) d by auto
    ultimately show "\<exists>c < plic_ctx_count hs'. plic_deliverable plic' c k \<and> plic_line c hs'" using c2(1) l by auto
  qed
  ultimately show ?thesis by (simp add: s'(2))
qed (use assms in \<open>simp add: plic_claim_irq_def\<close>)

text \<open>A completion notifies the completing context only, even if it cannot take the interrupt.\<close>

definition complete_safe :: "nat \<Rightarrow> u32 \<Rightarrow> 'd plic_state \<Rightarrow> bool" where
  "complete_safe ctx irq s \<longleftrightarrow> (let (plic, hs) = s in
     ctx < plic_ctx_count hs \<and> irq < of_nat PLIC_SRC_LIMIT \<and> bit_check32 (pl_raised plic ! irq_reg irq) irq \<longrightarrow>
     plic_irq_pending plic irq \<or> plic_irq_enabled plic ctx irq \<and> pl_threshold plic ! ctx < pl_prio plic ! unat irq)"

lemma set_pending:
  fixes plic :: plic_dev
  assumes w: "plic_wf (plic, hs)" and i: "irq < 64" "irq \<noteq> 0"
  defines "plic' \<equiv> plic\<lparr>pl_pending := (pl_pending plic)[irq_reg irq := pl_pending plic ! irq_reg irq OR bit_set32 irq]\<rparr>"
  shows "plic_wf (plic', hs)" "k \<noteq> unat irq \<Longrightarrow> plic_deliverable plic' c k \<longleftrightarrow> plic_deliverable plic c k"
    "plic_deliverable plic' c (unat irq) \<longleftrightarrow> src_bit (pl_enable plic ! c) (unat irq) \<and> pl_threshold plic ! c < pl_prio plic ! unat irq"
    "src_bit (pl_pending plic) (unat irq) \<Longrightarrow> plic_deliverable plic' c k \<longleftrightarrow> plic_deliverable plic c k"
proof -
  have n: "unat irq < 64" "unat irq \<noteq> 0" using i by (simp_all add: word_less_nat_alt unat_eq_0)
  note b = irq_set_cases(1) [OF plic_wfD(2) [OF w] i(1)]
  have "src_bit (pl_pending plic') 0 = src_bit (pl_pending plic) 0" using b [of 0] n by (simp add: plic'_def)
  then show "plic_wf (plic', hs)" using w by (simp add: plic_wf_def plic'_def)
  have p: "k < 64 \<Longrightarrow> src_bit (pl_pending plic') k \<longleftrightarrow> src_bit (pl_pending plic) k \<or> k = unat irq" for k using b [of k] by (simp add: plic'_def)
  show "k \<noteq> unat irq \<Longrightarrow> plic_deliverable plic' c k \<longleftrightarrow> plic_deliverable plic c k"
    "plic_deliverable plic' c (unat irq) \<longleftrightarrow> src_bit (pl_enable plic ! c) (unat irq) \<and> pl_threshold plic ! c < pl_prio plic ! unat irq"
    "src_bit (pl_pending plic) (unat irq) \<Longrightarrow> plic_deliverable plic' c k \<longleftrightarrow> plic_deliverable plic c k"
    using p [of k] p [of "unat irq"] n by (auto simp: plic_sets) (auto simp: plic'_def)
qed

lemma complete_irq_notified:
  assumes w: "plic_wf (plic, hs)" and n: "plic_notified (plic, hs)" and safe: "complete_safe ctx irq (plic, hs)"
  shows "plic_wf (plic_complete_irq ctx irq (plic, hs)) \<and> plic_notified (plic_complete_irq ctx irq (plic, hs))"
proof (cases "ctx < plic_ctx_count hs \<and> irq < 64 \<and> src_bit (pl_raised plic) (unat irq)")
  case True
  let ?plic = "plic\<lparr>pl_pending := (pl_pending plic)[irq_reg irq := pl_pending plic ! irq_reg irq OR bit_set32 irq]\<rparr>"
  have c: "ctx < plic_ctx_count hs" and i: "irq < 64" "irq \<noteq> 0" using True plic_wfD(8) [OF w] by (auto intro: ccontr)
  have set: "pl_raised plic ! irq_reg irq AND bit_set32 irq = bit_set32 irq" "bit_set32 irq \<noteq> 0" "bit_check32 (pl_raised plic ! irq_reg irq) irq"
    "plic_irq_pending plic irq \<longleftrightarrow> src_bit (pl_pending plic) (unat irq)" "plic_irq_enabled plic ctx irq \<longleftrightarrow> src_bit (pl_enable plic ! ctx) (unat irq)"
    using True irq_set_cases(3-5) [of "pl_raised plic" irq 0] irq_set_cases(4) [of "pl_pending plic" irq 0] irq_set_cases(4) [of "pl_enable plic ! ctx" irq 0]
      plic_wfD [OF w] by (auto simp: plic_irq_pending_def plic_irq_enabled_def)
  note p = set_pending [OF w i]
  obtain ok hs' where m: "plic_notify_ctx_irq ?plic ctx irq hs = (ok, hs')" by fastforce
  note s = notify_ctx_spec [OF p(1) c i(1) m]
  have "plic_notified (?plic, hs')"
  proof (rule notified_frame [OF n s(2)])
    fix k
    have "src_bit (pl_pending plic) (unat irq) \<or> ok" using safe c i set s(1) by (auto simp: complete_safe_def)
    then show "(\<forall>c < plic_ctx_count hs. plic_deliverable ?plic c k \<longleftrightarrow> plic_deliverable plic c k)
      \<or> (\<forall>c < plic_ctx_count hs. plic_deliverable ?plic c k \<longrightarrow> (\<exists>c' < plic_ctx_count hs. plic_deliverable ?plic c' k \<and> plic_line c' hs'))"
    proof
      assume ok
      then have "plic_deliverable ?plic ctx (unat irq)" "plic_line ctx hs'" using s(1,3) p(3) by auto
      then show ?thesis using p(2) [of k] c by (cases "k = unat irq") auto
    qed (use p(4) in auto)
  qed (use s(3) in auto)
  moreover have "plic_complete_irq ctx irq (plic, hs) = (?plic, hs')"
    using c i set m by (simp add: plic_complete_irq_def Let_def)
  ultimately show ?thesis using plic_wf_harts [OF p(1) s(2)] by simp
next
  case False
  have "pl_raised plic ! irq_reg irq AND bit_set32 irq = 0" if "ctx < plic_ctx_count hs" "irq < 64"
    using False that irq_set_cases(3) [of "pl_raised plic" irq 0] plic_wfD(3) [OF w] by simp
  then show ?thesis using assms by (simp add: plic_complete_irq_def)
qed

lemma set_irq_notified:
  assumes w: "plic_wf (plic, hs)" and n: "plic_notified (plic, hs)"
  shows "plic_wf (plic_set_irq irq lvl (plic, hs)) \<and> plic_notified (plic_set_irq irq lvl (plic, hs))"
proof (cases "0 < irq \<and> irq < 64")
  case True
  define up where "up = plic\<lparr>pl_raised := (pl_raised plic)[irq_reg irq := pl_raised plic ! irq_reg irq OR bit_set32 irq]\<rparr>"
  define down where "down = plic\<lparr>pl_raised := (pl_raised plic)[irq_reg irq := pl_raised plic ! irq_reg irq AND NOT (bit_set32 irq)]\<rparr>"
  have i: "irq < 64" "irq \<noteq> 0" "unat irq \<noteq> 0" using True by (auto simp: unat_eq_0)
  note r = irq_set_cases [OF plic_wfD(3) [OF w] i(1), of 0]
  have ud: "plic_wf (up, hs)" "plic_wf (down, hs)" using w i(3) r(1,2) by (auto simp: plic_wf_def up_def down_def)
  have same: "plic_notified (up, hs)" "plic_notified (down, hs)"
    using n by (auto simp: plic_notified_def up_def down_def plic_sets)
  let ?plic = "up\<lparr>pl_pending := (pl_pending up)[irq_reg irq := pl_pending up ! irq_reg irq OR bit_set32 irq]\<rparr>"
  note p = set_pending [OF ud(1) i(1,2)]
  note q = notify_irq_spec [OF p(1) i(1)]
  have "plic_notified (?plic, plic_notify_irq ?plic irq hs)"
  proof (rule notified_frame [OF same(1) q(1) q(2)])
    fix k
    show "(\<forall>c < plic_ctx_count hs. plic_deliverable ?plic c k \<longleftrightarrow> plic_deliverable up c k)
      \<or> (\<forall>c < plic_ctx_count hs. plic_deliverable ?plic c k \<longrightarrow>
          (\<exists>c' < plic_ctx_count hs. plic_deliverable ?plic c' k \<and> plic_line c' (plic_notify_irq ?plic irq hs)))"
      using p(2) [of k] q(3) by (cases "k = unat irq") auto
  qed
  moreover have "plic_wf (?plic, plic_notify_irq ?plic irq hs)" by (rule plic_wf_harts [OF p(1) q(1)])
  moreover have "plic_notified (?plic, hs)" if "src_bit (pl_pending up) (unat irq)"
    by (rule notified_frame [OF same(1)]) (use p(4) that in auto)
  moreover have "pl_pending up ! irq_reg irq AND bit_set32 irq = 0 \<longleftrightarrow> \<not> src_bit (pl_pending up) (unat irq)"
    using irq_set_cases(3) [of "pl_pending up" irq 0] plic_wfD(2) [OF ud(1)] i(1) by simp
  moreover have "plic_set_irq irq lvl (plic, hs) =
      (if \<not> lvl then (down, hs) else if pl_raised plic ! irq_reg irq AND bit_set32 irq \<noteq> 0 then (up, hs)
       else (?plic, if pl_pending up ! irq_reg irq AND bit_set32 irq = 0 then plic_notify_irq ?plic irq hs else hs))"
    using True by (simp add: plic_set_irq_def Let_def up_def down_def)
  ultimately show ?thesis using ud same p(1) by simp
qed (use assms in \<open>auto simp: plic_set_irq_def\<close>)

section \<open>Runs\<close>

definition plic_write_safe :: "u64 \<Rightarrow> u32 \<Rightarrow> 'd plic_state \<Rightarrow> bool" where
  "plic_write_safe off val s =
     (if off \<ge> 0x200000 then
        (let ctx = unat (ucast (shr (off - 0x200000) 12) :: u32); r = (off - 0x200000) AND 0xFFF in
         if r = 0 then threshold_safe ctx val s else if r = 4 then complete_safe ctx val s else True)
      else if off \<ge> 0x2000 then
        (let reg = unat (shr (off - 0x2000) 2 AND 0x1F); ctx = unat (ucast (shr (off - 0x2000) 7) :: u32)
         in enable_safe ctx reg val s)
      else True)"

text \<open>
  What happens to the controller: a wire of a device changes, the guest reads or writes a register,
  and the harts do anything else that leaves the lines of the controller alone.
\<close>

inductive plic_step :: "'d plic_state \<Rightarrow> 'd plic_state \<Rightarrow> bool" where
  plic_wire: "plic_step s (plic_set_irq irq lvl s)"
| plic_read: "plic_mmio_read off s = Some (v, s') \<Longrightarrow> plic_step s s'"
| plic_write: "plic_write_safe off v s \<Longrightarrow> plic_step s (plic_mmio_write off v s)"
| plic_harts: "length hs' = length hs \<Longrightarrow> (\<And>c. plic_line c hs' = plic_line c hs) \<Longrightarrow> plic_step (plic, hs) (plic, hs')"

lemma plic_step_notified:
  "plic_step s s' \<Longrightarrow> plic_wf s \<and> plic_notified s \<Longrightarrow> plic_wf s' \<and> plic_notified s'"
proof (induction rule: plic_step.induct)
  case (plic_wire s irq lvl)
  then show ?case using set_irq_notified by (cases s) blast
next
  case (plic_read off s v s')
  then show ?case by (cases s) (auto simp: plic_mmio_read_def Let_def split: if_splits dest: claim_notified)
next
  case (plic_write off v s)
  obtain plic hs where s: "s = (plic, hs)" by (cases s)
  show ?case
    using plic_write set_ctx_threshold_notified [of plic hs] complete_irq_notified [of plic hs]
      set_enable_bits_notified [of plic hs] set_irq_prio_notified [of plic hs]
    unfolding s plic_mmio_write_def plic_write_safe_def Let_def by (simp add: not_le)
next
  case (plic_harts hs' hs plic)
  then show ?case using plic_wf_harts [of plic hs hs'] by (auto simp: plic_notified_def plic_ctx_count_def)
qed

lemma plic_init_ok: "plic_wf (rvvm_riscv_plic_init hs, hs) \<and> plic_notified (rvvm_riscv_plic_init hs, hs)"
proof -
  have "\<not> src_bit [0, 0] n" if "n < 64" for n
  proof -
    have "n div 32 = 0 \<or> n div 32 = 1" using that by auto
    then show ?thesis by (auto simp: src_bit_def)
  qed
  then show ?thesis
    by (auto simp: plic_wf_def plic_notified_def plic_sets rvvm_riscv_plic_init_def numeral_2_eq_2)
qed

section \<open>Properties\<close>

text \<open>
  C21. Claiming an interrupt from the PLIC.  A claim always returns; it returns the interrupt with
  the highest priority among the pending ones that the context has enabled, the lowest number among
  equals, or 0 if there is none; it clears the pending bit of that interrupt and nothing else; and
  it leaves the line of the context raised exactly if another interrupt above the threshold waits
  for it, without touching the lines of other contexts.
\<close>

theorem plic_claim:
  assumes "plic_wf (plic, hs)" "ctx < plic_ctx_count hs"
  shows "\<exists>irq plic' hs'. plic_claim_irq ctx (plic, hs) = Some (irq, plic', hs')
    \<and> plic_best plic ctx irq \<and> plic'\<lparr>pl_pending := pl_pending plic\<rparr> = plic
    \<and> (\<forall>n < 64. src_bit (pl_pending plic') n \<longleftrightarrow> src_bit (pl_pending plic) n \<and> n \<noteq> unat irq)
    \<and> (plic_line ctx hs' \<longleftrightarrow> (\<exists>n. plic_deliverable plic' ctx n)) \<and> (\<forall>c. c = ctx \<or> plic_line c hs' = plic_line c hs)"
proof -
  obtain i hs' where u: "plic_update_ctx plic ctx True hs = (i, hs')" by fastforce
  note s = plic_update_ctx_spec [OF assms u]
  define plic' where "plic' = (if i = 0 then plic
      else plic\<lparr>pl_pending := (pl_pending plic)[irq_reg i := pl_pending plic ! irq_reg i AND NOT (bit_set32 i)]\<rparr>)"
  have i: "i \<noteq> 0 \<Longrightarrow> i < 64" using s(1) by (auto simp: plic_best_def plic_claimable_def word_less_nat_alt split: if_splits)
  have p: "\<forall>n < 64. src_bit (pl_pending plic') n \<longleftrightarrow> src_bit (pl_pending plic) n \<and> n \<noteq> unat i"
    using irq_set_cases(2) [of "pl_pending plic" i] i plic_wfD(2,7) [OF assms(1)] by (auto simp: plic'_def intro: gr0I)
  then have d: "plic_deliverable plic' ctx n \<longleftrightarrow> plic_deliverable plic ctx n \<and> n \<noteq> unat i" for n
    by (auto simp: plic_sets) (auto simp: plic'_def split: if_splits)
  have "plic_claim_irq ctx (plic, hs) = Some (i, plic', hs')" using plic_claim_once [OF assms u] by (simp add: plic'_def)
  moreover have "plic'\<lparr>pl_pending := pl_pending plic\<rparr> = plic" by (simp add: plic'_def)
  ultimately show ?thesis using s(1) p d s(3) by (intro exI [of _ i] exI [of _ plic'] exI [of _ hs']) auto
qed

text \<open>Two harts; interrupt 1 has priority 1 and is enabled in both supervisor contexts, where it is raised.\<close>

definition plic_two :: "unit plic_state" where
  "plic_two = (let hs = [hart_zero (), hart_zero ()] in
     plic_set_irq 1 True (plic_mmio_write 0x2180 2 (plic_mmio_write 0x2080 2 (plic_mmio_write 4 1 (rvvm_riscv_plic_init hs, hs)))))"

lemma plic_two_steps: "plic_step\<^sup>*\<^sup>* (rvvm_riscv_plic_init [hart_zero (), hart_zero ()], [hart_zero (), hart_zero ()]) plic_two"
proof -
  have "plic_write_safe 4 1 s" for s :: "unit plic_state" by (simp add: plic_write_safe_def Let_def)
  moreover have "plic_write_safe 0x2080 2 (plic_mmio_write 4 1 (rvvm_riscv_plic_init [hart_zero (), hart_zero ()], [hart_zero (), hart_zero ()]))"
    "plic_write_safe 0x2180 2 (plic_mmio_write 0x2080 2 (plic_mmio_write 4 1 (rvvm_riscv_plic_init [hart_zero (), hart_zero ()], [hart_zero (), hart_zero ()])))"
    by code_simp+
  ultimately show ?thesis
    unfolding plic_two_def Let_def by (meson plic_write plic_wire converse_rtranclp_into_rtranclp rtranclp.rtrancl_refl)
qed

lemma plic_run_notified:
  assumes "plic_step\<^sup>*\<^sup>* s s'"
  shows "plic_wf s \<and> plic_notified s \<Longrightarrow> plic_wf s' \<and> plic_notified s'"
  using assms by (induction rule: rtranclp_induct) (use plic_step_notified in blast)+

theorem plic_claim_witness:
  "\<exists>irq plic' hs'. plic_claim_irq 1 plic_two = Some (irq, plic', hs') \<and> plic_best (fst plic_two) 1 irq"
proof -
  have "plic_wf (fst plic_two, snd plic_two)" using plic_run_notified [OF plic_two_steps plic_init_ok] by simp
  moreover have "1 < plic_ctx_count (snd plic_two)" by code_simp
  ultimately show ?thesis using plic_claim [of "fst plic_two" "snd plic_two" 1] by auto
qed




end
