(* ===== verification/Aplic.thy ===== *)
theory Aplic
  imports IrqLines
begin

text \<open>
  The advanced platform-level interrupt controller of \<^verbatim>\<open>src/devices/riscv-aplic.c\<close>, which forwards wired
  interrupts as messages to the interrupt files of the harts, and the memory-mapped front end of those
  files, \<^verbatim>\<open>src/devices/riscv-imsic.c\<close>.  A domain is its index in the array of the two domains, and every
  handler runs alone.  An access outside an array of the source is the value \<^const>\<open>None\<close>.
\<close>

section \<open>State\<close>

abbreviation (input) APLIC_DOMAINCFG_BE :: u32 where "APLIC_DOMAINCFG_BE \<equiv> 1"
abbreviation (input) APLIC_DOMAINCFG_IE :: u32 where "APLIC_DOMAINCFG_IE \<equiv> 0x100"
abbreviation (input) APLIC_DOMAINCFG_MASK :: u32 where "APLIC_DOMAINCFG_MASK \<equiv> 0x101"
abbreviation (input) APLIC_DOMAINCFG :: u32 where "APLIC_DOMAINCFG \<equiv> 0x80000004"
abbreviation (input) APLIC_SOURCECFG_DELEGATE :: u32 where "APLIC_SOURCECFG_DELEGATE \<equiv> 0x400"
abbreviation (input) APLIC_SOURCECFG_DETACHED :: u32 where "APLIC_SOURCECFG_DETACHED \<equiv> 1"
abbreviation (input) APLIC_SOURCECFG_EDGE_FALL :: u32 where "APLIC_SOURCECFG_EDGE_FALL \<equiv> 5"
abbreviation (input) APLIC_SOURCECFG_LVL_LOW :: u32 where "APLIC_SOURCECFG_LVL_LOW \<equiv> 7"
abbreviation (input) APLIC_SOURCECFG_MASK :: u32 where "APLIC_SOURCECFG_MASK \<equiv> 7"
abbreviation (input) APLIC_MSIADDRCFGH_L :: u32 where "APLIC_MSIADDRCFGH_L \<equiv> 0x80000000"
abbreviation (input) APLIC_SRC_REGS :: nat where "APLIC_SRC_REGS \<equiv> 2"
abbreviation (input) APLIC_SRC_IDTS :: nat where "APLIC_SRC_IDTS \<equiv> 64"
abbreviation (input) APLIC_SRC_COUNT :: u64 where "APLIC_SRC_COUNT \<equiv> 63"
abbreviation (input) APLIC_MDOMAIN :: nat where "APLIC_MDOMAIN \<equiv> 0"
abbreviation (input) APLIC_SDOMAIN :: nat where "APLIC_SDOMAIN \<equiv> 1"

record aplic_domain =
  ad_invert :: u32
  ad_config :: u32

record aplic_dev =
  ap_domain :: "aplic_domain list"
  ap_deleg :: "u32 list"
  ap_raised :: "u32 list"
  ap_invert :: "u32 list"
  ap_pending :: "u32 list"
  ap_enabled :: "u32 list"
  ap_source :: "u32 list"
  ap_target :: "u32 list"

type_synonym 'd aplic_state = "aplic_dev \<times> 'd hart list"

text \<open>The register of an interrupt in a bit set, and its bit.\<close>

abbreviation (input) src_reg :: "u64 \<Rightarrow> nat" where "src_reg irq \<equiv> unat (shr irq 5)"
abbreviation (input) src_mask :: "u64 \<Rightarrow> u32" where "src_mask irq \<equiv> bit_set32 (ucast irq)"

section \<open>Sources\<close>

definition aplic_gen_msi :: "bool \<Rightarrow> u32 \<Rightarrow> 'd hart list \<Rightarrow> 'd hart list" where
  "aplic_gen_msi smode target hs =
     (let hartid = unat (shr target 18)
      in if hartid < length hs then with_hart (\<lambda>h. riscv_send_aia_irq h smode (target AND 0x3FF)) hartid hs else hs)"

definition aplic_rectified_bits :: "aplic_dev \<Rightarrow> nat \<Rightarrow> u32" where
  "aplic_rectified_bits aplic reg = ap_raised aplic ! reg XOR ap_invert aplic ! reg"

definition aplic_rectified_src :: "aplic_dev \<Rightarrow> u64 \<Rightarrow> bool" where
  "aplic_rectified_src aplic irq \<longleftrightarrow> aplic_rectified_bits aplic (src_reg irq) AND src_mask irq \<noteq> 0"

definition aplic_detached_src :: "aplic_dev \<Rightarrow> u64 \<Rightarrow> bool" where
  "aplic_detached_src aplic irq \<longleftrightarrow> ap_source aplic ! unat irq \<le> APLIC_SOURCECFG_DETACHED"

definition aplic_pending_interrupt :: "u64 \<Rightarrow> 'd aplic_state \<Rightarrow> 'd aplic_state" where
  "aplic_pending_interrupt irq s =
     (let (aplic, hs) = s in
      if irq - 1 < APLIC_SRC_COUNT then
        (let reg = src_reg irq;
             msk = src_mask irq;
             smode = ap_deleg aplic ! reg AND msk \<noteq> 0
         in if ap_enabled aplic ! reg AND msk \<noteq> 0 \<and> ad_config (ap_domain aplic ! of_bool smode) AND APLIC_DOMAINCFG_IE \<noteq> 0
            then (aplic, aplic_gen_msi smode (ap_target aplic ! unat irq) hs)
            else (aplic\<lparr>ap_pending := (ap_pending aplic)[reg := ap_pending aplic ! reg OR msk]\<rparr>, hs))
      else s)"

definition aplic_update_interrupt :: "u64 \<Rightarrow> 'd aplic_state \<Rightarrow> 'd aplic_state" where
  "aplic_update_interrupt irq s =
     (if aplic_rectified_src (fst s) irq \<and> \<not> aplic_detached_src (fst s) irq then aplic_pending_interrupt irq s else s)"

section \<open>Domains\<close>

definition aplic_valid_bits :: "aplic_dev \<Rightarrow> nat \<Rightarrow> nat \<Rightarrow> u32" where
  "aplic_valid_bits aplic dm reg = ap_deleg aplic ! reg XOR ad_invert (ap_domain aplic ! dm)"

definition aplic_valid_src :: "aplic_dev \<Rightarrow> nat \<Rightarrow> u64 \<Rightarrow> bool" where
  "aplic_valid_src aplic dm irq \<longleftrightarrow> aplic_valid_bits aplic dm (src_reg irq) AND src_mask irq \<noteq> 0"

definition aplic_ungated_src :: "aplic_dev \<Rightarrow> nat \<Rightarrow> u64 \<Rightarrow> bool" where
  "aplic_ungated_src aplic dm irq =
     (if aplic_valid_src aplic dm irq then aplic_rectified_src aplic irq \<or> aplic_detached_src aplic irq else False)"

section \<open>Registers\<close>

definition aplic_read_ip :: "aplic_dev \<Rightarrow> nat \<Rightarrow> nat \<Rightarrow> u32" where
  "aplic_read_ip aplic dm reg =
     (if reg < APLIC_SRC_REGS then ap_pending aplic ! reg AND aplic_valid_bits aplic dm reg else 0)"

definition aplic_read_in :: "aplic_dev \<Rightarrow> nat \<Rightarrow> nat \<Rightarrow> u32" where
  "aplic_read_in aplic dm reg =
     (if reg < APLIC_SRC_REGS then aplic_rectified_bits aplic reg AND aplic_valid_bits aplic dm reg else 0)"

definition aplic_read_ie :: "aplic_dev \<Rightarrow> nat \<Rightarrow> nat \<Rightarrow> u32" where
  "aplic_read_ie aplic dm reg =
     (if reg < APLIC_SRC_REGS then ap_enabled aplic ! reg AND aplic_valid_bits aplic dm reg else 0)"

definition aplic_read_sourcecfg :: "aplic_dev \<Rightarrow> nat \<Rightarrow> u64 \<Rightarrow> u32" where
  "aplic_read_sourcecfg aplic dm irq =
     (if irq - 1 < APLIC_SRC_COUNT then
        (if aplic_valid_src aplic dm irq then ap_source aplic ! unat irq
         else if ad_invert (ap_domain aplic ! dm) \<noteq> 0 then APLIC_SOURCECFG_DELEGATE else 0)
      else 0)"

definition aplic_read_targetcfg :: "aplic_dev \<Rightarrow> nat \<Rightarrow> u64 \<Rightarrow> u32" where
  "aplic_read_targetcfg aplic dm irq =
     (if irq - 1 < APLIC_SRC_COUNT \<and> aplic_valid_src aplic dm irq then ap_target aplic ! unat irq else 0)"

definition aplic_write_setipnum :: "nat \<Rightarrow> u64 \<Rightarrow> 'd aplic_state \<Rightarrow> 'd aplic_state" where
  "aplic_write_setipnum dm irq s =
     (if irq - 1 < APLIC_SRC_COUNT \<and> aplic_ungated_src (fst s) dm irq then aplic_pending_interrupt irq s else s)"

definition aplic_write_setip :: "nat \<Rightarrow> nat \<Rightarrow> u32 \<Rightarrow> 'd aplic_state \<Rightarrow> 'd aplic_state" where
  "aplic_write_setip dm reg bits s =
     (if reg < APLIC_SRC_REGS then
        (let irqs = bits AND aplic_valid_bits (fst s) dm reg
         in foreach_bit (\<lambda>b. aplic_write_setipnum dm (shl (of_nat reg) 5 + ucast b)) irqs s)
      else s)"

definition aplic_write_clrip :: "nat \<Rightarrow> nat \<Rightarrow> u32 \<Rightarrow> 'd aplic_state \<Rightarrow> 'd aplic_state" where
  "aplic_write_clrip dm reg bits s =
     (let (aplic, hs) = s in
      if reg < APLIC_SRC_REGS then
        (let clr = bits AND aplic_valid_bits aplic dm reg
         in if clr \<noteq> 0 then (aplic\<lparr>ap_pending := (ap_pending aplic)[reg := ap_pending aplic ! reg AND NOT clr]\<rparr>, hs) else s)
      else s)"

definition aplic_write_clripnum :: "nat \<Rightarrow> u64 \<Rightarrow> 'd aplic_state \<Rightarrow> 'd aplic_state" where
  "aplic_write_clripnum dm irq = aplic_write_clrip dm (src_reg irq) (src_mask irq)"

definition aplic_write_setie :: "nat \<Rightarrow> nat \<Rightarrow> u32 \<Rightarrow> 'd aplic_state \<Rightarrow> 'd aplic_state" where
  "aplic_write_setie dm reg bits s =
     (let (aplic, hs) = s in
      if reg < APLIC_SRC_REGS then
        (let set = bits AND aplic_valid_bits aplic dm reg;
             old = ap_enabled aplic ! reg;
             aplic = (if set \<noteq> 0 then aplic\<lparr>ap_enabled := (ap_enabled aplic)[reg := old OR set]\<rparr> else aplic);
             set = (if set \<noteq> 0 then set AND NOT old else set)
         in if set \<noteq> 0 then
              (let irqs = ap_pending aplic ! reg;
                   aplic = aplic\<lparr>ap_pending := (ap_pending aplic)[reg := irqs AND NOT set]\<rparr>
               in foreach_bit (\<lambda>b. aplic_pending_interrupt (shl (of_nat reg) 5 + ucast b)) irqs (aplic, hs))
            else (aplic, hs))
      else s)"

definition aplic_write_setienum :: "nat \<Rightarrow> u64 \<Rightarrow> 'd aplic_state \<Rightarrow> 'd aplic_state" where
  "aplic_write_setienum dm irq = aplic_write_setie dm (src_reg irq) (src_mask irq)"

definition aplic_write_clrie :: "nat \<Rightarrow> nat \<Rightarrow> u32 \<Rightarrow> 'd aplic_state \<Rightarrow> 'd aplic_state" where
  "aplic_write_clrie dm reg val s =
     (let (aplic, hs) = s in
      if reg < APLIC_SRC_REGS then
        (let clr = val AND aplic_valid_bits aplic dm reg
         in if clr \<noteq> 0 then (aplic\<lparr>ap_enabled := (ap_enabled aplic)[reg := ap_enabled aplic ! reg AND NOT clr]\<rparr>, hs) else s)
      else s)"

definition aplic_write_clrienum :: "nat \<Rightarrow> u64 \<Rightarrow> 'd aplic_state \<Rightarrow> 'd aplic_state" where
  "aplic_write_clrienum dm irq = aplic_write_clrie dm (src_reg irq) (src_mask irq)"

definition aplic_write_sourcecfg :: "nat \<Rightarrow> u64 \<Rightarrow> u32 \<Rightarrow> 'd aplic_state \<Rightarrow> 'd aplic_state" where
  "aplic_write_sourcecfg dm irq val s =
     (let (aplic, hs) = s in
      if irq - 1 < APLIC_SRC_COUNT then
        (let reg = src_reg irq;
             msk = src_mask irq;
             aplic = (if ad_invert (ap_domain aplic ! dm) \<noteq> 0 then
                        (if val AND APLIC_SOURCECFG_DELEGATE \<noteq> 0
                         then aplic\<lparr>ap_deleg := (ap_deleg aplic)[reg := ap_deleg aplic ! reg OR msk]\<rparr>
                         else aplic\<lparr>ap_deleg := (ap_deleg aplic)[reg := ap_deleg aplic ! reg AND NOT msk]\<rparr>)
                      else aplic)
         in if aplic_valid_src aplic dm irq then
              (let cfg = val AND APLIC_SOURCECFG_MASK;
                   aplic = aplic\<lparr>ap_source := (ap_source aplic)[unat irq := cfg]\<rparr>
               in if cfg = APLIC_SOURCECFG_LVL_LOW \<or> cfg = APLIC_SOURCECFG_EDGE_FALL
                  then (aplic\<lparr>ap_invert := (ap_invert aplic)[reg := ap_invert aplic ! reg OR msk]\<rparr>, hs)
                  else (aplic\<lparr>ap_invert := (ap_invert aplic)[reg := ap_invert aplic ! reg AND NOT msk]\<rparr>, hs))
            else (aplic, hs))
      else s)"

text \<open>The number of the interrupt is not checked here, and neither is the index of the two arrays.\<close>

definition aplic_write_target :: "nat \<Rightarrow> u64 \<Rightarrow> u32 \<Rightarrow> 'd aplic_state \<Rightarrow> 'd aplic_state option" where
  "aplic_write_target dm reg val s =
     (let (aplic, hs) = s in
      if src_reg reg < APLIC_SRC_REGS \<and> unat reg < APLIC_SRC_IDTS
      then Some (if aplic_valid_src aplic dm reg then (aplic\<lparr>ap_target := (ap_target aplic)[unat reg := val]\<rparr>, hs) else s)
      else None)"

section \<open>Bus and interrupt wires\<close>

text \<open>The bytes of a bus access are the value they have in little-endian order.\<close>

definition bus_byte :: "u32 \<Rightarrow> nat \<Rightarrow> u32" where
  "bus_byte data i = shr data (8 * i) AND 0xFF"

definition read_uint32_be_m :: "u32 \<Rightarrow> u32" where
  "read_uint32_be_m data =
     bus_byte data 3 OR shl (bus_byte data 2) 8 OR shl (bus_byte data 1) 16 OR shl (bus_byte data 0) 24"

definition write_uint32_be_m :: "u32 \<Rightarrow> u32" where
  "write_uint32_be_m val =
     shl (val AND 0xFF) 24 OR shl (shr val 8 AND 0xFF) 16 OR shl (shr val 16 AND 0xFF) 8 OR (shr val 24 AND 0xFF)"

definition aplic_mmio_read :: "aplic_dev \<Rightarrow> nat \<Rightarrow> u64 \<Rightarrow> u32" where
  "aplic_mmio_read aplic dm off =
     (let config = ad_config (ap_domain aplic ! dm);
          val = (if off = 0x0000 then config OR APLIC_DOMAINCFG
                 else if off - 0x1C00 < 0x0020 then aplic_read_ip aplic dm (unat (shr (off - 0x1C00) 2))
                 else if off - 0x1D00 < 0x0020 then aplic_read_in aplic dm (unat (shr (off - 0x1D00) 2))
                 else if off - 0x1E00 < 0x0020 then aplic_read_ie aplic dm (unat (shr (off - 0x1E00) 2))
                 else if off - 0x0004 < 0x0FFC then aplic_read_sourcecfg aplic dm (shr (off - 0x0004) 2 + 1)
                 else if off - 0x3004 < 0x0FFC then aplic_read_targetcfg aplic dm (shr (off - 0x3004) 2 + 1)
                 else if off = 0x1BC4 \<or> off = 0x1BCC then APLIC_MSIADDRCFGH_L
                 else 0)
      in if config AND APLIC_DOMAINCFG_BE = 0 then val else write_uint32_be_m val)"

definition aplic_mmio_write :: "nat \<Rightarrow> u64 \<Rightarrow> u32 \<Rightarrow> 'd aplic_state \<Rightarrow> 'd aplic_state option" where
  "aplic_mmio_write dm off data s =
     (let (aplic, hs) = s;
          config = ad_config (ap_domain aplic ! dm);
          val = (if config AND APLIC_DOMAINCFG_BE = 0 then data else read_uint32_be_m data)
      in if off = 0x0000
         then Some (aplic\<lparr>ap_domain := (ap_domain aplic)[dm := (ap_domain aplic ! dm)\<lparr>ad_config := val AND APLIC_DOMAINCFG_MASK\<rparr>]\<rparr>, hs)
         else if off = 0x1CDC then Some (aplic_write_setipnum dm (ucast val) s)
         else if off = 0x1DDC then Some (aplic_write_clripnum dm (ucast val) s)
         else if off = 0x1EDC then Some (aplic_write_setienum dm (ucast val) s)
         else if off = 0x1FDC then Some (aplic_write_clrienum dm (ucast val) s)
         else if off = 0x2000 then Some (aplic_write_setipnum dm (ucast data) s)
         else if off = 0x2004 then Some (aplic_write_setipnum dm (ucast (read_uint32_be_m data)) s)
         else if off = 0x3000 then Some (aplic, aplic_gen_msi (ad_invert (ap_domain aplic ! dm) = 0) val hs)
         else if off - 0x1C00 < 0x0020 then Some (aplic_write_setip dm (unat (shr (off - 0x1C00) 2)) val s)
         else if off - 0x1D00 < 0x0020 then Some (aplic_write_clrip dm (unat (shr (off - 0x1D00) 2)) val s)
         else if off - 0x1E00 < 0x0020 then Some (aplic_write_setie dm (unat (shr (off - 0x1E00) 2)) val s)
         else if off - 0x1F00 < 0x0020 then Some (aplic_write_clrie dm (unat (shr (off - 0x1F00) 2)) val s)
         else if off - 0x0004 < 0x0FFC then Some (aplic_write_sourcecfg dm (shr (off - 0x0004) 2 + 1) val s)
         else if off - 0x3004 < 0x0FFC then aplic_write_target dm (shr (off - 0x3004) 2 + 1) val s
         else Some s)"

definition aplic_set_irq :: "u32 \<Rightarrow> bool \<Rightarrow> 'd aplic_state \<Rightarrow> 'd aplic_state" where
  "aplic_set_irq irq lvl s =
     (let (aplic, hs) = s in
      if irq - 1 < 63 then
        (let msk = bit_set32 irq; r = irq_reg irq; old = ap_raised aplic ! r in
         if lvl then
           (let s = (aplic\<lparr>ap_raised := (ap_raised aplic)[r := old OR msk]\<rparr>, hs)
            in if NOT old AND msk \<noteq> 0 then aplic_update_interrupt (ucast irq) s else s)
         else
           (let s = (aplic\<lparr>ap_raised := (ap_raised aplic)[r := old AND NOT msk]\<rparr>, hs)
            in if old AND msk \<noteq> 0 then aplic_update_interrupt (ucast irq) s else s))
      else s)"

definition rvvm_riscv_aplic_init :: aplic_dev where
  "rvvm_riscv_aplic_init =
     \<lparr>ap_domain = [\<lparr>ad_invert = - 1, ad_config = 0\<rparr>, \<lparr>ad_invert = 0, ad_config = 0\<rparr>],
      ap_deleg = replicate APLIC_SRC_REGS (- 1), ap_raised = replicate APLIC_SRC_REGS 0, ap_invert = replicate APLIC_SRC_REGS 0,
      ap_pending = replicate APLIC_SRC_REGS 0, ap_enabled = replicate APLIC_SRC_REGS 0,
      ap_source = replicate APLIC_SRC_IDTS 0, ap_target = replicate APLIC_SRC_IDTS 0\<rparr>"

section \<open>Interrupt files\<close>

definition imsic_mmio_write :: "bool \<Rightarrow> u32 \<Rightarrow> u64 \<Rightarrow> 'd hart list \<Rightarrow> 'd hart list" where
  "imsic_mmio_write smode data off hs =
     (let hartid = unat (shr off 12) in
      if hartid < length hs then
        (if off AND 0xFFC = 0x00 then with_hart (\<lambda>h. riscv_send_aia_irq h smode data) hartid hs
         else if off AND 0xFFC = 0x04 then with_hart (\<lambda>h. riscv_send_aia_irq h smode (read_uint32_be_m data)) hartid hs
         else hs)
      else hs)"

text \<open>Adding the interrupt files to the harts of a machine, which must not be running.\<close>

definition riscv_imsic_init :: "bool \<Rightarrow> 'd hart list \<Rightarrow> 'd hart list" where
  "riscv_imsic_init machine_running hs = (if machine_running then hs else map riscv_hart_aia_init hs)"

section \<open>Numbers and bits\<close>

lemma src_index:
  assumes "n < 64"
  shows "src_reg (of_nat n) = n div 32" "src_mask (of_nat n) = shl 1 (n mod 32)" "unat (of_nat n :: u64) = n" "n div 32 < 2"
proof -
  have "list_all (\<lambda>n. src_reg (of_nat n) = n div 32 \<and> src_mask (of_nat n) = shl 1 (n mod 32)) [0..<64]" by code_simp
  with assms show "src_reg (of_nat n) = n div 32" "src_mask (of_nat n) = shl 1 (n mod 32)" "unat (of_nat n :: u64) = n" "n div 32 < 2"
    by (simp_all add: list_all_iff unat_of_nat)
qed

lemma src_of_reg: "\<lbrakk>reg < 2; b < 32\<rbrakk> \<Longrightarrow> shl (of_nat reg) 5 + ucast (of_nat b :: u32) = (of_nat (32 * reg + b) :: u64)"
proof -
  have "list_all (\<lambda>r. list_all (\<lambda>b. shl (of_nat r) 5 + ucast (of_nat b :: u32) = (of_nat (32 * r + b) :: u64)) [0..<32]) [0..<2]" by code_simp
  then show "\<lbrakk>reg < 2; b < 32\<rbrakk> \<Longrightarrow> shl (of_nat reg) 5 + ucast (of_nat b :: u32) = (of_nat (32 * reg + b) :: u64)"
    by (simp add: list_all_iff)
qed

lemma pred_less:
  fixes irq :: "'x :: len word"
  assumes "unat (63 :: 'x word) = 63" "\<not> (- 1 :: 'x word) < 63"
  shows "irq - 1 < 63 \<longleftrightarrow> 0 < unat irq \<and> unat irq < 64"
proof (cases "irq = 0")
  case True
  then show ?thesis using assms(2) by simp
next
  case False
  then have "unat (irq - 1) = unat irq - 1" "0 < unat irq" by (simp_all add: unat_minus_one unat_gt_0)
  then show ?thesis using assms(1) by (auto simp: word_less_nat_alt)
qed

lemma src_number: "irq - 1 < (63 :: u64) \<longleftrightarrow> (\<exists>n. 0 < n \<and> n < 64 \<and> irq = of_nat n)"
proof -
  have "irq - 1 < 63 \<longleftrightarrow> 0 < unat irq \<and> unat irq < 64" by (rule pred_less) simp_all
  then show ?thesis by (metis of_nat_unat src_index(3) ucast_id)
qed

lemma wire_number: "irq - 1 < (63 :: u32) \<longleftrightarrow> (\<exists>n. 0 < n \<and> n < 64 \<and> irq = of_nat n)"
proof -
  have "irq - 1 < 63 \<longleftrightarrow> 0 < unat irq \<and> unat irq < 64" by (rule pred_less) simp_all
  then show ?thesis by (metis of_nat_unat irq_index(3) ucast_id)
qed

lemma src_number_of_nat: "n < 64 \<Longrightarrow> (of_nat n :: u64) - 1 < 63 \<longleftrightarrow> 0 < n"
  unfolding src_number by (metis src_index(3) less_numeral_extra(3))

lemma and_exp_nonzero: "k < 32 \<Longrightarrow> w AND shl 1 k \<noteq> 0 \<longleftrightarrow> bit (w :: u32) k"
proof -
  assume k: "k < 32"
  have "w AND shl 1 k \<noteq> 0 \<longleftrightarrow> (\<exists>i. bit (w AND shl 1 k) i)" by (metis bit_0_eq bot_apply bot_bool_def bit_word_eqI)
  also have "\<dots> \<longleftrightarrow> bit w k" using k by (auto simp: bit_simps)
  finally show ?thesis .
qed

lemma src_bit_mask: "n < 64 \<Longrightarrow> bs ! (n div 32) AND shl 1 (n mod 32) \<noteq> 0 \<longleftrightarrow> src_bit bs n"
  unfolding src_bit_def by (rule and_exp_nonzero) simp

lemma foreach_bit_inv:
  assumes "\<And>n s. \<lbrakk>n < 32; bit w n; P s\<rbrakk> \<Longrightarrow> P (f (of_nat n) s)" "P s"
  shows "P (foreach_bit f w s)"
proof -
  have "P (fold (\<lambda>n. f (of_nat n)) ns s)" if "set ns \<subseteq> {n. n < 32 \<and> bit w n}" for ns
    using that assms by (induction ns arbitrary: s) auto
  then show ?thesis unfolding foreach_bit_fold by (simp add: set_bits32_def)
qed

section \<open>The registers stay within their arrays\<close>

definition aplic_wf :: "aplic_dev \<Rightarrow> bool" where
  "aplic_wf aplic \<longleftrightarrow>
     length (ap_domain aplic) = 2 \<and> ad_invert (ap_domain aplic ! 0) = - 1 \<and> ad_invert (ap_domain aplic ! 1) = 0
     \<and> length (ap_deleg aplic) = 2 \<and> length (ap_raised aplic) = 2 \<and> length (ap_invert aplic) = 2
     \<and> length (ap_pending aplic) = 2 \<and> length (ap_enabled aplic) = 2
     \<and> length (ap_source aplic) = 64 \<and> length (ap_target aplic) = 64
     \<and> (\<forall>n < 64. src_bit (ap_invert aplic) n \<longleftrightarrow> ap_source aplic ! n = 5 \<or> ap_source aplic ! n = 7)"

lemma aplic_wfD:
  assumes "aplic_wf aplic"
  shows "length (ap_domain aplic) = 2" "ad_invert (ap_domain aplic ! 0) = - 1" "ad_invert (ap_domain aplic ! Suc 0) = 0"
    "length (ap_deleg aplic) = 2" "length (ap_raised aplic) = 2" "length (ap_invert aplic) = 2"
    "length (ap_pending aplic) = 2" "length (ap_enabled aplic) = 2"
    "length (ap_source aplic) = 64" "length (ap_target aplic) = 64"
    "n < 64 \<Longrightarrow> src_bit (ap_invert aplic) n \<longleftrightarrow> ap_source aplic ! n = 5 \<or> ap_source aplic ! n = 7"
  using assms by (auto simp: aplic_wf_def)

text \<open>The sources of a domain: those that are delegated are the ones of the supervisor.\<close>

definition aplic_owns :: "aplic_dev \<Rightarrow> nat \<Rightarrow> nat \<Rightarrow> bool" where
  "aplic_owns aplic dm n \<longleftrightarrow> (src_bit (ap_deleg aplic) n \<longleftrightarrow> dm = APLIC_SDOMAIN)"

lemma valid_src:
  assumes "aplic_wf aplic" "dm < 2" "n < 64"
  shows "aplic_valid_src aplic dm (of_nat n) \<longleftrightarrow> aplic_owns aplic dm n"
proof -
  have "aplic_valid_src aplic dm (of_nat n) \<longleftrightarrow> bit (aplic_valid_bits aplic dm (n div 32)) (n mod 32)"
    unfolding aplic_valid_src_def src_index [OF assms(3)] by (rule and_exp_nonzero) simp
  also have "\<dots> \<longleftrightarrow> aplic_owns aplic dm n"
    using assms(2) aplic_wfD(2,3) [OF assms(1)]
    by (auto simp: aplic_valid_bits_def aplic_owns_def src_bit_def bit_simps less_2_cases_iff)
  finally show ?thesis .
qed

lemma valid_bits:
  assumes "aplic_wf aplic" "dm < 2" "reg < 2" "b < 32"
  shows "bit (aplic_valid_bits aplic dm reg) b \<longleftrightarrow> aplic_owns aplic dm (32 * reg + b)"
proof -
  have "(32 * reg + b) div 32 = reg" "(32 * reg + b) mod 32 = b" using assms(4) by simp_all
  then show ?thesis using assms(2,4) aplic_wfD(2,3) [OF assms(1)]
    by (auto simp: aplic_valid_bits_def aplic_owns_def src_bit_def bit_simps less_2_cases_iff)
qed

lemma rectified_src:
  assumes "n < 64"
  shows "aplic_rectified_src aplic (of_nat n) \<longleftrightarrow> src_bit (ap_raised aplic) n \<noteq> src_bit (ap_invert aplic) n"
proof -
  have "aplic_rectified_src aplic (of_nat n) \<longleftrightarrow> bit (aplic_rectified_bits aplic (n div 32)) (n mod 32)"
    unfolding aplic_rectified_src_def src_index [OF assms] by (rule and_exp_nonzero) simp
  then show ?thesis by (simp add: aplic_rectified_bits_def src_bit_def bit_simps)
qed

definition aplic_forwards :: "aplic_dev \<Rightarrow> nat \<Rightarrow> bool" where
  "aplic_forwards aplic n \<longleftrightarrow> src_bit (ap_enabled aplic) n
     \<and> ad_config (ap_domain aplic ! of_bool (src_bit (ap_deleg aplic) n)) AND APLIC_DOMAINCFG_IE \<noteq> 0"

definition set_pending :: "aplic_dev \<Rightarrow> nat \<Rightarrow> aplic_dev" where
  "set_pending aplic n = aplic\<lparr>ap_pending := (ap_pending aplic)[n div 32 := ap_pending aplic ! (n div 32) OR shl 1 (n mod 32)]\<rparr>"

lemma pending_interrupt:
  assumes "0 < n" "n < 64"
  shows "aplic_pending_interrupt (of_nat n) (aplic, hs) =
    (if aplic_forwards aplic n then (aplic, aplic_gen_msi (src_bit (ap_deleg aplic) n) (ap_target aplic ! n) hs)
     else (set_pending aplic n, hs))"
  using assms unfolding aplic_pending_interrupt_def aplic_forwards_def set_pending_def prod.case Let_def src_index [OF assms(2)]
  by (simp only: src_bit_mask [OF assms(2)] src_number_of_nat if_True)

lemma set_pending_bits:
  assumes "aplic_wf aplic" "n < 64" "m < 64"
  shows "src_bit (ap_pending (set_pending aplic n)) m \<longleftrightarrow> src_bit (ap_pending aplic) m \<or> m = n"
  unfolding set_pending_def using src_bit_set(1) [OF assms(2) aplic_wfD(7) [OF assms(1)] assms(3)] by simp

lemma set_pending_wf: "aplic_wf aplic \<Longrightarrow> aplic_wf (set_pending aplic n)"
  by (simp add: aplic_wf_def set_pending_def)

lemma wf_pending: "\<lbrakk>aplic_wf aplic; length ws = 2\<rbrakk> \<Longrightarrow> aplic_wf (aplic\<lparr>ap_pending := ws\<rparr>)"
  by (simp add: aplic_wf_def)

lemma wf_enabled: "aplic_wf aplic \<Longrightarrow> aplic_wf (aplic\<lparr>ap_enabled := (ap_enabled aplic)[r := w]\<rparr>)"
  by (simp add: aplic_wf_def)

lemma pending_interrupt_wf: "aplic_wf (fst s) \<Longrightarrow> aplic_wf (fst (aplic_pending_interrupt irq s))"
  by (auto simp: aplic_pending_interrupt_def aplic_wf_def Let_def split: prod.splits)

lemma setipnum_wf: "aplic_wf (fst s) \<Longrightarrow> aplic_wf (fst (aplic_write_setipnum dm irq s))"
  by (simp add: aplic_write_setipnum_def pending_interrupt_wf)

lemma setip_wf: "aplic_wf (fst s) \<Longrightarrow> aplic_wf (fst (aplic_write_setip dm reg bits s))"
  unfolding aplic_write_setip_def Let_def by (auto intro: foreach_bit_inv [where P = "\<lambda>s. aplic_wf (fst s)"] setipnum_wf)

lemma clrip_wf: "aplic_wf (fst s) \<Longrightarrow> aplic_wf (fst (aplic_write_clrip dm reg bits s))"
  by (auto simp: aplic_write_clrip_def aplic_wf_def Let_def split: prod.splits)

lemma clrie_wf: "aplic_wf (fst s) \<Longrightarrow> aplic_wf (fst (aplic_write_clrie dm reg bits s))"
  by (auto simp: aplic_write_clrie_def aplic_wf_def Let_def split: prod.splits)

lemma setie_write:
  assumes "reg < 2"
  shows "aplic_write_setie dm reg bits (aplic, hs) =
    (let set = bits AND aplic_valid_bits aplic dm reg;
         new = set AND NOT (ap_enabled aplic ! reg);
         a1 = aplic\<lparr>ap_enabled := (ap_enabled aplic)[reg := ap_enabled aplic ! reg OR set]\<rparr>
     in if new = 0 then (a1, hs)
        else foreach_bit (\<lambda>b. aplic_pending_interrupt (shl (of_nat reg) 5 + ucast b)) (ap_pending aplic ! reg)
               (a1\<lparr>ap_pending := (ap_pending aplic)[reg := ap_pending aplic ! reg AND NOT new]\<rparr>, hs))"
  using assms by (cases "bits AND aplic_valid_bits aplic dm reg = 0") (simp_all add: aplic_write_setie_def Let_def)

lemma setie_wf:
  assumes "aplic_wf (fst s)"
  shows "aplic_wf (fst (aplic_write_setie dm reg bits s))"
proof (cases "reg < 2")
  case True
  have loop: "aplic_wf (fst (foreach_bit (\<lambda>b. aplic_pending_interrupt (shl (of_nat reg) 5 + ucast b)) irqs s'))" if "aplic_wf (fst s')" for irqs s'
    using that by (rule foreach_bit_inv [where P = "\<lambda>s. aplic_wf (fst s)", rotated]) (rule pending_interrupt_wf)
  obtain aplic hs where s: "s = (aplic, hs)" by fastforce
  have w: "aplic_wf aplic" using assms s by simp
  let ?set = "bits AND aplic_valid_bits aplic dm reg"
  have w1: "aplic_wf (aplic\<lparr>ap_enabled := (ap_enabled aplic)[reg := ap_enabled aplic ! reg OR ?set]\<rparr>)" by (rule wf_enabled [OF w])
  moreover have "length ((ap_pending aplic)[reg := x]) = 2" for x using aplic_wfD(7) [OF w] by simp
  ultimately show ?thesis unfolding s setie_write [OF True] Let_def
    by (cases "?set AND NOT (ap_enabled aplic ! reg) = 0") (simp_all only: if_True if_False simp_thms fst_conv loop wf_pending)
qed (use assms in \<open>simp add: aplic_write_setie_def split: prod.splits\<close>)

text \<open>Writing a source configuration first moves the source to a domain and then sets it up.\<close>

definition delegate_src :: "aplic_dev \<Rightarrow> nat \<Rightarrow> nat \<Rightarrow> u32 \<Rightarrow> aplic_dev" where
  "delegate_src aplic dm n val =
     (if ad_invert (ap_domain aplic ! dm) \<noteq> 0
      then aplic\<lparr>ap_deleg := (ap_deleg aplic)[n div 32 := if val AND APLIC_SOURCECFG_DELEGATE \<noteq> 0
             then ap_deleg aplic ! (n div 32) OR shl 1 (n mod 32) else ap_deleg aplic ! (n div 32) AND NOT (shl 1 (n mod 32))]\<rparr>
      else aplic)"

definition configure_src :: "aplic_dev \<Rightarrow> nat \<Rightarrow> u32 \<Rightarrow> aplic_dev" where
  "configure_src aplic n cfg =
     aplic\<lparr>ap_source := (ap_source aplic)[n := cfg],
       ap_invert := (ap_invert aplic)[n div 32 := if cfg = 7 \<or> cfg = 5
         then ap_invert aplic ! (n div 32) OR shl 1 (n mod 32) else ap_invert aplic ! (n div 32) AND NOT (shl 1 (n mod 32))]\<rparr>"

lemma delegate_src_wf: "aplic_wf aplic \<Longrightarrow> aplic_wf (delegate_src aplic dm n val)"
  by (simp add: delegate_src_def aplic_wf_def)

lemma configure_src_wf:
  assumes "aplic_wf aplic" "n < 64"
  shows "aplic_wf (configure_src aplic n cfg)"
  using assms src_bit_set [OF assms(2) aplic_wfD(6) [OF assms(1)]]
  by (auto simp: aplic_wf_def configure_src_def nth_list_update)

lemma sourcecfg_write:
  assumes "0 < n" "n < 64"
  shows "aplic_write_sourcecfg dm (of_nat n) val (aplic, hs) =
    (let aplic = delegate_src aplic dm n val
     in (if aplic_valid_src aplic dm (of_nat n) then configure_src aplic n (val AND APLIC_SOURCECFG_MASK) else aplic, hs))"
proof -
  have d: "(if ad_invert (ap_domain aplic ! dm) \<noteq> 0 then
        (if val AND 0x400 \<noteq> 0 then aplic\<lparr>ap_deleg := (ap_deleg aplic)[n div 32 := ap_deleg aplic ! (n div 32) OR shl 1 (n mod 32)]\<rparr>
         else aplic\<lparr>ap_deleg := (ap_deleg aplic)[n div 32 := ap_deleg aplic ! (n div 32) AND NOT (shl 1 (n mod 32))]\<rparr>)
      else aplic) = delegate_src aplic dm n val"
    by (simp add: delegate_src_def)
  have c: "(if cfg = 7 \<or> cfg = 5
      then (a\<lparr>ap_source := (ap_source a)[n := cfg]\<rparr>\<lparr>ap_invert := (ap_invert (a\<lparr>ap_source := (ap_source a)[n := cfg]\<rparr>))[n div 32 := ap_invert (a\<lparr>ap_source := (ap_source a)[n := cfg]\<rparr>) ! (n div 32) OR shl 1 (n mod 32)]\<rparr>, hs)
      else (a\<lparr>ap_source := (ap_source a)[n := cfg]\<rparr>\<lparr>ap_invert := (ap_invert (a\<lparr>ap_source := (ap_source a)[n := cfg]\<rparr>))[n div 32 := ap_invert (a\<lparr>ap_source := (ap_source a)[n := cfg]\<rparr>) ! (n div 32) AND NOT (shl 1 (n mod 32))]\<rparr>, hs))
      = (configure_src a n cfg, hs)" for a cfg
    by (simp add: configure_src_def)
  have "(of_nat n :: u64) - 1 < 63" using assms src_number_of_nat by simp
  then show ?thesis
    unfolding aplic_write_sourcecfg_def prod.case Let_def src_index [OF assms(2)] d c
    by (simp only: if_True if_distrib [where f = "\<lambda>a. (a, hs)"])
qed

lemma sourcecfg_wf:
  assumes "aplic_wf (fst s)"
  shows "aplic_wf (fst (aplic_write_sourcecfg dm irq val s))"
proof (cases "irq - 1 < 63")
  case True
  then obtain n where n: "0 < n" "n < 64" "irq = of_nat n" by (auto simp: src_number)
  obtain aplic hs where s: "s = (aplic, hs)" by fastforce
  show ?thesis unfolding s n(3) sourcecfg_write [OF n(1,2)] Let_def
    using assms n(2) s by (simp add: delegate_src_wf configure_src_wf)
qed (use assms in \<open>simp add: aplic_write_sourcecfg_def split: prod.splits\<close>)

lemma target_wf: "\<lbrakk>aplic_wf (fst s); aplic_write_target dm reg val s = Some s'\<rbrakk> \<Longrightarrow> aplic_wf (fst s')"
  by (auto simp: aplic_write_target_def aplic_wf_def Let_def split: prod.splits if_splits)

lemmas aplic_wf_writes = setipnum_wf setip_wf clrip_wf clrie_wf setie_wf sourcecfg_wf

lemma window:
  fixes off a b :: u64
  assumes "unat a + unat b \<le> 2 ^ 64"
  shows "off - a < b \<longleftrightarrow> unat a \<le> unat off \<and> unat off < unat a + unat b"
proof (cases "a \<le> off")
  case True
  then have "unat (off - a) = unat off - unat a" "unat a \<le> unat off" by (simp_all add: unat_sub word_le_nat_alt)
  then show ?thesis by (auto simp: word_less_nat_alt)
next
  case False
  then have lt: "unat off < unat a" by (simp add: word_le_nat_alt)
  have "unat (off - a) = 2 ^ 64 + unat off - unat a" using lt unsigned_less [of a, where 'a = nat] by (simp add: unat_sub_if_size word_size word_le_nat_alt)
  then show ?thesis using lt assms by (auto simp: word_less_nat_alt)
qed

text \<open>The offsets at which the registers of a domain are.\<close>

lemmas aplic_windows = window [of "0x1C00" "0x20", simplified] window [of "0x1D00" "0x20", simplified] window [of "0x1E00" "0x20", simplified]
  window [of "0x1F00" "0x20", simplified] window [of "4" "0xFFC", simplified] window [of "0x3004" "0xFFC", simplified]

lemma target_number:
  assumes "0x3004 \<le> unat off" "unat off < 0x4000"
  shows "unat (shr (off - 0x3004 :: u64) 2 + 1) = (unat off - 0x3004) div 4 + 1"
proof -
  have "unat (off - 0x3004) = unat off - 0x3004" using assms(1) by (simp add: unat_sub word_le_nat_alt)
  then have d: "unat (shr (off - 0x3004) 2) = (unat off - 0x3004) div 4" unfolding unsigned_drop_bit_eq using assms(2) by (simp add: drop_bit_eq_div take_bit_nat_eq_self)
  have "(unat off - 0x3004) div 4 < 2 ^ 12" using assms(2) by simp
  then show ?thesis using d by (simp add: unat_word_ariths)
qed

lemma src_reg_bound: "src_reg reg < 2 \<longleftrightarrow> unat reg < 64"
proof -
  have "take_bit 64 (unat reg) = unat reg" using unsigned_less [of reg, where 'a = nat] by (simp add: take_bit_nat_eq_self)
  then show ?thesis unfolding unsigned_drop_bit_eq by (simp add: drop_bit_eq_div div_less_iff_less_mult)
qed

lemma write_target_None:
  "aplic_write_target dm reg val s = None \<longleftrightarrow> 64 \<le> unat reg"
  unfolding aplic_write_target_def Let_def src_reg_bound by (auto split: prod.splits)

lemma if_Some_None: "(if c then Some x else y) = None \<longleftrightarrow> \<not> c \<and> y = None"
  by simp

lemma aplic_mmio_write_None:
  "aplic_mmio_write dm off data s = None \<longleftrightarrow> 0x3100 \<le> off \<and> off < 0x4000"
proof (cases "off - 0x3004 < 0xFFC \<and> off \<noteq> 0x3000")
  case True
  then have o: "0x3004 \<le> unat off" "unat off < 0x4000" by (simp_all add: aplic_windows)
  have ne: "off \<noteq> k" if "unat k < 0x3004" for k using o(1) that by auto
  have "aplic_mmio_write dm off data s = aplic_write_target dm (shr (off - 0x3004) 2 + 1)
      (if ad_config (ap_domain (fst s) ! dm) AND 1 = 0 then data else read_uint32_be_m data) s"
    using True o ne unfolding aplic_mmio_write_def by (simp add: aplic_windows Let_def split: prod.splits)
  also have "\<dots> = None \<longleftrightarrow> 64 \<le> (unat off - 0x3004) div 4 + 1" unfolding write_target_None target_number [OF o] ..
  also have "\<dots> \<longleftrightarrow> 0x3100 \<le> unat off" using o(1) by linarith
  finally show ?thesis using o by (simp add: word_le_nat_alt word_less_nat_alt)
next
  case False
  then have n: "\<not> (off - 0x3004 < 0xFFC)" by (auto simp: aplic_windows)
  obtain aplic hs where s: "s = (aplic, hs)" by fastforce
  have "aplic_mmio_write dm off data s \<noteq> None"
    unfolding s aplic_mmio_write_def Let_def prod.case by (simp only: n if_False if_Some_None option.distinct simp_thms)
  moreover have "\<not> (0x3100 \<le> unat off \<and> unat off < 0x4000)" using n unfolding aplic_windows by linarith
  moreover have "0x3100 \<le> off \<and> off < 0x4000 \<longleftrightarrow> 0x3100 \<le> unat off \<and> unat off < 0x4000" by (simp add: word_le_nat_alt word_less_nat_alt)
  ultimately show ?thesis by blast
qed

lemma aplic_mmio_write_wf:
  assumes w: "aplic_wf (fst s)" "dm < 2" and r: "aplic_mmio_write dm off data s = Some s'"
  shows "aplic_wf (fst s')"
proof -
  obtain aplic hs where s: "s = (aplic, hs)" by fastforce
  have "aplic_wf (aplic\<lparr>ap_domain := (ap_domain aplic)[dm := (ap_domain aplic ! dm)\<lparr>ad_config := c\<rparr>]\<rparr>)" for c
    using w s by (auto simp: aplic_wf_def nth_list_update less_2_cases_iff)
  moreover have "aplic_wf (fst (aplic_write_clripnum dm irq s))" "aplic_wf (fst (aplic_write_clrienum dm irq s))"
    "aplic_wf (fst (aplic_write_setienum dm irq s))" for irq
    unfolding aplic_write_clripnum_def aplic_write_clrienum_def aplic_write_setienum_def using w(1) by (simp_all add: aplic_wf_writes)
  moreover note aplic_wf_writes [OF w(1)] target_wf [OF w(1)] w(1)
  ultimately show ?thesis using r unfolding aplic_mmio_write_def Let_def s prod.case
    by (auto simp only: fst_conv option.inject split: if_split_asm)
qed

section \<open>The domains are isolated\<close>

definition src_view :: "aplic_dev \<Rightarrow> nat \<Rightarrow> bool \<times> bool \<times> bool \<times> u32 \<times> u32" where
  "src_view aplic n = (src_bit (ap_pending aplic) n, src_bit (ap_enabled aplic) n, src_bit (ap_invert aplic) n,
     ap_source aplic ! n, ap_target aplic ! n)"

text \<open>Nothing but the configuration of a domain and of its sources has changed.\<close>

definition kept_outside :: "nat \<Rightarrow> aplic_dev \<Rightarrow> aplic_dev \<Rightarrow> bool" where
  "kept_outside dm a a' \<longleftrightarrow> ap_deleg a' = ap_deleg a \<and> ap_raised a' = ap_raised a
     \<and> (\<forall>d < 2. d \<noteq> dm \<longrightarrow> ap_domain a' ! d = ap_domain a ! d)
     \<and> (\<forall>n < 64. \<not> aplic_owns a dm n \<longrightarrow> src_view a' n = src_view a n)"

lemma kept_refl: "kept_outside dm a a"
  by (simp add: kept_outside_def)

lemma kept_owns: "kept_outside dm a a' \<Longrightarrow> aplic_owns a' dm n = aplic_owns a dm n"
  by (simp add: kept_outside_def aplic_owns_def)

lemma kept_trans: "kept_outside dm a b \<Longrightarrow> kept_outside dm b c \<Longrightarrow> kept_outside dm a c"
  using kept_owns [of dm a b] by (simp add: kept_outside_def)

lemma kept_set_pending:
  assumes "aplic_wf a" "n < 64" "aplic_owns a dm n \<or> src_bit (ap_pending a) n"
  shows "kept_outside dm a (set_pending a n)"
proof -
  have "src_view (set_pending a n) m = src_view a m" if "m < 64" "\<not> aplic_owns a dm m" for m
    using set_pending_bits [OF assms(1,2) that(1)] assms(3) that(2) by (auto simp: src_view_def set_pending_def)
  then show ?thesis by (simp add: kept_outside_def set_pending_def)
qed

lemma pending_interrupt_kept:
  assumes "aplic_wf (fst s)" "n < 64" "aplic_owns (fst s) dm n \<or> src_bit (ap_pending (fst s)) n"
  shows "kept_outside dm (fst s) (fst (aplic_pending_interrupt (of_nat n) s))"
proof (cases "n = 0")
  case True
  then show ?thesis using kept_refl by (simp add: aplic_pending_interrupt_def split: prod.splits)
next
  case False
  obtain a hs where s: "s = (a, hs)" by fastforce
  show ?thesis using pending_interrupt [of n a hs] kept_set_pending assms kept_refl False by (simp add: s)
qed

lemma setipnum_kept:
  assumes "aplic_wf (fst s)" "dm < 2"
  shows "kept_outside dm (fst s) (fst (aplic_write_setipnum dm irq s))"
proof (cases "irq - 1 < 63 \<and> aplic_ungated_src (fst s) dm irq")
  case True
  then obtain n where n: "n < 64" "irq = of_nat n" by (auto simp: src_number)
  have "aplic_valid_src (fst s) dm (of_nat n)" using True n(2) by (auto simp: aplic_ungated_src_def split: if_splits)
  then have "aplic_owns (fst s) dm n" using valid_src [OF assms n(1)] by simp
  then show ?thesis using True pending_interrupt_kept [OF assms(1) n(1)] by (simp add: aplic_write_setipnum_def n(2))
next
  case False
  then show ?thesis by (simp only: aplic_write_setipnum_def if_False kept_refl)
qed

lemma loop_kept:
  assumes "aplic_wf (fst s)" "kept_outside dm a (fst s)"
    and "\<And>n s. \<lbrakk>n < 32; bit w n; aplic_wf (fst s); kept_outside dm a (fst s)\<rbrakk> \<Longrightarrow>
      aplic_wf (fst (f (of_nat n) s)) \<and> kept_outside dm (fst s) (fst (f (of_nat n) s))"
  shows "kept_outside dm a (fst (foreach_bit f w s))"
proof -
  have "aplic_wf (fst (foreach_bit f w s)) \<and> kept_outside dm a (fst (foreach_bit f w s))"
    by (rule foreach_bit_inv [where P = "\<lambda>s. aplic_wf (fst s) \<and> kept_outside dm a (fst s)"]) (use assms kept_trans in blast)+
  then show ?thesis by simp
qed

lemma setip_kept:
  assumes "aplic_wf (fst s)" "dm < 2"
  shows "kept_outside dm (fst s) (fst (aplic_write_setip dm reg bits s))"
proof (cases "reg < 2")
  case True
  then show ?thesis unfolding aplic_write_setip_def Let_def
    by (simp only: if_True) (rule loop_kept [OF assms(1) kept_refl], use setipnum_kept [OF _ assms(2)] setipnum_wf in blast)
qed (simp add: aplic_write_setip_def kept_refl)

text \<open>Changing bits of a register that are bits of the domain.\<close>

lemma own_bits:
  assumes "aplic_wf a" "dm < 2" "reg < 2" "n < 64" "n div 32 = reg" "bit (bits AND aplic_valid_bits a dm reg) (n mod 32)"
  shows "aplic_owns a dm n"
proof -
  have "32 * reg + n mod 32 = n" using assms(5) by auto
  moreover have "n mod 32 < 32" by simp
  ultimately show ?thesis using valid_bits [OF assms(1-3), of "n mod 32"] assms(6) by (simp add: bit_simps)
qed

lemma src_bit_clear: "n < 64 \<Longrightarrow> length bs = 2 \<Longrightarrow> src_bit (bs[reg := bs ! reg AND NOT clr]) n \<longleftrightarrow> src_bit bs n \<and> \<not> (n div 32 = reg \<and> bit clr (n mod 32))"
  by (cases "n div 32 = reg") (auto simp: src_bit_def bit_simps)

lemma src_bit_or: "n < 64 \<Longrightarrow> length bs = 2 \<Longrightarrow> src_bit (bs[reg := bs ! reg OR w]) n \<longleftrightarrow> src_bit bs n \<or> n div 32 = reg \<and> bit w (n mod 32)"
  by (cases "n div 32 = reg") (auto simp: src_bit_def bit_simps)

lemma clrip_kept:
  assumes "aplic_wf (fst s)" "dm < 2"
  shows "kept_outside dm (fst s) (fst (aplic_write_clrip dm reg bits s))"
proof -
  obtain a hs where s: "s = (a, hs)" by fastforce
  note l = aplic_wfD [OF assms(1)]
  have "kept_outside dm a (a\<lparr>ap_pending := (ap_pending a)[reg := ap_pending a ! reg AND NOT (bits AND aplic_valid_bits a dm reg)]\<rparr>)" if "reg < 2"
    using own_bits [OF assms(1)] assms(2) that src_bit_clear [OF _ l(7), of _ reg "bits AND aplic_valid_bits a dm reg"] s
    by (auto simp: kept_outside_def src_view_def simp del: bit.conj_disj_distrib bit.de_Morgan_conj)
  then show ?thesis by (auto simp: s aplic_write_clrip_def Let_def kept_refl simp del: bit.de_Morgan_conj)
qed

lemma clrie_kept:
  assumes "aplic_wf (fst s)" "dm < 2"
  shows "kept_outside dm (fst s) (fst (aplic_write_clrie dm reg bits s))"
proof -
  obtain a hs where s: "s = (a, hs)" by fastforce
  note l = aplic_wfD [OF assms(1)]
  have "kept_outside dm a (a\<lparr>ap_enabled := (ap_enabled a)[reg := ap_enabled a ! reg AND NOT (bits AND aplic_valid_bits a dm reg)]\<rparr>)" if "reg < 2"
    using own_bits [OF assms(1)] assms(2) that src_bit_clear [OF _ l(8), of _ reg "bits AND aplic_valid_bits a dm reg"] s
    by (auto simp: kept_outside_def src_view_def simp del: bit.conj_disj_distrib bit.de_Morgan_conj)
  then show ?thesis by (auto simp: s aplic_write_clrie_def Let_def kept_refl simp del: bit.de_Morgan_conj)
qed

text \<open>Enabling a source notifies of every pending one of the register, but marks only those of the domain.\<close>

lemma setie_kept:
  assumes "aplic_wf (fst s)" "dm < 2"
  shows "kept_outside dm (fst s) (fst (aplic_write_setie dm reg bits s))"
proof (cases "reg < 2")
  case reg: True
  obtain a hs where s: "s = (a, hs)" by fastforce
  have w: "aplic_wf a" using assms(1) s by simp
  note l = aplic_wfD [OF w]
  let ?set = "bits AND aplic_valid_bits a dm reg"
  let ?new = "?set AND NOT (ap_enabled a ! reg)"
  let ?a1 = "a\<lparr>ap_enabled := (ap_enabled a)[reg := ap_enabled a ! reg OR ?set]\<rparr>"
  let ?a2 = "?a1\<lparr>ap_pending := (ap_pending a)[reg := ap_pending a ! reg AND NOT ?new]\<rparr>"
  have own: "aplic_owns a dm n" if "n < 64" "n div 32 = reg" "bit ?set (n mod 32)" for n
    using own_bits [OF w assms(2) reg that] .
  have k1: "kept_outside dm a ?a1"
    using own src_bit_or [OF _ l(8), of _ reg ?set] by (auto simp: kept_outside_def src_view_def)
  have new: "bit ?new m \<Longrightarrow> bit ?set m" for m by (simp add: bit_simps)
  have "src_view ?a2 n = src_view ?a1 n" if "n < 64" "\<not> aplic_owns a dm n" for n
    using own [OF that(1)] new that(2) src_bit_clear [OF that(1) l(7), of reg ?new] by (auto simp: src_view_def)
  then have "kept_outside dm ?a1 ?a2" using kept_owns [OF k1] by (simp add: kept_outside_def)
  with k1 have k2: "kept_outside dm a ?a2" by (rule kept_trans)
  have w2: "aplic_wf ?a2" using w by (simp add: aplic_wf_def)
  have loop: "kept_outside dm a (fst (foreach_bit (\<lambda>b. aplic_pending_interrupt (shl (of_nat reg) 5 + ucast b)) (ap_pending a ! reg) (?a2, hs)))"
  proof (rule loop_kept)
    fix b and t :: "'a aplic_state"
    assume b: "b < 32" "bit (ap_pending a ! reg) b" and t: "aplic_wf (fst t)" "kept_outside dm a (fst t)"
    let ?n = "32 * reg + b"
    have n: "?n < 64" "?n div 32 = reg" "?n mod 32 = b" using reg b(1) by auto
    have "src_bit (ap_pending a) ?n" unfolding src_bit_def n(2,3) by (rule b(2))
    then have "aplic_owns (fst t) dm ?n \<or> src_bit (ap_pending (fst t)) ?n"
      using t(2) n(1) kept_owns [OF t(2)] by (auto simp: kept_outside_def src_view_def)
    then show "aplic_wf (fst (aplic_pending_interrupt (shl (of_nat reg) 5 + ucast (of_nat b :: u32)) t))
        \<and> kept_outside dm (fst t) (fst (aplic_pending_interrupt (shl (of_nat reg) 5 + ucast (of_nat b :: u32)) t))"
      unfolding src_of_reg [OF reg b(1)] using pending_interrupt_kept [OF t(1) n(1)] pending_interrupt_wf [OF t(1)] by blast
  qed (use w2 k2 in simp_all)
  show ?thesis unfolding s setie_write [OF reg] Let_def
    by (cases "?new = 0") (simp_all only: if_True if_False simp_thms fst_conv k1 loop)
qed (simp add: aplic_write_setie_def kept_refl split: prod.splits)

lemma target_kept:
  assumes "aplic_wf (fst s)" "dm < 2" "aplic_write_target dm reg val s = Some s'"
  shows "kept_outside dm (fst s) (fst s')"
proof -
  obtain a hs where s: "s = (a, hs)" by fastforce
  define n where "n = unat reg"
  have n: "n < 64" "reg = of_nat n" using assms(3) by (auto simp: n_def aplic_write_target_def Let_def split: prod.splits if_splits)
  have "kept_outside dm a (a\<lparr>ap_target := (ap_target a)[n := val]\<rparr>)" if "aplic_valid_src a dm reg"
    using that valid_src [of a dm n] assms(1,2) n s by (auto simp: kept_outside_def src_view_def nth_list_update aplic_wf_def)
  then show ?thesis using assms(3) kept_refl unfolding s aplic_write_target_def n_def by (auto split: if_splits)
qed

lemma sourcecfg_kept:
  assumes "aplic_wf (fst s)"
  shows "kept_outside 1 (fst s) (fst (aplic_write_sourcecfg 1 irq val s))"
proof (cases "irq - 1 < 63")
  case True
  then obtain n where n: "0 < n" "n < 64" "irq = of_nat n" by (auto simp: src_number)
  obtain a hs where s: "s = (a, hs)" by fastforce
  have w: "aplic_wf a" using assms s by simp
  have d: "delegate_src a 1 n val = a" using aplic_wfD(3) [OF w] by (simp add: delegate_src_def)
  have "kept_outside 1 a (configure_src a n cfg)" if "aplic_owns a 1 n" for cfg
    using that n(2) src_bit_set [OF n(2) aplic_wfD(6) [OF w]]
    by (auto simp: kept_outside_def src_view_def configure_src_def nth_list_update aplic_wfD [OF w])
  then show ?thesis unfolding s n(3) sourcecfg_write [OF n(1,2)] Let_def d using valid_src [OF w _ n(2), of 1] kept_refl by simp
qed (simp add: aplic_write_sourcecfg_def kept_refl split: prod.splits)

lemmas aplic_kept_writes = setipnum_kept setip_kept clrip_kept clrie_kept setie_kept

lemma aplic_mmio_write_kept:
  assumes w: "aplic_wf (fst s)" and r: "aplic_mmio_write 1 off data s = Some s'"
  shows "kept_outside 1 (fst s) (fst s')"
proof -
  obtain aplic hs where s: "s = (aplic, hs)" by fastforce
  have one: "(1 :: nat) < 2" by simp
  have "kept_outside 1 aplic (aplic\<lparr>ap_domain := (ap_domain aplic)[1 := (ap_domain aplic ! 1)\<lparr>ad_config := c\<rparr>]\<rparr>)" for c
    by (simp add: kept_outside_def src_view_def)
  moreover have "kept_outside 1 (fst s) (fst (aplic_write_clripnum 1 irq s))" "kept_outside 1 (fst s) (fst (aplic_write_clrienum 1 irq s))"
    "kept_outside 1 (fst s) (fst (aplic_write_setienum 1 irq s))" for irq
    unfolding aplic_write_clripnum_def aplic_write_clrienum_def aplic_write_setienum_def by (rule aplic_kept_writes [OF w one])+
  moreover note aplic_kept_writes [OF w one] target_kept [OF w one] sourcecfg_kept [OF w] kept_refl
  ultimately show ?thesis using r unfolding aplic_mmio_write_def Let_def s prod.case
    by (auto simp only: fst_conv option.inject split: if_split_asm)
qed

section \<open>Interrupts arrive\<close>

text \<open>A hart whose interrupt file takes messages, and a message that it has received.\<close>

definition listening :: "'d hart list \<Rightarrow> nat \<Rightarrow> bool \<Rightarrow> bool" where
  "listening hs i smode \<longleftrightarrow> i < length hs \<and> (case aia (hs ! i) of None \<Rightarrow> False | Some regs \<Rightarrow> eidelivery (regs smode) \<noteq> 0)"

definition received :: "'d hart list \<Rightarrow> nat \<Rightarrow> bool \<Rightarrow> u32 \<Rightarrow> bool" where
  "received hs i smode irq \<longleftrightarrow> (case aia (hs ! i) of None \<Rightarrow> False
     | Some regs \<Rightarrow> bit (eip (regs smode) (unat (shr irq 5))) (unat (irq AND 0x1F)))"

lemma aia_riscv_interrupt [simp]: "aia (riscv_interrupt h irq) = aia h"
  by (simp add: riscv_interrupt_def riscv_interrupt_set_def riscv_hart_notify_def rvvm_event_wake_def Let_def)

lemma send_aia_irq_aia:
  "aia (riscv_send_aia_irq h smode irq) = (case aia h of None \<Rightarrow> None
     | Some regs \<Rightarrow> Some (if irq \<noteq> 0 \<and> irq < RVVM_AIA_IRQ_LIMIT \<and> eidelivery (regs smode) \<noteq> 0
         then regs(smode := (regs smode)\<lparr>eip := (eip (regs smode))(unat (shr irq 5) := eip (regs smode) (unat (shr irq 5)) OR shl 1 (unat (irq AND 0x1F)))\<rparr>)
         else regs))"
  by (cases "aia h") (simp_all add: riscv_send_aia_irq_def aia_upd_def Let_def)

lemma gen_msi_listening: "listening hs i smode \<Longrightarrow> listening (aplic_gen_msi smode' t hs) i smode"
  by (cases "unat (shr t 18) = i") (auto simp: listening_def aplic_gen_msi_def with_hart_def send_aia_irq_aia Let_def split: option.splits)

lemma gen_msi_received: "i < length hs \<Longrightarrow> received hs i smode irq \<Longrightarrow> received (aplic_gen_msi smode' t hs) i smode irq"
  by (cases "unat (shr t 18) = i") (auto simp: received_def aplic_gen_msi_def with_hart_def send_aia_irq_aia Let_def bit_simps split: option.splits)

lemma gen_msi_arrives:
  assumes "listening hs (unat (shr t 18)) smode" "t AND 0x3FF \<noteq> 0" "t AND 0x3FF < RVVM_AIA_IRQ_LIMIT"
  shows "received (aplic_gen_msi smode t hs) (unat (shr t 18)) smode (t AND 0x3FF)"
proof -
  have "unat ((t AND 0x3FF) AND 0x1F) = unat (t AND 0x1F)" by (simp add: and.assoc)
  moreover have "unat (t AND 0x1F :: u32) < 32"
  proof -
    have "t AND 0x1F \<le> 0x1F" by (rule word_and_le1)
    then show ?thesis by (simp add: word_le_nat_alt)
  qed
  ultimately have "unat ((t AND 0x3FF) AND 0x1F) < 32" by simp
  then show ?thesis using assms
    by (auto simp: listening_def received_def aplic_gen_msi_def with_hart_def send_aia_irq_aia Let_def bit_simps split: option.splits)
qed

lemma foreach_bit_hits:
  assumes "n < 32" "bit w n" "P s"
    and step: "\<And>m s. \<lbrakk>m < 32; bit w m; P s\<rbrakk> \<Longrightarrow> P (f (of_nat m) s)"
    and hit: "\<And>s. P s \<Longrightarrow> Q (f (of_nat n) s)"
    and keep: "\<And>m s. \<lbrakk>m < 32; bit w m; P s; Q s\<rbrakk> \<Longrightarrow> Q (f (of_nat m) s)"
  shows "P (foreach_bit f w s) \<and> Q (foreach_bit f w s)"
proof -
  have after: "P s \<and> Q s \<Longrightarrow> P (fold (\<lambda>n. f (of_nat n)) ns s) \<and> Q (fold (\<lambda>n. f (of_nat n)) ns s)" if "set ns \<subseteq> {n. n < 32 \<and> bit w n}" for ns s
    using that step keep by (induction ns arbitrary: s) auto
  have "n \<in> set ns \<Longrightarrow> P (fold (\<lambda>n. f (of_nat n)) ns s) \<and> Q (fold (\<lambda>n. f (of_nat n)) ns s)" if "set ns \<subseteq> {n. n < 32 \<and> bit w n}" "P s" for ns s
    using that
  proof (induction ns arbitrary: s)
    case (Cons m ns)
    show ?case
    proof (cases "m = n")
      case True
      then show ?thesis using after [of ns "f (of_nat n) s"] Cons.prems step hit by simp
    next
      case False
      then show ?thesis using Cons.IH [of "f (of_nat m) s"] Cons.prems step by simp
    qed
  qed simp
  then show ?thesis unfolding foreach_bit_fold using assms(1-3) by (simp add: set_bits32_def)
qed

text \<open>The level at which a source is active.\<close>

definition becomes_active :: "aplic_dev \<Rightarrow> nat \<Rightarrow> bool \<Rightarrow> bool" where
  "becomes_active aplic n lvl \<longleftrightarrow> src_bit (ap_raised aplic) n \<noteq> lvl \<and> ap_source aplic ! n > APLIC_SOURCECFG_DETACHED
     \<and> lvl = (ap_source aplic ! n \<noteq> APLIC_SOURCECFG_EDGE_FALL \<and> ap_source aplic ! n \<noteq> APLIC_SOURCECFG_LVL_LOW)"

definition set_raised :: "aplic_dev \<Rightarrow> nat \<Rightarrow> bool \<Rightarrow> aplic_dev" where
  "set_raised aplic n lvl = aplic\<lparr>ap_raised := (ap_raised aplic)[n div 32 :=
     if lvl then ap_raised aplic ! (n div 32) OR shl 1 (n mod 32) else ap_raised aplic ! (n div 32) AND NOT (shl 1 (n mod 32))]\<rparr>"

lemma set_raised_wf: "aplic_wf aplic \<Longrightarrow> aplic_wf (set_raised aplic n lvl)"
  by (simp add: aplic_wf_def set_raised_def)

lemma set_raised_bits:
  assumes "aplic_wf aplic" "n < 64" "m < 64"
  shows "src_bit (ap_raised (set_raised aplic n lvl)) m \<longleftrightarrow> (if m = n then lvl else src_bit (ap_raised aplic) m)"
  using src_bit_set [OF assms(2) aplic_wfD(5) [OF assms(1)] assms(3)] by (cases lvl) (auto simp: set_raised_def)

lemma update_interrupt:
  assumes "aplic_wf aplic" "0 < n" "n < 64"
  shows "aplic_update_interrupt (of_nat n) (aplic, hs) =
    (if src_bit (ap_raised aplic) n = (ap_source aplic ! n \<noteq> 5 \<and> ap_source aplic ! n \<noteq> 7) \<and> ap_source aplic ! n > 1
     then aplic_pending_interrupt (of_nat n) (aplic, hs) else (aplic, hs))"
  using aplic_wfD(11) [OF assms(1,3)]
  by (auto simp: aplic_update_interrupt_def rectified_src [OF assms(3)] aplic_detached_src_def src_index(3) [OF assms(3)] not_le)

lemma set_irq_write:
  assumes w: "aplic_wf aplic" and n: "0 < n" "n < 64"
  shows "aplic_set_irq (of_nat n) lvl (aplic, hs) =
    (if becomes_active aplic n lvl then aplic_pending_interrupt (of_nat n) (set_raised aplic n lvl, hs) else (set_raised aplic n lvl, hs))"
proof -
  have g: "(of_nat n :: u32) - 1 < 63" using n wire_number by blast
  have u: "(ucast (of_nat n :: u32) :: u64) = of_nat n" using n(2) by (simp add: word_unat_eq_iff unsigned_ucast_eq unat_of_nat take_bit_nat_eq_self)
  have no: "NOT (ap_raised aplic ! (n div 32)) AND shl 1 (n mod 32) \<noteq> 0 \<longleftrightarrow> \<not> src_bit (ap_raised aplic) n"
    by (subst and_exp_nonzero) (simp_all add: src_bit_def bit_simps)
  have set: "aplic\<lparr>ap_raised := (ap_raised aplic)[n div 32 := ap_raised aplic ! (n div 32) OR shl 1 (n mod 32)]\<rparr> = set_raised aplic n True"
    "aplic\<lparr>ap_raised := (ap_raised aplic)[n div 32 := ap_raised aplic ! (n div 32) AND NOT (shl 1 (n mod 32))]\<rparr> = set_raised aplic n False"
    by (simp_all add: set_raised_def)
  have src: "ap_source (set_raised aplic n lvl) = ap_source aplic" by (simp add: set_raised_def)
  have "aplic_set_irq (of_nat n) lvl (aplic, hs) =
      (if src_bit (ap_raised aplic) n \<noteq> lvl then aplic_update_interrupt (of_nat n) (set_raised aplic n lvl, hs) else (set_raised aplic n lvl, hs))"
    unfolding aplic_set_irq_def prod.case Let_def irq_index [OF n(2)] u set no src_bit_mask [OF n(2)]
    using g by (cases lvl) simp_all
  then show ?thesis
    unfolding update_interrupt [OF set_raised_wf [OF w] n] src set_raised_bits [OF w n(2) n(2)] becomes_active_def by auto
qed

text \<open>A source that is forwarded reaches its hart, and other notifications do not undo that.\<close>

definition aplic_sends :: "aplic_dev \<Rightarrow> 'd hart list \<Rightarrow> nat \<Rightarrow> bool" where
  "aplic_sends aplic hs n \<longleftrightarrow> aplic_forwards aplic n
     \<and> listening hs (unat (shr (ap_target aplic ! n) 18)) (src_bit (ap_deleg aplic) n)
     \<and> ap_target aplic ! n AND 0x3FF \<noteq> 0 \<and> ap_target aplic ! n AND 0x3FF < RVVM_AIA_IRQ_LIMIT"

definition aplic_received :: "aplic_dev \<Rightarrow> 'd hart list \<Rightarrow> nat \<Rightarrow> bool" where
  "aplic_received aplic hs n \<longleftrightarrow>
     received hs (unat (shr (ap_target aplic ! n) 18)) (src_bit (ap_deleg aplic) n) (ap_target aplic ! n AND 0x3FF)"

lemma set_pending_simps [simp]:
  "aplic_sends (set_pending aplic m) hs n = aplic_sends aplic hs n" "aplic_received (set_pending aplic m) hs n = aplic_received aplic hs n"
  "aplic_forwards (set_pending aplic m) n = aplic_forwards aplic n"
  by (simp_all add: aplic_sends_def aplic_received_def aplic_forwards_def set_pending_def)

lemma sends_pending:
  assumes "0 < n" "n < 64" "aplic_sends aplic hs n"
  shows "\<exists>hs'. aplic_pending_interrupt (of_nat n) (aplic, hs) = (aplic, hs') \<and> aplic_received aplic hs' n"
  using assms gen_msi_arrives [of hs "ap_target aplic ! n"]
  by (simp add: pending_interrupt aplic_sends_def aplic_received_def)

definition sends_inv :: "nat \<Rightarrow> 'd aplic_state \<Rightarrow> bool" where
  "sends_inv n s \<longleftrightarrow> aplic_wf (fst s) \<and> aplic_sends (fst s) (snd s) n \<and> \<not> src_bit (ap_pending (fst s)) n"

lemma other_pending:
  assumes "m < 64" "n < 64" "sends_inv n (aplic, hs)"
  shows "sends_inv n (aplic_pending_interrupt (of_nat m) (aplic, hs))"
    "aplic_received aplic hs n \<Longrightarrow> (\<lambda>(a, h). aplic_received a h n) (aplic_pending_interrupt (of_nat m) (aplic, hs))"
proof -
  have w: "aplic_wf aplic" using assms(3) by (simp add: sends_inv_def)
  have z: "m = 0 \<Longrightarrow> aplic_pending_interrupt (of_nat m) (aplic, hs) = (aplic, hs)" by (simp add: aplic_pending_interrupt_def)
  have msi: "sends_inv n (aplic, aplic_gen_msi smode t hs)" for smode t
    using assms(3) gen_msi_listening by (auto simp: sends_inv_def aplic_sends_def)
  have ne: "m = n \<Longrightarrow> aplic_forwards aplic m" using assms(3) by (simp add: sends_inv_def aplic_sends_def)
  have sp: "m \<noteq> n \<Longrightarrow> sends_inv n (set_pending aplic m, hs)"
    using assms(3) set_pending_wf [OF w] set_pending_bits [OF w assms(1,2)] by (simp add: sends_inv_def)
  show "sends_inv n (aplic_pending_interrupt (of_nat m) (aplic, hs))"
    using z msi ne sp assms(1,3) pending_interrupt [of m aplic hs] by (cases "m = 0") auto
  have "unat (shr (ap_target aplic ! n) 18) < length hs" using assms(3) by (simp add: sends_inv_def aplic_sends_def listening_def)
  then show "(\<lambda>(a, h). aplic_received a h n) (aplic_pending_interrupt (of_nat m) (aplic, hs))" if "aplic_received aplic hs n"
    using z assms(1) pending_interrupt [of m aplic hs] gen_msi_received that by (cases "m = 0") (auto simp: aplic_received_def set_pending_def)
qed

lemma enable_sends:
  assumes w: "aplic_wf a" and n: "0 < n" "n < 64" and pe: "src_bit (ap_pending a) n" "\<not> src_bit (ap_enabled a) n"
    and snd: "aplic_sends (a\<lparr>ap_enabled := (ap_enabled a)[n div 32 := ap_enabled a ! (n div 32) OR shl 1 (n mod 32)]\<rparr>) hs n"
  shows "\<exists>a' hs'. aplic_write_setienum (of_bool (src_bit (ap_deleg a) n)) (of_nat n) (a, hs) = (a', hs')
    \<and> \<not> src_bit (ap_pending a') n \<and> aplic_received a' hs' n \<and> aplic_sends a' hs' n"
proof -
  let ?r = "n div 32" and ?b = "n mod 32" and ?dm = "of_bool (src_bit (ap_deleg a) n) :: nat"
  note l = aplic_wfD [OF w]
  have dm: "?dm < 2" and r: "?r < 2" and b: "?b < 32" using n by auto
  have nb: "32 * ?r + ?b = n" by simp
  have "bit (aplic_valid_bits a ?dm ?r) ?b" using valid_bits [OF w dm r b] by (simp add: nb aplic_owns_def)
  then have set: "shl 1 ?b AND aplic_valid_bits a ?dm ?r = shl 1 ?b" by (intro bit_word_eqI) (auto simp: bit_simps)
  have new: "shl 1 ?b AND NOT (ap_enabled a ! ?r) = shl 1 ?b"
    using pe(2) by (intro bit_word_eqI) (auto simp: bit_simps src_bit_def)
  let ?a1 = "a\<lparr>ap_enabled := (ap_enabled a)[?r := ap_enabled a ! ?r OR shl 1 ?b]\<rparr>"
  let ?a2 = "?a1\<lparr>ap_pending := (ap_pending a)[?r := ap_pending a ! ?r AND NOT (shl 1 ?b)]\<rparr>"
  have "shl (1 :: u32) ?b \<noteq> 0" using and_exp_nonzero [OF b, of "shl 1 ?b"] b by (auto simp: bit_simps)
  then have e: "aplic_write_setienum ?dm (of_nat n) (a, hs) =
      foreach_bit (\<lambda>b. aplic_pending_interrupt (shl (of_nat ?r) 5 + ucast b)) (ap_pending a ! ?r) (?a2, hs)"
    unfolding aplic_write_setienum_def src_index [OF n(2)] setie_write [OF r] Let_def set new by (simp only: if_False)
  have s2: "sends_inv n (?a2, hs)"
    using snd w src_bit_set(2) [OF n(2) l(7) n(2)] by (simp add: sends_inv_def aplic_sends_def aplic_forwards_def aplic_wf_def)
  let ?P = "sends_inv n" and ?Q = "\<lambda>(a, h). aplic_received a h n"
  let ?loop = "foreach_bit (\<lambda>b. aplic_pending_interrupt (shl (of_nat ?r) 5 + ucast b)) (ap_pending a ! ?r) (?a2, hs)"
  have "?P ?loop \<and> ?Q ?loop"
  proof (rule foreach_bit_hits [where P = ?P and Q = ?Q, OF b])
    show "?P (?a2, hs)" by (rule s2)
    show "bit (ap_pending a ! ?r) ?b" using pe(1) by (simp add: src_bit_def)
    fix m and t :: "'a aplic_state"
    obtain a' h' where t: "t = (a', h')" by fastforce
    have m64: "m < 32 \<Longrightarrow> 32 * ?r + m < 64" using r by linarith
    show "?P (aplic_pending_interrupt (shl (of_nat ?r) 5 + ucast (of_nat m :: u32)) t)" if "m < 32" "?P t"
      unfolding src_of_reg [OF r that(1)] t by (rule other_pending(1) [OF m64 n(2)]) (use that t in simp_all)
    show "?Q (aplic_pending_interrupt (shl (of_nat ?r) 5 + ucast (of_nat m :: u32)) t)" if "m < 32" "?P t" "?Q t"
      unfolding src_of_reg [OF r that(1)] t by (rule other_pending(2) [OF m64 n(2)]) (use that t in simp_all)
    show "?Q (aplic_pending_interrupt (shl (of_nat ?r) 5 + ucast (of_nat ?b :: u32)) t)" if "?P t"
      unfolding src_of_reg [OF r b] nb t using sends_pending [OF n, of a' h'] that t by (auto simp: sends_inv_def)
  qed
  then show ?thesis unfolding e by (cases ?loop) (auto simp: sends_inv_def)
qed

section \<open>Runs\<close>

datatype aplic_event = Bus nat u64 u32 | Wire u32 bool

primrec aplic_handle :: "aplic_event \<Rightarrow> 'd aplic_state \<Rightarrow> 'd aplic_state option" where
  "aplic_handle (Bus dm off data) s = aplic_mmio_write dm off data s"
| "aplic_handle (Wire irq lvl) s = Some (aplic_set_irq irq lvl s)"

primrec aplic_run :: "aplic_event list \<Rightarrow> 'd aplic_state \<Rightarrow> 'd aplic_state option" where
  "aplic_run [] s = Some s"
| "aplic_run (e # es) s = (case aplic_handle e s of None \<Rightarrow> None | Some s \<Rightarrow> aplic_run es s)"

definition aplic_bus :: "aplic_event \<Rightarrow> bool" where
  "aplic_bus e \<longleftrightarrow> (case e of Bus dm off data \<Rightarrow> dm < 2 | Wire irq lvl \<Rightarrow> True)"

definition aplic_beyond :: "aplic_event \<Rightarrow> bool" where
  "aplic_beyond e \<longleftrightarrow> (case e of Bus dm off data \<Rightarrow> 0x3100 \<le> off \<and> off < 0x4000 | Wire irq lvl \<Rightarrow> False)"

lemma set_irq_wf:
  assumes "aplic_wf (fst s)"
  shows "aplic_wf (fst (aplic_set_irq irq lvl s))"
proof (cases "irq - 1 < 63")
  case True
  then obtain n where n: "0 < n" "n < 64" "irq = of_nat n" by (auto simp: wire_number)
  obtain a hs where s: "s = (a, hs)" by fastforce
  have w: "aplic_wf a" using assms s by simp
  show ?thesis unfolding s n(3) set_irq_write [OF w n(1,2)] using set_raised_wf [OF w] by (auto intro: pending_interrupt_wf)
qed (use assms in \<open>simp add: aplic_set_irq_def split: prod.splits\<close>)

lemma aplic_handle_step:
  assumes "aplic_wf (fst s)" "aplic_bus e"
  shows "case aplic_handle e s of None \<Rightarrow> aplic_beyond e | Some s' \<Rightarrow> \<not> aplic_beyond e \<and> aplic_wf (fst s')"
proof (cases e)
  case (Bus dm off data)
  then show ?thesis using assms aplic_mmio_write_None [of dm off data s] aplic_mmio_write_wf [OF assms(1), of dm off data]
    by (auto simp: aplic_bus_def aplic_beyond_def split: option.splits)
next
  case (Wire irq lvl)
  then show ?thesis using set_irq_wf [OF assms(1)] by (simp add: aplic_beyond_def)
qed

lemma aplic_run_wf:
  "\<lbrakk>aplic_wf (fst s); list_all aplic_bus es\<rbrakk> \<Longrightarrow>
    case aplic_run es s of None \<Rightarrow> list_ex aplic_beyond es | Some s' \<Rightarrow> \<not> list_ex aplic_beyond es \<and> aplic_wf (fst s')"
proof (induction es arbitrary: s)
  case (Cons e es)
  have b: "aplic_bus e" "list_all aplic_bus es" using Cons.prems(2) by simp_all
  show ?case
  proof (cases "aplic_handle e s")
    case None
    then show ?thesis using aplic_handle_step [OF Cons.prems(1) b(1)] by simp
  next
    case (Some s')
    then have "\<not> aplic_beyond e" "aplic_wf (fst s')" using aplic_handle_step [OF Cons.prems(1) b(1)] by simp_all
    with Cons.IH [OF this(2) b(2)] Some show ?thesis by (cases "aplic_run es s'") simp_all
  qed
qed simp

lemma aplic_init_wf: "aplic_wf rvvm_riscv_aplic_init"
proof -
  have "list_all (\<lambda>n. \<not> src_bit (ap_invert rvvm_riscv_aplic_init) n \<and> ap_source rvvm_riscv_aplic_init ! n = 0) [0..<64]" by code_simp
  then show ?thesis by (auto simp: aplic_wf_def list_all_iff) (simp_all add: rvvm_riscv_aplic_init_def)
qed

text \<open>A hart with interrupt files that take and enable everything.\<close>

definition hart_files :: "unit hart" where
  "hart_files = (hart_zero ())\<lparr>aia := Some (\<lambda>_. \<lparr>eidelivery = 1, eithreshold = 0, eip = (\<lambda>_. 0), eie = (\<lambda>_. 0xFFFFFFFF)\<rparr>)\<rparr>"

section \<open>Properties\<close>



text \<open>
  C24. The supervisor domain is confined: whatever is written to its registers, the sources that machine
  mode has not delegated keep their state, their configuration and their target, and so do the
  delegation and the configuration of the machine domain.
\<close>

theorem aplic_isolation:
  assumes "aplic_wf (fst s)" and "aplic_mmio_write APLIC_SDOMAIN off data s = Some s'"
  shows "ap_deleg (fst s') = ap_deleg (fst s) \<and> ap_domain (fst s') ! APLIC_MDOMAIN = ap_domain (fst s) ! APLIC_MDOMAIN
    \<and> (\<forall>n < 64. \<not> src_bit (ap_deleg (fst s)) n \<longrightarrow> src_view (fst s') n = src_view (fst s) n)"
  using aplic_mmio_write_kept [OF assms] by (simp add: kept_outside_def aplic_owns_def)

theorem aplic_isolation_witness:
  "(case aplic_run [Bus 0 0x0004 4, Bus 0 0x3004 5] (rvvm_riscv_aplic_init, [] :: unit hart list) of
      None \<Rightarrow> False
    | Some s \<Rightarrow> (case aplic_mmio_write 1 0x3004 9 s of None \<Rightarrow> False | Some s' \<Rightarrow> src_view (fst s') 1 = src_view (fst s) 1))"
proof -
  let ?es = "[Bus 0 0x0004 4, Bus 0 0x3004 5]" and ?hs = "[] :: unit hart list"
  have e: "list_all aplic_bus ?es" "\<not> list_ex aplic_beyond ?es" by code_simp+
  obtain s where r: "aplic_run ?es (rvvm_riscv_aplic_init, ?hs) = Some s" and w: "aplic_wf (fst s)"
    using aplic_run_wf [OF _ e(1), of "(rvvm_riscv_aplic_init, ?hs)", unfolded fst_conv, OF aplic_init_wf] e(2)
    by (cases "aplic_run ?es (rvvm_riscv_aplic_init, ?hs)") (simp_all only: option.case simp_thms)
  have "\<not> src_bit (ap_deleg (fst (the (aplic_run ?es (rvvm_riscv_aplic_init, ?hs))))) 1" by code_simp
  then have d: "\<not> src_bit (ap_deleg (fst s)) 1" unfolding r by simp
  obtain s' where s': "aplic_mmio_write 1 0x3004 9 s = Some s'" using aplic_mmio_write_None [of 1 "0x3004" 9 s] by auto
  from aplic_isolation [OF w s'] d have "src_view (fst s') 1 = src_view (fst s) 1" by simp
  then show ?thesis by (simp only: r s' option.case)
qed




end
