(* ===== verification/MachineBus.thy ===== *)
theory MachineBus
  imports Mmu
begin

text \<open>
  The devices of a machine and its RAM, from \<^verbatim>\<open>src/core/rvvm.c\<close> and \<^verbatim>\<open>src/core/rvvm_region.c\<close>: where a
  device may be attached, what the devices may access of the RAM, and how messages reach the
  controllers that take them.  A locale states what a client of the address space relies on, and the
  attached devices implement it for the scan of the MMU.  Attaching a device pauses the harts, which is not part of the model.
\<close>

section \<open>Direct memory access\<close>

record rvvm_ram =
  ram_addr :: u64
  ram_size :: u64
  ram_data :: u64

definition rvvm_write_ram :: "rvvm_ram \<Rightarrow> host_mem \<Rightarrow> u64 \<Rightarrow> u8 list \<Rightarrow> host_mem option" where
  "rvvm_write_ram ram h dest src =
     (let sz = of_nat (length src) in
      if dest \<ge> ram_addr ram \<and> dest + sz \<le> ram_addr ram + ram_size ram
      then Some (mem_write h (ram_data ram + (dest - ram_addr ram)) src)
      else None)"

definition rvvm_read_ram :: "rvvm_ram \<Rightarrow> host_mem \<Rightarrow> u64 \<Rightarrow> u64 \<Rightarrow> u8 list option" where
  "rvvm_read_ram ram h src sz =
     (if src \<ge> ram_addr ram \<and> src + sz \<le> ram_addr ram + ram_size ram
      then Some (mem_read h (ram_data ram + (src - ram_addr ram)) (unat sz))
      else None)"

definition rvvm_get_dma_ptr :: "rvvm_ram \<Rightarrow> u64 \<Rightarrow> u64 \<Rightarrow> u64 option" where
  "rvvm_get_dma_ptr ram addr sz =
     (if addr \<ge> ram_addr ram \<and> addr + sz \<le> ram_addr ram + ram_size ram
      then Some (ram_data ram + (addr - ram_addr ram))
      else None)"

section \<open>Attaching devices\<close>

definition rvvm_mmio_overlap_check :: "u64 \<Rightarrow> u64 \<Rightarrow> u64 \<Rightarrow> u64 \<Rightarrow> bool" where
  "rvvm_mmio_overlap_check addr1 size1 addr2 size2 \<longleftrightarrow> addr1 < addr2 + size2 \<and> addr2 < addr1 + size1"

definition page_after :: "u64 \<Rightarrow> u64 \<Rightarrow> u64" where
  "page_after addr sz = (addr + sz + 0xFFF) AND NOT 0xFFF"

partial_function (option) zone_loop :: "rvvm_ram \<Rightarrow> 'd mmio_dev list \<Rightarrow> u64 \<Rightarrow> u64 \<Rightarrow> u64 option" where
  "zone_loop ram ds addr sz =
     (if rvvm_mmio_overlap_check addr sz (ram_addr ram) (ram_size ram)
      then zone_loop ram ds (page_after (ram_addr ram) (ram_size ram)) sz
      else
        (case find (\<lambda>dev. rvvm_mmio_overlap_check addr sz (md_addr dev) (md_size dev)) ds of
           Some dev \<Rightarrow> zone_loop ram ds (page_after (md_addr dev) (md_size dev)) sz
         | None \<Rightarrow> Some addr))"

declare zone_loop.simps [code]

definition rvvm_mmio_zone_auto :: "rvvm_ram \<Rightarrow> 'd mmio_dev list \<Rightarrow> u64 \<Rightarrow> u64 \<Rightarrow> u64 option" where
  "rvvm_mmio_zone_auto ram ds addr sz = (if sz \<noteq> 0 then zone_loop ram ds addr sz else Some addr)"

text \<open>The device that was attached, if it was accepted, and the devices of the machine.\<close>

definition rvvm_attach_mmio :: "rvvm_ram \<Rightarrow> 'd mmio_dev list \<Rightarrow> 'd mmio_dev \<Rightarrow> ('d mmio_dev option \<times> 'd mmio_dev list) option" where
  "rvvm_attach_mmio ram ds desc =
     (let min_op = (if md_min_op_size desc \<noteq> 0 then unat (ucast (bit_next_pow2 (of_nat (md_min_op_size desc))) :: u8) else 1);
          max_op = (if md_max_op_size desc \<noteq> 0 then unat (ucast (bit_next_pow2 (of_nat (md_max_op_size desc))) :: u8) else 8);
          dev = desc\<lparr>md_min_op_size := min_op, md_max_op_size := max_op\<rparr>
      in if min_op > max_op \<or> min_op > 8 then Some (None, ds)
         else
           (case rvvm_mmio_zone_auto ram ds (md_addr dev) (md_size dev) of
              None \<Rightarrow> None
            | Some addr \<Rightarrow> Some (if addr \<noteq> md_addr dev then (None, ds) else (Some dev, ds @ [dev]))))"

definition rvvm_mmio_none :: "'d mmio_handler" where
  "rvvm_mmio_none vm data off sz = (True, buf_fill data (replicate sz 0), vm)"

section \<open>Regions\<close>

text \<open>The handlers of a region do not fail; a read gets a buffer of zeroes.\<close>

type_synonym 'd reg_read = "'d hart \<Rightarrow> u8 list \<Rightarrow> nat \<Rightarrow> u64 \<Rightarrow> u8 list \<times> 'd hart"
type_synonym 'd reg_write = "'d hart \<Rightarrow> u8 list \<Rightarrow> nat \<Rightarrow> u64 \<Rightarrow> 'd hart"

record 'd rvvm_reg_type =
  rg_read :: "'d reg_read option"
  rg_write :: "'d reg_write option"
  rg_min_size :: u32
  rg_max_size :: u32

record 'd rvvm_reg_desc =
  rd_addr :: u64
  rd_size :: u64
  rd_mmap :: "u64 option"
  rd_type :: "'d rvvm_reg_type option"
  rd_pio :: bool
  rd_fix :: bool
  rd_rom :: bool

definition rvvm_region_legacy_read :: "'d rvvm_reg_desc \<Rightarrow> 'd mmio_handler" where
  "rvvm_region_legacy_read desc vm data off sz =
     (let data = buf_fill data (replicate sz 0)
      in case rd_type desc of
           None \<Rightarrow> (True, data, vm)
         | Some type \<Rightarrow>
             (case rg_read type of
                None \<Rightarrow> (True, data, vm)
              | Some f \<Rightarrow> let (data, vm) = f vm data sz off in (True, data, vm)))"

definition rvvm_region_legacy_write :: "'d rvvm_reg_desc \<Rightarrow> 'd mmio_handler" where
  "rvvm_region_legacy_write desc vm data off sz =
     (case rd_type desc of
        None \<Rightarrow> (True, data, vm)
      | Some type \<Rightarrow>
          (case rg_write type of
             None \<Rightarrow> (True, data, vm)
           | Some f \<Rightarrow> (True, data, f vm data sz off)))"

definition rvvm_region_init :: "rvvm_ram \<Rightarrow> 'd mmio_dev list \<Rightarrow> 'd rvvm_reg_desc \<Rightarrow> ('d mmio_dev option \<times> 'd mmio_dev list) option" where
  "rvvm_region_init ram ds desc =
     (if \<not> rd_pio desc then
        (case (if rd_fix desc then Some (rd_addr desc) else rvvm_mmio_zone_auto ram ds (rd_addr desc) (rd_size desc)) of
           None \<Rightarrow> None
         | Some addr \<Rightarrow>
             rvvm_attach_mmio ram ds
               \<lparr>md_addr = addr, md_size = rd_size desc, md_read = Some (rvvm_region_legacy_read (desc\<lparr>rd_addr := addr\<rparr>)),
                md_write = (if rd_rom desc then None else Some (rvvm_region_legacy_write (desc\<lparr>rd_addr := addr\<rparr>))),
                md_mapping = rd_mmap desc,
                md_min_op_size = (case rd_type desc of Some type \<Rightarrow> unat (ucast (rg_min_size type) :: u8) | None \<Rightarrow> 0),
                md_max_op_size = (case rd_type desc of Some type \<Rightarrow> unat (ucast (rg_max_size type) :: u8) | None \<Rightarrow> 0)\<rparr>)
      else Some (None, ds))"

section \<open>Message-signalled interrupts\<close>

text \<open>
  A message is a 4-byte write in little-endian order to the first target at its address.  The
  handler is called without a test, so a target without one ends the process: the value \<^const>\<open>None\<close>.
\<close>

primrec send_msi :: "'d mmio_dev list \<Rightarrow> u64 \<Rightarrow> u8 list \<Rightarrow> 'd hart \<Rightarrow> (bool \<times> 'd hart) option" where
  "send_msi [] addr le vm = Some (False, vm)"
| "send_msi (mmio # targets) addr le vm =
     (if md_addr mmio \<le> addr \<and> addr < md_addr mmio + md_size mmio then
        (case md_write mmio of
           Some f \<Rightarrow> let (ok, _, vm) = f vm le (addr - md_addr mmio) 4 in Some (ok, vm)
         | None \<Rightarrow> None)
      else send_msi targets addr le vm)"

definition rvvm_send_msi_irq :: "'d mmio_dev list \<Rightarrow> u64 \<Rightarrow> u32 \<Rightarrow> 'd hart \<Rightarrow> (bool \<times> 'd hart) option" where
  "rvvm_send_msi_irq targets addr val vm =
     (if addr AND 3 = 0 then send_msi targets addr (map (\<lambda>i. ucast (shr val (8 * i))) [0..<4]) vm else Some (False, vm))"

text \<open>Whether the target was accepted, the devices of the machine and its targets.\<close>

definition rvvm_attach_msi_target :: "rvvm_ram \<Rightarrow> 'd mmio_dev list \<Rightarrow> 'd mmio_dev list \<Rightarrow> 'd mmio_dev
    \<Rightarrow> (bool \<times> 'd mmio_dev list \<times> 'd mmio_dev list) option" where
  "rvvm_attach_msi_target ram ds targets desc =
     (if md_min_op_size desc \<le> 4 \<and> md_max_op_size desc \<ge> 4 then
        (case rvvm_attach_mmio ram ds desc of
           None \<Rightarrow> None
         | Some (Some mmio, ds) \<Rightarrow> Some (True, ds, targets @ [mmio])
         | Some (None, ds) \<Rightarrow> Some (False, ds, targets))
      else Some (False, ds, targets))"

section \<open>What a device may access of the RAM\<close>

text \<open>The bytes of a range, and the bytes of the RAM, without wrap-around.\<close>

definition in_ram :: "rvvm_ram \<Rightarrow> u64 \<Rightarrow> nat \<Rightarrow> bool" where
  "in_ram ram addr n \<longleftrightarrow> unat (ram_addr ram) \<le> unat addr \<and> unat addr + n \<le> unat (ram_addr ram) + unat (ram_size ram)"

definition ram_wf :: "rvvm_ram \<Rightarrow> bool" where
  "ram_wf ram \<longleftrightarrow> unat (ram_addr ram) + unat (ram_size ram) < 2 ^ 64 \<and> unat (ram_data ram) + unat (ram_size ram) \<le> 2 ^ 64"

lemma unat_of_nat_64: "n < 2 ^ 64 \<Longrightarrow> unat (of_nat n :: u64) = n"
  by (simp add: unat_of_nat take_bit_nat_eq_self)

lemma ram_guard:
  assumes "ram_wf ram" "unat addr + unat sz < 2 ^ 64"
  shows "addr \<ge> ram_addr ram \<and> addr + sz \<le> ram_addr ram + ram_size ram \<longleftrightarrow> in_ram ram addr (unat sz)"
  using assms by (simp add: ram_wf_def in_ram_def word_le_nat_alt unat_add_64)

lemma mem_write_length_ptr: "mem_write h p bs a = (if unat (a - p) < length bs then bs ! unat (a - p) else h a)"
  if "length bs \<le> 2 ^ 64"
  using that
proof (induction bs arbitrary: h p)
  case (Cons b bs)
  have IH: "mem_write (h(p := b)) (p + 1) bs a = (if unat (a - (p + 1)) < length bs then bs ! unat (a - (p + 1)) else (h(p := b)) a)"
    using Cons by simp
  show ?case
  proof (cases "a = p")
    case True
    have "unat (a - (p + 1)) = 2 ^ 64 - 1" using True by (simp add: unsigned_minus_1_eq_mask mask_eq_exp_minus_1)
    then show ?thesis using True Cons.prems IH by simp
  next
    case False
    then have nz: "a - p \<noteq> 0" by simp
    then have "unat (a - p - 1) = unat (a - p) - 1" "0 < unat (a - p)"
      by (simp_all add: unat_minus_one unat_gt_0)
    then have "unat (a - (p + 1)) = unat (a - p) - 1" "0 < unat (a - p)" by (simp_all add: algebra_simps)
    then show ?thesis using False IH by (auto simp: nth_Cons' )
  qed
qed simp

lemma mem_read_write: "length bs < 2 ^ 64 \<Longrightarrow> mem_read (mem_write h p bs) p (length bs) = bs"
  by (rule nth_equalityI) (simp_all add: mem_read_def mem_write_length_ptr unat_of_nat_64)

text \<open>The bytes of the host that hold the RAM.\<close>

definition in_buffer :: "rvvm_ram \<Rightarrow> u64 \<Rightarrow> bool" where
  "in_buffer ram p \<longleftrightarrow> p - ram_data ram < ram_size ram"

lemma in_ram_buffer:
  assumes "in_ram ram addr n" "i < n" "n < 2 ^ 64"
  shows "in_buffer ram (ram_data ram + (addr - ram_addr ram) + of_nat i)"
proof -
  have "unat (addr - ram_addr ram) = unat addr - unat (ram_addr ram)"
    using assms by (simp add: in_ram_def word_le_nat_alt unat_sub)
  moreover have "unat (of_nat i :: u64) = i" using assms by (simp add: unat_of_nat_64)
  moreover have "unat addr - unat (ram_addr ram) + i < unat (ram_size ram)" using assms unfolding in_ram_def by linarith
  moreover have "unat (ram_size ram) < 2 ^ 64" using unsigned_less [of "ram_size ram", where 'a = nat] by simp
  ultimately have "unat (addr - ram_addr ram + of_nat i) < unat (ram_size ram)" by (subst unat_add_64) simp_all
  then show ?thesis by (simp add: in_buffer_def word_less_nat_alt add.assoc)
qed

lemma write_ram_changes:
  assumes "in_ram ram addr (length src)" "length src < 2 ^ 64"
    and "mem_write h (ram_data ram + (addr - ram_addr ram)) src a \<noteq> h a"
  shows "in_buffer ram a"
proof -
  define p where "p = ram_data ram + (addr - ram_addr ram)"
  have "unat (a - p) < length src" using assms by (simp add: mem_write_length_ptr p_def split: if_splits)
  then have "in_buffer ram (p + of_nat (unat (a - p)))" unfolding p_def using assms(1,2) by (intro in_ram_buffer)
  then show ?thesis by simp
qed

text \<open>
  C27.  Device memory accesses stay in the RAM.  A range whose end does not wrap around is served
  exactly when it lies in the RAM; then a write changes no byte of the host outside the RAM's buffer, reading the
  range again returns what was written, and a pointer that a device gets is good for the whole
  range.  Otherwise the three functions refuse.
\<close>

theorem dma_confined:
  assumes "ram_wf ram" "unat addr + length src < 2 ^ 64" "sz = of_nat (length src)"
  shows "if in_ram ram addr (length src) then
           (\<exists>h' p. rvvm_write_ram ram h addr src = Some h' \<and> rvvm_read_ram ram h' addr sz = Some src
              \<and> (\<forall>a. h' a \<noteq> h a \<longrightarrow> in_buffer ram a)
              \<and> rvvm_get_dma_ptr ram addr sz = Some p \<and> (\<forall>i < length src. in_buffer ram (p + of_nat i)))
         else rvvm_write_ram ram h addr src = None \<and> rvvm_read_ram ram h addr sz = None \<and> rvvm_get_dma_ptr ram addr sz = None"
proof -
  have len: "length src < 2 ^ 64" using assms(2) by simp
  then have sz: "unat sz = length src" using assms(3) by (simp add: unat_of_nat_64)
  with assms have guard: "addr \<ge> ram_addr ram \<and> addr + sz \<le> ram_addr ram + ram_size ram \<longleftrightarrow> in_ram ram addr (length src)"
    using ram_guard [of ram addr sz] by simp
  show ?thesis
    using guard in_ram_buffer [of ram addr "length src", OF _ _ len] write_ram_changes [OF _ len, of ram addr h]
      mem_read_write [OF len] assms(3)
    by (auto simp: rvvm_write_ram_def rvvm_read_ram_def rvvm_get_dma_ptr_def Let_def sz unat_of_nat_64 [OF len])
qed

definition ram_example :: rvvm_ram where
  "ram_example = \<lparr>ram_addr = 0x80000000, ram_size = 0x1000, ram_data = 0x7F0000000000\<rparr>"

theorem dma_confined_witness:
  "\<exists>h' p. rvvm_write_ram ram_example (\<lambda>_. 0) 0x80000FFC [1, 2, 3, 4] = Some h' \<and> rvvm_read_ram ram_example h' 0x80000FFC 4 = Some [1, 2, 3, 4]
     \<and> rvvm_get_dma_ptr ram_example 0x80000FFC 4 = Some p"
proof -
  have "ram_wf ram_example" "in_ram ram_example 0x80000FFC (length [1, 2, 3, 4 :: u8])"
    by (simp_all add: ram_wf_def ram_example_def in_ram_def)
  then show ?thesis
    using dma_confined [of ram_example "0x80000FFC" "[1, 2, 3, 4]" 4 "\<lambda>_. 0"] by (simp only: if_True) auto
qed

text \<open>
  The end of the range is computed modulo \<open>2\<^sup>6\<^sup>4\<close>, so a range that runs up to the top of the address
  space passes the test, and the pointer that the device gets lies outside of the buffer.
\<close>

lemma dma_wraps:
  assumes "ram_wf ram" "unat (ram_addr ram) + unat (ram_size ram) \<le> unat addr"
    and "2 ^ 64 \<le> unat addr + unat sz" "unat addr + unat sz \<le> 2 ^ 64 + unat (ram_addr ram)"
  shows "rvvm_get_dma_ptr ram addr sz = Some (ram_data ram + (addr - ram_addr ram))"
    and "\<not> in_buffer ram (ram_data ram + (addr - ram_addr ram))"
proof -
  have "unat (addr + sz) = unat addr + unat sz - 2 ^ 64"
    using assms(3) unsigned_less [of addr, where 'a = nat] unsigned_less [of sz, where 'a = nat]
    by (simp add: unat_word_ariths mod_if)
  then have "addr + sz \<le> ram_addr ram + ram_size ram" "addr \<ge> ram_addr ram"
    using assms by (simp_all add: word_le_nat_alt ram_wf_def unat_add_64)
  then show "rvvm_get_dma_ptr ram addr sz = Some (ram_data ram + (addr - ram_addr ram))"
    by (simp add: rvvm_get_dma_ptr_def)
  show "\<not> in_buffer ram (ram_data ram + (addr - ram_addr ram))"
    using assms(2) by (simp add: in_buffer_def word_less_nat_alt word_le_nat_alt unat_sub)
qed

lemma dma_wraps_example:
  "rvvm_get_dma_ptr ram_example 0xFFFFFFFFFFFFF000 0x1000 = Some 0x7EFF7FFFF000"
  by code_simp

section \<open>Finding a free zone\<close>

text \<open>The RAM and the devices are tested in the same way, in this order.\<close>

definition regions :: "rvvm_ram \<Rightarrow> 'd mmio_dev list \<Rightarrow> (u64 \<times> u64) list" where
  "regions ram ds = (ram_addr ram, ram_size ram) # map (\<lambda>dev. (md_addr dev, md_size dev)) ds"

definition zone_free :: "rvvm_ram \<Rightarrow> 'd mmio_dev list \<Rightarrow> u64 \<Rightarrow> u64 \<Rightarrow> bool" where
  "zone_free ram ds addr sz \<longleftrightarrow> (\<forall>(a, s) \<in> set (regions ram ds). \<not> rvvm_mmio_overlap_check addr sz a s)"

lemma find_map: "find P (map f xs) = map_option f (find (P \<circ> f) xs)"
  by (induction xs) simp_all

lemma zone_loop_step:
  "zone_loop ram ds addr sz =
     (case find (\<lambda>(a, s). rvvm_mmio_overlap_check addr sz a s) (regions ram ds) of
        Some (a, s) \<Rightarrow> zone_loop ram ds (page_after a s) sz
      | None \<Rightarrow> Some addr)"
  by (subst zone_loop.simps) (simp add: regions_def find_map comp_def split: option.split)

lemma zone_free_find: "zone_free ram ds addr sz \<longleftrightarrow> find (\<lambda>(a, s). rvvm_mmio_overlap_check addr sz a s) (regions ram ds) = None"
  by (auto simp: zone_free_def find_None_iff)

lemma zone_loop_stays: "zone_free ram ds addr sz \<Longrightarrow> zone_loop ram ds addr sz = Some addr"
  by (subst zone_loop_step) (simp add: zone_free_find)

lemma zone_loop_free: "zone_loop ram ds addr sz = Some r \<Longrightarrow> zone_free ram ds r sz"
proof (induction rule: zone_loop.raw_induct [rotated 1, consumes 1])
  case (1 loop ram ds addr sz r)
  show ?case
  proof (cases "rvvm_mmio_overlap_check addr sz (ram_addr ram) (ram_size ram)")
    case True
    with 1 show ?thesis by simp
  next
    case False
    show ?thesis
    proof (cases "find (\<lambda>dev. rvvm_mmio_overlap_check addr sz (md_addr dev) (md_size dev)) ds")
      case None
      with 1(2) False have "r = addr" by simp
      with None False show ?thesis by (simp add: zone_free_find regions_def find_map comp_def)
    next
      case (Some dev)
      with 1 False show ?thesis by simp
    qed
  qed
qed

lemma page_after_ge:
  assumes "unat a + unat s + 0xFFF < 2 ^ 64"
  shows "unat a + unat s \<le> unat (page_after a s)" "unat (page_after a s) \<le> unat a + unat s + 0xFFF"
    and "page_after a s AND 0xFFF = 0"
proof -
  define x where "x = a + s + 0xFFF"
  have "unat (a + s) = unat a + unat s" using assms by (simp add: unat_add_64)
  then have x: "unat x = unat a + unat s + 0xFFF" using assms unat_add_64 [of "a + s" "0xFFF"] by (simp add: x_def)
  have "(x AND NOT (mask 12)) + (x AND mask 12) = (x AND NOT (mask 12)) OR (x AND mask 12)"
    by (rule disjunctive_add_eq_or) (rule word_eqI_64, simp add: bit_simps)
  also have "\<dots> = x" by (rule word_eqI_64) (auto simp: bit_simps)
  finally have "x AND NOT (mask 12) = x - (x AND mask 12)" by (simp add: eq_diff_eq)
  moreover have "unat (x AND mask 12) = unat x mod 4096"
    by (simp add: unat_mod_distrib take_bit_eq_mod flip: take_bit_eq_mask)
  moreover have page: "page_after a s = x AND NOT (mask 12)" by (simp add: page_after_def x_def mask_numeral)
  ultimately have "unat (page_after a s) = unat x - unat x mod 4096"
    by (simp add: unat_sub word_le_nat_alt)
  then show "unat a + unat s \<le> unat (page_after a s)" "unat (page_after a s) \<le> unat a + unat s + 0xFFF"
    using mod_less_divisor [of 4096 "unat x"] x by linarith+
  have "page_after a s AND mask 12 = 0" unfolding page by (rule word_eqI_64) (simp add: bit_simps)
  then show "page_after a s AND 0xFFF = 0" by (simp add: mask_numeral)
qed

text \<open>
  Each round leaves the zone that it found occupied behind, so fewer of them end above the address.
  This needs room above the highest zone, so that the next page does not wrap around.
\<close>

definition zones_low :: "rvvm_ram \<Rightarrow> 'd mmio_dev list \<Rightarrow> u64 \<Rightarrow> bool" where
  "zones_low ram ds sz \<longleftrightarrow> (\<forall>(a, s) \<in> set (regions ram ds). unat a + unat s + 0xFFF + unat sz < 2 ^ 64)"

definition zones_above :: "rvvm_ram \<Rightarrow> 'd mmio_dev list \<Rightarrow> u64 \<Rightarrow> nat" where
  "zones_above ram ds addr = length (filter (\<lambda>(a, s). addr < a + s) (regions ram ds))"

lemma length_filter_mono: "(\<And>x. x \<in> set xs \<Longrightarrow> P x \<Longrightarrow> Q x) \<Longrightarrow> length (filter P xs) \<le> length (filter Q xs)"
  by (induction xs) auto

lemma length_filter_less_filter:
  assumes "x \<in> set xs" "Q x" "\<not> P x" "\<And>x. x \<in> set xs \<Longrightarrow> P x \<Longrightarrow> Q x"
  shows "length (filter P xs) < length (filter Q xs)"
  using assms
proof (induction xs)
  case (Cons y ys)
  show ?case
  proof (cases "x = y")
    case True
    with Cons.prems length_filter_mono [of ys P Q] show ?thesis by simp
  next
    case False
    with Cons have "length (filter P ys) < length (filter Q ys)" by auto
    with Cons.prems(4) [of y] show ?thesis by auto
  qed
qed simp

lemma zone_round:
  assumes "zones_low ram ds sz" "(a, s) \<in> set (regions ram ds)" "rvvm_mmio_overlap_check addr sz a s"
  shows "zones_above ram ds (page_after a s) < zones_above ram ds addr" "addr \<le> page_after a s"
    and "page_after a s AND 0xFFF = 0" "unat (page_after a s) + unat sz < 2 ^ 64"
proof -
  have low: "unat a + unat s + 0xFFF + unat sz < 2 ^ 64" using assms(1,2) by (auto simp: zones_low_def)
  note page = page_after_ge [of a s]
  have ge: "a + s \<le> page_after a s" and lt: "addr < a + s"
    using page low assms(3) by (simp_all add: word_le_nat_alt unat_add_64 rvvm_mmio_overlap_check_def)
  then show "addr \<le> page_after a s" by (meson less_imp_le order_trans)
  show "zones_above ram ds (page_after a s) < zones_above ram ds addr"
    unfolding zones_above_def
    by (rule length_filter_less_filter [OF assms(2)]) (use ge lt in \<open>auto simp: not_less dest: order.strict_trans2\<close>)
  show "page_after a s AND 0xFFF = 0" "unat (page_after a s) + unat sz < 2 ^ 64"
    using page low by simp_all
qed

lemma zone_loop_returns:
  assumes "zones_low ram ds sz"
  shows "\<exists>r. zone_loop ram ds addr sz = Some r \<and> addr \<le> r \<and> (r = addr \<or> r AND 0xFFF = 0 \<and> unat r + unat sz < 2 ^ 64)"
proof (induction "zones_above ram ds addr" arbitrary: addr rule: less_induct)
  case less
  show ?case
  proof (cases "find (\<lambda>(a, s). rvvm_mmio_overlap_check addr sz a s) (regions ram ds)")
    case None
    then show ?thesis by (subst zone_loop_step) simp
  next
    case (Some z)
    obtain a s where z: "z = (a, s)" by fastforce
    with Some have "(a, s) \<in> set (regions ram ds)" "rvvm_mmio_overlap_check addr sz a s"
      by (auto simp: find_Some_iff in_set_conv_nth)
    note round = zone_round [OF assms this]
    from less [OF round(1)] obtain r where r: "zone_loop ram ds (page_after a s) sz = Some r" "page_after a s \<le> r"
      "r = page_after a s \<or> r AND 0xFFF = 0 \<and> unat r + unat sz < 2 ^ 64" by blast
    have "zone_loop ram ds addr sz = Some r" using Some z r(1) by (subst zone_loop_step) simp
    then show ?thesis using r round by (auto intro: order_trans)
  qed
qed


definition dev_example :: "u64 \<Rightarrow> u64 \<Rightarrow> unit mmio_dev" where
  "dev_example addr sz = \<lparr>md_addr = addr, md_size = sz, md_read = Some rvvm_mmio_none, md_write = Some rvvm_mmio_none,
     md_mapping = None, md_min_op_size = 0, md_max_op_size = 0\<rparr>"


section \<open>The address space\<close>

text \<open>
  What an address space promises: an address of a new region is answered by that region, the other
  addresses as before, and a region is refused when one of its addresses is taken.
\<close>

fun attach_seq :: "('s \<Rightarrow> 'r \<Rightarrow> 's option) \<Rightarrow> 's \<Rightarrow> 'r list \<Rightarrow> 's option" where
  "attach_seq attach s [] = Some s"
| "attach_seq attach s (r # rs) = (case attach s r of Some s \<Rightarrow> attach_seq attach s rs | None \<Rightarrow> None)"

locale address_space =
  fixes attach :: "'s \<Rightarrow> 'r \<Rightarrow> 's option"
    and covers :: "'r \<Rightarrow> 'a \<Rightarrow> bool"
    and taken :: "'s \<Rightarrow> 'a \<Rightarrow> bool"
    and answer :: "'s \<Rightarrow> 'a \<Rightarrow> 'v"
    and own :: "'r \<Rightarrow> 'a \<Rightarrow> 'v"
  assumes attach_own: "attach s r = Some s' \<Longrightarrow> covers r a \<Longrightarrow> answer s' a = own r a"
    and attach_frame: "attach s r = Some s' \<Longrightarrow> \<not> covers r a \<Longrightarrow> answer s' a = answer s a"
    and attach_taken: "attach s r = Some s' \<Longrightarrow> taken s' a \<longleftrightarrow> taken s a \<or> covers r a"
    and attach_apart: "attach s r = Some s' \<Longrightarrow> covers r a \<Longrightarrow> \<not> taken s a"
begin

lemma seq_apart: "attach_seq attach s rs = Some s' \<Longrightarrow> r \<in> set rs \<Longrightarrow> covers r a \<Longrightarrow> \<not> taken s a"
proof (induction rs arbitrary: s)
  case (Cons q rs)
  then obtain t where t: "attach s q = Some t" "attach_seq attach t rs = Some s'" by (auto split: option.splits)
  show ?case
  proof (cases "r = q")
    case True
    with Cons.prems t show ?thesis by (auto dest: attach_apart)
  next
    case False
    with Cons.IH [OF t(2)] Cons.prems have "\<not> taken t a" by simp
    then show ?thesis using attach_taken [OF t(1)] by simp
  qed
qed simp

lemma seq_frame: "attach_seq attach s rs = Some s' \<Longrightarrow> \<forall>r \<in> set rs. \<not> covers r a \<Longrightarrow> answer s' a = answer s a"
proof (induction rs arbitrary: s)
  case (Cons q rs)
  then obtain t where t: "attach s q = Some t" "attach_seq attach t rs = Some s'" by (auto split: option.splits)
  then show ?case using Cons attach_frame [OF t(1), of a] by simp
qed simp

lemma seq_own:
  assumes "attach_seq attach s rs = Some s'" "i < length rs" "covers (rs ! i) a"
  shows "answer s' a = own (rs ! i) a \<and> (\<forall>j < length rs. covers (rs ! j) a \<longrightarrow> j = i)"
  using assms
proof (induction rs arbitrary: s i)
  case (Cons q rs)
  then obtain t where t: "attach s q = Some t" "attach_seq attach t rs = Some s'" by (auto split: option.splits)
  show ?case
  proof (cases i)
    case 0
    then have "covers q a" using Cons.prems by simp
    then have "taken t a" using attach_taken [OF t(1)] by simp
    then have free: "\<forall>r \<in> set rs. \<not> covers r a" using seq_apart [OF t(2)] by blast
    then have "answer s' a = own q a" using seq_frame [OF t(2)] attach_own [OF t(1) \<open>covers q a\<close>] by simp
    with free 0 show ?thesis by (auto simp: nth_Cons' dest!: bspec [OF _ nth_mem])
  next
    case (Suc k)
    then have k: "k < length rs" "covers (rs ! k) a" using Cons.prems by simp_all
    then have "\<not> taken t a" using seq_apart [OF t(2)] nth_mem by blast
    then have "\<not> covers q a" using attach_taken [OF t(1)] by simp
    with Cons.IH [OF t(2) k] Suc show ?thesis by (auto simp: less_Suc_eq_0_disj)
  qed
qed simp

end

text \<open>A device at an address, as the scan of the MMU sees it.\<close>

definition dev_covers :: "'d mmio_dev \<Rightarrow> u64 \<Rightarrow> bool" where
  "dev_covers dev pa \<longleftrightarrow> md_addr dev \<le> pa \<and> pa < md_addr dev + md_size dev"

definition bus_taken :: "rvvm_ram \<Rightarrow> 'd mmio_dev list \<Rightarrow> u64 \<Rightarrow> bool" where
  "bus_taken ram ds pa \<longleftrightarrow> ram_addr ram \<le> pa \<and> pa < ram_addr ram + ram_size ram \<or> (\<exists>dev \<in> set ds. dev_covers dev pa)"

definition attach_dev :: "rvvm_ram \<Rightarrow> 'd mmio_dev list \<Rightarrow> 'd mmio_dev \<Rightarrow> 'd mmio_dev list option" where
  "attach_dev ram ds desc = (case rvvm_attach_mmio ram ds desc of Some (Some dev, ds') \<Rightarrow> Some ds' | _ \<Rightarrow> None)"

definition op_size :: "nat \<Rightarrow> nat \<Rightarrow> nat" where
  "op_size n d = (if n \<noteq> 0 then unat (ucast (bit_next_pow2 (of_nat n)) :: u8) else d)"

definition attached :: "'d mmio_dev \<Rightarrow> 'd mmio_dev" where
  "attached desc = desc\<lparr>md_min_op_size := op_size (md_min_op_size desc) 1, md_max_op_size := op_size (md_max_op_size desc) 8\<rparr>"

lemma attached_simps [simp]: "md_addr (attached desc) = md_addr desc" "md_size (attached desc) = md_size desc"
  "md_write (attached desc) = md_write desc" "md_mapping (attached desc) = md_mapping desc"
  "dev_covers (attached desc) = dev_covers desc"
  by (auto simp: attached_def dev_covers_def)

lemma attach_mmio_Some:
  assumes "rvvm_attach_mmio ram ds desc = Some (Some dev, ds')"
  shows "dev = attached desc" "ds' = ds @ [dev]" "md_size desc = 0 \<or> zone_free ram ds (md_addr desc) (md_size desc)"
    and "md_min_op_size dev \<le> md_max_op_size dev" "md_min_op_size dev \<le> 8"
  using assms zone_loop_free [of ram ds "md_addr desc" "md_size desc" "md_addr desc"]
  by (auto simp: rvvm_attach_mmio_def rvvm_mmio_zone_auto_def attached_def op_size_def Let_def split: if_splits option.splits)

lemma attach_dev_Some: "attach_dev ram ds desc = Some ds' \<Longrightarrow> ds' = ds @ [attached desc]
    \<and> (md_size desc = 0 \<or> zone_free ram ds (md_addr desc) (md_size desc))"
  using attach_mmio_Some(1-3) [of ram ds desc] by (auto simp: attach_dev_def split: option.splits)

lemma attach_dev_free:
  assumes "md_size desc = 0 \<or> zone_free ram ds (md_addr desc) (md_size desc)"
    and "md_min_op_size (attached desc) \<le> md_max_op_size (attached desc)" "md_min_op_size (attached desc) \<le> 8"
  shows "attach_dev ram ds desc = Some (ds @ [attached desc])"
  using assms zone_loop_stays [of ram ds "md_addr desc" "md_size desc"]
  by (auto simp: attach_dev_def rvvm_attach_mmio_def rvvm_mmio_zone_auto_def attached_def op_size_def Let_def)

lemma zone_free_apart: "zone_free ram ds (md_addr desc) (md_size desc) \<Longrightarrow> dev_covers desc pa \<Longrightarrow> \<not> bus_taken ram ds pa"
  by (auto simp: zone_free_def regions_def bus_taken_def dev_covers_def rvvm_mmio_overlap_check_def
      dest: order.strict_trans1 order.strict_trans2)

lemma scan_append:
  "mmio_scan_devs (ds @ es) vm vaddr pa data sz access =
     (if \<exists>dev \<in> set ds. dev_covers dev pa then mmio_scan_devs ds vm vaddr pa data sz access
      else mmio_scan_devs es vm vaddr pa data sz access)"
proof (induction ds)
  case (Cons dev ds)
  show ?case
  proof (cases "dev_covers dev pa")
    case True
    then have "\<exists>d \<in> set (dev # ds). dev_covers d pa" by simp
    then show ?thesis using True by (simp only: append_Cons mmio_scan_devs.simps dev_covers_def if_True simp_thms)
  next
    case False
    then have "(\<exists>d \<in> set (dev # ds). dev_covers d pa) \<longleftrightarrow> (\<exists>d \<in> set ds. dev_covers d pa)" by simp
    then show ?thesis using False Cons.IH by (simp only: append_Cons mmio_scan_devs.simps dev_covers_def if_False simp_thms)
  qed
qed simp

lemma scan_none: "\<forall>dev \<in> set ds. \<not> dev_covers dev pa \<Longrightarrow> mmio_scan_devs ds vm vaddr pa data sz access = (False, data, vm)"
  by (induction ds) (auto simp: dev_covers_def)

interpretation bus: address_space "attach_dev ram" dev_covers "bus_taken ram"
    "\<lambda>ds pa vm vaddr data sz access. mmio_scan_devs ds vm vaddr pa data sz access"
    "\<lambda>desc pa vm vaddr data sz access. mmio_scan_devs [attached desc] vm vaddr pa data sz access" for ram
proof
  fix ds ds' :: "'a mmio_dev list" and desc :: "'a mmio_dev" and pa
  assume att: "attach_dev ram ds desc = Some ds'"
  have ds': "ds' = ds @ [attached desc]" and free: "md_size desc = 0 \<or> zone_free ram ds (md_addr desc) (md_size desc)"
    using attach_dev_Some [OF att] by blast+
  have apart: "\<not> bus_taken ram ds pa" if "dev_covers desc pa"
    using free that zone_free_apart [of ram ds desc pa] by (auto simp: dev_covers_def)
  then show "\<not> bus_taken ram ds pa" if "dev_covers desc pa" using that by blast
  show "bus_taken ram ds' pa \<longleftrightarrow> bus_taken ram ds pa \<or> dev_covers desc pa" by (auto simp: ds' bus_taken_def)
  show "(\<lambda>vm vaddr data sz access. mmio_scan_devs ds' vm vaddr pa data sz access)
      = (\<lambda>vm vaddr data sz access. mmio_scan_devs [attached desc] vm vaddr pa data sz access)" if "dev_covers desc pa"
    using apart [OF that] by (simp only: ds' scan_append bus_taken_def if_False simp_thms de_Morgan_disj)
  show "(\<lambda>vm vaddr data sz access. mmio_scan_devs ds' vm vaddr pa data sz access)
      = (\<lambda>vm vaddr data sz access. mmio_scan_devs ds vm vaddr pa data sz access)" if "\<not> dev_covers desc pa"
  proof (intro ext)
    fix vm :: "'a hart" and vaddr data sz access
    have "mmio_scan_devs [attached desc] vm vaddr pa data sz access = (False, data, vm)"
      using that by (intro scan_none) simp
    then show "mmio_scan_devs ds' vm vaddr pa data sz access = mmio_scan_devs ds vm vaddr pa data sz access"
      using scan_none [of ds pa vm vaddr data sz access] unfolding ds' scan_append by (metis (full_types))
  qed
qed

text \<open>
  C26.  Every device of a machine answers at its own addresses.  When a sequence of devices has
  been attached, an access of the MMU to an address of one of them is that device's alone, with
  its operation sizes normalised, whatever else was attached before or after it; no other device
  of the sequence has the address, and neither has the RAM.
\<close>

theorem bus_dispatch:
  assumes "attach_seq (attach_dev ram) [] descs = Some ds" "i < length descs" "dev_covers (descs ! i) pa"
  shows "mmio_scan_devs ds vm vaddr pa data sz access = mmio_scan_devs [attached (descs ! i)] vm vaddr pa data sz access
       \<and> (\<forall>j < length descs. dev_covers (descs ! j) pa \<longrightarrow> j = i)
       \<and> \<not> (ram_addr ram \<le> pa \<and> pa < ram_addr ram + ram_size ram)"
proof -
  note own = bus.seq_own [OF assms]
  have "mmio_scan_devs ds vm vaddr pa data sz access = mmio_scan_devs [attached (descs ! i)] vm vaddr pa data sz access"
    by (rule fun_cong [OF fun_cong [OF fun_cong [OF fun_cong [OF fun_cong [OF own [THEN conjunct1]]]]]])
  moreover have "\<not> (ram_addr ram \<le> pa \<and> pa < ram_addr ram + ram_size ram)"
    using bus.seq_apart [OF assms(1) nth_mem [OF assms(2)] assms(3)] by (simp add: bus_taken_def)
  ultimately show ?thesis using own [THEN conjunct2] by blast
qed

theorem bus_dispatch_witness:
  "\<exists>ds. attach_seq (attach_dev ram_example) [] [dev_example 0x10000000 0x100, dev_example 0x10000100 0x100] = Some ds
     \<and> (\<forall>vm. mmio_scan_devs ds vm 0 0x10000104 [1, 1] 2 RISCV_MMU_READ = (True, [0, 0], vm))"
proof -
  define descs where "descs = [dev_example 0x10000000 0x100, dev_example 0x10000100 0x100]"
  note defs = zone_free_def regions_def rvvm_mmio_overlap_check_def dev_example_def ram_example_def attached_def op_size_def
  have "attach_dev ram_example [] (descs ! 0) = Some [attached (descs ! 0)]"
    "attach_dev ram_example [attached (descs ! 0)] (descs ! 1) = Some [attached (descs ! 0), attached (descs ! 1)]"
    by (simp_all add: attach_dev_free descs_def defs)
  then obtain ds where ds: "attach_seq (attach_dev ram_example) [] descs = Some ds" by (simp add: descs_def)
  have cov: "dev_covers (descs ! 1) 0x10000104" by (simp add: descs_def dev_covers_def dev_example_def)
  have two: "replicate 2 (0 :: u8) = [0, 0]" by (simp add: numeral_2_eq_2)
  have "mmio_scan_devs ds vm 0 0x10000104 [1, 1] 2 RISCV_MMU_READ = (True, [0, 0], vm)" for vm
    using bus_dispatch [OF ds _ cov, of vm 0 "[1, 1]" 2 RISCV_MMU_READ]
    by (simp add: descs_def attached_def op_size_def dev_example_def rvvm_mmio_none_def buf_fill_def two)
  then show ?thesis using ds by (auto simp: descs_def)
qed

section \<open>Regions that are mapped\<close>

text \<open>
  A read-only region has no write handler, but the MMU writes to the mapping of a region whether it
  has one or not.
\<close>

lemma region_init_Some:
  assumes "rvvm_region_init ram ds desc = Some (Some dev, ds')"
  shows "md_mapping dev = rd_mmap desc" "md_size dev = rd_size desc" "md_write dev = None \<longleftrightarrow> rd_rom desc" "ds' = ds @ [dev]"
proof -
  have att: "dev = attached d \<and> ds' = ds @ [dev]" if "rvvm_attach_mmio ram ds d = Some (Some dev, ds')" for d
    using attach_mmio_Some(1,2) [OF that] by blast
  show "md_mapping dev = rd_mmap desc" "md_size dev = rd_size desc" "md_write dev = None \<longleftrightarrow> rd_rom desc" "ds' = ds @ [dev]"
    using assms by (auto simp: rvvm_region_init_def dest!: att split: if_splits option.splits)
qed

lemma rom_region_written:
  assumes "rvvm_region_init ram ds desc = Some (Some dev, ds')" "rd_rom desc" "rd_mmap desc = Some p" "dev_covers dev pa"
  shows "host (snd (snd (mmio_scan_devs [dev] vm vaddr pa data sz RISCV_MMU_WRITE))) = mem_write (host vm) (p + (pa - md_addr dev)) (take sz data)"
  using region_init_Some [OF assms(1)] assms(2-4)
  by (auto simp: dev_covers_def Let_def riscv_tlb_put_def)

end
