(* ===== verification/Serial.thy ===== *)
theory Serial
  imports Ringbuf "HOL-Library.Monad_Syntax"
begin

text \<open>
  The serial port: the 16550 registers of \<^verbatim>\<open>src/devices/uart16550_core.c\<close>, the interface to a character
  device of \<^verbatim>\<open>src/devices/chardev.h\<close>, and the terminal of \<^verbatim>\<open>src/devices/chardev_term.c\<close> on a POSIX host, which buffers
  both directions.  The locks are free, since every function runs alone.  A function that ends the
  process, as the hotkey of the terminal does, has the value \<^const>\<open>None\<close>.
\<close>

section \<open>Character devices\<close>

abbreviation (input) CHARDEV_RX :: u32 where "CHARDEV_RX \<equiv> 1"
abbreviation (input) CHARDEV_TX :: u32 where "CHARDEV_TX \<equiv> 2"

text \<open>
  A device is its data and the functions on it, which may be null.  An update returns the flags
  that the device notifies its owner of, if it does.
\<close>

record 'c chardev =
  cd_data :: 'c
  cd_poll :: "('c \<Rightarrow> u32) option"
  cd_read :: "('c \<Rightarrow> nat \<Rightarrow> (nat \<times> u8 list \<times> 'c) option) option"
  cd_write :: "('c \<Rightarrow> u8 list \<Rightarrow> (nat \<times> 'c) option) option"
  cd_update :: "('c \<Rightarrow> (u32 option \<times> 'c) option) option"

definition chardev_poll :: "'c chardev option \<Rightarrow> u32" where
  "chardev_poll cd =
     (case cd of
        Some c \<Rightarrow> (case cd_poll c of Some f \<Rightarrow> f (cd_data c) | None \<Rightarrow> CHARDEV_TX)
      | None \<Rightarrow> CHARDEV_TX)"

definition chardev_read :: "'c chardev option \<Rightarrow> nat \<Rightarrow> (nat \<times> u8 list \<times> 'c chardev option) option" where
  "chardev_read cd nbytes =
     (case cd of
        Some c \<Rightarrow>
          (case cd_read c of
             Some f \<Rightarrow> do { (ret, buf, d) \<leftarrow> f (cd_data c) nbytes; Some (ret, buf, Some (c\<lparr>cd_data := d\<rparr>)) }
           | None \<Rightarrow> Some (0, [], cd))
      | None \<Rightarrow> Some (0, [], cd))"

definition chardev_write :: "'c chardev option \<Rightarrow> u8 list \<Rightarrow> (nat \<times> 'c chardev option) option" where
  "chardev_write cd buf =
     (case cd of
        Some c \<Rightarrow>
          (case cd_write c of
             Some f \<Rightarrow> do { (ret, d) \<leftarrow> f (cd_data c) buf; Some (ret, Some (c\<lparr>cd_data := d\<rparr>)) }
           | None \<Rightarrow> Some (length buf, cd))
      | None \<Rightarrow> Some (length buf, cd))"

definition chardev_update :: "'c chardev option \<Rightarrow> (u32 option \<times> 'c chardev option) option" where
  "chardev_update cd =
     (case cd of
        Some c \<Rightarrow>
          (case cd_update c of
             Some f \<Rightarrow> do { (flags, d) \<leftarrow> f (cd_data c); Some (flags, Some (c\<lparr>cd_data := d\<rparr>)) }
           | None \<Rightarrow> Some (None, cd))
      | None \<Rightarrow> Some (None, cd))"

section \<open>The terminal\<close>

text \<open>
  The two file descriptors of the host: what was typed and not read yet, how many bytes each further
  \<^verbatim>\<open>read\<close> can deliver, what was written, and how many bytes each further \<^verbatim>\<open>write\<close> can take.  An amount of
  0 stands for a descriptor that is not ready and for an error.
\<close>

record host_tty =
  ht_input :: "u8 list"
  ht_rsched :: "nat list"
  ht_output :: "u8 list"
  ht_wsched :: "nat list"

record chardev_term =
  tm_rx :: ringbuf
  tm_tx :: ringbuf
  tm_flags :: u32
  tm_ctrl_a :: bool
  tm_tty :: host_tty

abbreviation (input) next_amount :: "nat list \<Rightarrow> nat" where
  "next_amount sched \<equiv> (case sched of [] \<Rightarrow> 0 | k # _ \<Rightarrow> k)"

definition term_read_raw :: "chardev_term \<Rightarrow> nat \<Rightarrow> u8 list \<times> chardev_term" where
  "term_read_raw term sz =
     (let tty = tm_tty term; n = min sz (next_amount (ht_rsched tty))
      in (take n (ht_input tty),
          term\<lparr>tm_tty := tty\<lparr>ht_input := drop n (ht_input tty), ht_rsched := tl (ht_rsched tty)\<rparr>\<rparr>))"

definition term_write_raw :: "chardev_term \<Rightarrow> u8 list \<Rightarrow> nat \<times> chardev_term" where
  "term_write_raw term buf =
     (let tty = tm_tty term; n = min (length buf) (next_amount (ht_wsched tty))
      in (n, term\<lparr>tm_tty := tty\<lparr>ht_output := ht_output tty @ take n buf, ht_wsched := tl (ht_wsched tty)\<rparr>\<rparr>))"

definition term_update_flags :: "chardev_term \<Rightarrow> u32 \<times> chardev_term" where
  "term_update_flags term =
     (let flags_orig = tm_flags term;
          flags = (if ringbuf_avail (tm_rx term) \<noteq> 0 then CHARDEV_RX else 0);
          flags = (if ringbuf_space (tm_tx term) \<noteq> 0 then flags OR CHARDEV_TX else flags)
      in (flags AND NOT flags_orig, term\<lparr>tm_flags := flags\<rparr>))"

text \<open>The hotkey: Ctrl+A and then \<^verbatim>\<open>x\<close> ends the process.\<close>

primrec term_process_input :: "u8 list \<Rightarrow> chardev_term \<Rightarrow> chardev_term option" where
  "term_process_input [] term = Some term"
| "term_process_input (b # buf) term =
     (if tm_ctrl_a term \<and> b = 0x78 then None else term_process_input buf (term\<lparr>tm_ctrl_a := (b = 1)\<rparr>))"

definition term_pull_rx :: "chardev_term \<Rightarrow> chardev_term option" where
  "term_pull_rx term = do {
     let rx_size = min 256 (ringbuf_space (tm_rx term));
     let (rx_buf, term) = term_read_raw term rx_size;
     term \<leftarrow> term_process_input rx_buf term;
     Some (term\<lparr>tm_rx := snd (ringbuf_write (tm_rx term) rx_buf)\<rparr>)
   }"

definition term_push_tx :: "chardev_term \<Rightarrow> chardev_term" where
  "term_push_tx term =
     (let (_, tx_buf) = ringbuf_peek (tm_tx term) 256;
          (tx_size, term) = term_write_raw term tx_buf
      in term\<lparr>tm_tx := snd (ringbuf_skip (tm_tx term) tx_size)\<rparr>)"

definition term_update :: "chardev_term \<Rightarrow> (u32 option \<times> chardev_term) option" where
  "term_update term = do {
     term \<leftarrow> (if ringbuf_space (tm_rx term) \<noteq> 0 then term_pull_rx term else Some term);
     let term = (if ringbuf_avail (tm_tx term) \<noteq> 0 then term_push_tx term else term);
     let (flags, term) = term_update_flags term;
     Some (if flags \<noteq> 0 then Some flags else None, term)
   }"

definition term_poll :: "chardev_term \<Rightarrow> u32" where
  "term_poll term = tm_flags term"

definition term_read :: "chardev_term \<Rightarrow> nat \<Rightarrow> (nat \<times> u8 list \<times> chardev_term) option" where
  "term_read term nbytes =
     (if term_poll term AND CHARDEV_RX \<noteq> 0 then do {
        let (ret, buf, rx) = ringbuf_read (tm_rx term) nbytes;
        let term = term\<lparr>tm_rx := rx\<rparr>;
        term \<leftarrow> (if ringbuf_avail (tm_rx term) = 0 then term_pull_rx term else Some term);
        Some (ret, buf, snd (term_update_flags term))
      } else Some (0, [], term))"

definition term_write :: "chardev_term \<Rightarrow> u8 list \<Rightarrow> (nat \<times> chardev_term) option" where
  "term_write term buf =
     (let (ret, tx) = ringbuf_write (tm_tx term) buf;
          term = term\<lparr>tm_tx := tx\<rparr>;
          term = (if ringbuf_space (tm_tx term) = 0 then term_push_tx term else term)
      in Some (ret, snd (term_update_flags term)))"

definition chardev_fd_create :: "host_tty \<Rightarrow> chardev_term chardev" where
  "chardev_fd_create tty =
     \<lparr>cd_data = \<lparr>tm_rx = ringbuf_create 256, tm_tx = ringbuf_create 256, tm_flags = 0, tm_ctrl_a = False, tm_tty = tty\<rparr>,
      cd_poll = Some term_poll, cd_read = Some term_read, cd_write = Some term_write, cd_update = Some term_update\<rparr>"

section \<open>The registers of the port\<close>

text \<open>The interrupt callback of the source and its context are \<open>ua_irq_fn\<close> and \<open>ua_irq_ctx\<close>.\<close>

record ('c, 'i) uart16550_core =
  ua_chardev :: "'c chardev option"
  ua_irq_fn :: "('i \<Rightarrow> bool \<Rightarrow> 'i) option"
  ua_irq_ctx :: 'i
  ua_flags :: u32
  ua_ier :: u32
  ua_lcr :: u32
  ua_mcr :: u32
  ua_scr :: u32
  ua_dll :: u32
  ua_dlm :: u32
  ua_rx_armed :: u32

definition uart16550_set_irq :: "('c, 'i) uart16550_core \<Rightarrow> bool \<Rightarrow> ('c, 'i) uart16550_core" where
  "uart16550_set_irq core level =
     (case ua_irq_fn core of Some f \<Rightarrow> core\<lparr>ua_irq_ctx := f (ua_irq_ctx core) level\<rparr> | None \<Rightarrow> core)"

definition uart16550_visible_flags :: "('c, 'i) uart16550_core \<Rightarrow> u32" where
  "uart16550_visible_flags core =
     (let flags = chardev_poll (ua_chardev core)
      in if ua_rx_armed core = 0 then flags AND NOT CHARDEV_RX else flags)"

definition uart16550_update_irq :: "('c, 'i) uart16550_core \<Rightarrow> ('c, 'i) uart16550_core" where
  "uart16550_update_irq core =
     (let flags = ua_flags core; ier = ua_ier core;
          level = (flags AND CHARDEV_RX \<noteq> 0 \<and> ier AND 1 \<noteq> 0 \<or> flags AND CHARDEV_TX \<noteq> 0 \<and> ier AND 2 \<noteq> 0)
      in uart16550_set_irq core level)"

definition uart16550_notify :: "('c, 'i) uart16550_core \<Rightarrow> u32 \<Rightarrow> ('c, 'i) uart16550_core" where
  "uart16550_notify core flags =
     (let flags = (if ua_rx_armed core = 0 then flags AND NOT CHARDEV_RX else flags);
          old = ua_flags core;
          core = core\<lparr>ua_flags := flags\<rparr>
      in if old \<noteq> flags then uart16550_update_irq core else core)"

definition uart16550_poll_chardev :: "('c, 'i) uart16550_core \<Rightarrow> ('c, 'i) uart16550_core" where
  "uart16550_poll_chardev core =
     (let flags = uart16550_visible_flags core
      in if flags \<noteq> ua_flags core then uart16550_notify core flags else core)"

definition uart16550_core_init :: "'c chardev option \<Rightarrow> ('i \<Rightarrow> bool \<Rightarrow> 'i) option \<Rightarrow> 'i \<Rightarrow> ('c, 'i) uart16550_core" where
  "uart16550_core_init cd irq_fn irq_ctx =
     \<lparr>ua_chardev = cd, ua_irq_fn = irq_fn, ua_irq_ctx = irq_ctx, ua_flags = 0, ua_ier = 0, ua_lcr = 0, ua_mcr = 0,
      ua_scr = 0, ua_dll = 0, ua_dlm = 0, ua_rx_armed = 0\<rparr>"

text \<open>The notification of an update reaches the port, which has put its hook into the device.\<close>

definition uart16550_core_update :: "('c, 'i) uart16550_core \<Rightarrow> ('c, 'i) uart16550_core option" where
  "uart16550_core_update core = do {
     (flags, cd) \<leftarrow> chardev_update (ua_chardev core);
     let core = core\<lparr>ua_chardev := cd\<rparr>;
     Some (case flags of Some fl \<Rightarrow> uart16550_notify core fl | None \<Rightarrow> core)
   }"

abbreviation (input) UART16550_LCR_DLAB :: u32 where "UART16550_LCR_DLAB \<equiv> 0x80"

definition uart16550_core_read :: "('c, 'i) uart16550_core \<Rightarrow> u32 \<Rightarrow> (u8 \<times> ('c, 'i) uart16550_core) option" where
  "uart16550_core_read core reg =
     (if reg = 0 then
        (if ua_lcr core AND UART16550_LCR_DLAB \<noteq> 0 then Some (ucast (ua_dll core), core)
         else if uart16550_visible_flags core AND CHARDEV_RX \<noteq> 0 then do {
           (_, buf, cd) \<leftarrow> chardev_read (ua_chardev core) 1;
           let core = core\<lparr>ua_chardev := cd\<rparr>;
           Some (case buf of [] \<Rightarrow> 0 | b # _ \<Rightarrow> b, uart16550_poll_chardev core)
         } else Some (0, core))
      else if reg = 1 then
        Some (if ua_lcr core AND UART16550_LCR_DLAB \<noteq> 0 then ucast (ua_dlm core) else ucast (ua_ier core), core)
      else if reg = 2 then
        (let flags = uart16550_visible_flags core; ier = ua_ier core in
         Some (if flags AND CHARDEV_RX \<noteq> 0 \<and> ier AND 1 \<noteq> 0 then 0x4 OR 0xC0
               else if flags AND CHARDEV_TX \<noteq> 0 \<and> ier AND 2 \<noteq> 0 then 0x2 OR 0xC0
               else 0x1 OR 0xC0, core))
      else if reg = 3 then Some (ucast (ua_lcr core), core)
      else if reg = 4 then Some (ucast (ua_mcr core), core)
      else if reg = 5 then
        (let flags = uart16550_visible_flags core in
         Some ((if flags AND CHARDEV_RX \<noteq> 0 then 0x1 else 0) OR (if flags AND CHARDEV_TX \<noteq> 0 then 0x60 else 0), core))
      else if reg = 6 then Some (0xB0, core)
      else if reg = 7 then Some (ucast (ua_scr core), core)
      else Some (0, core))"

definition uart16550_core_write :: "('c, 'i) uart16550_core \<Rightarrow> u32 \<Rightarrow> u8 \<Rightarrow> ('c, 'i) uart16550_core option" where
  "uart16550_core_write core reg val =
     (if reg = 0 then
        (if ua_lcr core AND UART16550_LCR_DLAB \<noteq> 0 then Some (core\<lparr>ua_dll := ucast val\<rparr>)
         else do {
           (_, cd) \<leftarrow> chardev_write (ua_chardev core) [val];
           Some (uart16550_poll_chardev (core\<lparr>ua_chardev := cd\<rparr>))
         })
      else if reg = 1 then
        Some (if ua_lcr core AND UART16550_LCR_DLAB \<noteq> 0 then core\<lparr>ua_dlm := ucast val\<rparr>
              else
                (let core = core\<lparr>ua_ier := ucast val\<rparr>;
                     core = (if val AND 1 \<noteq> 0 then uart16550_poll_chardev (core\<lparr>ua_rx_armed := 1\<rparr>) else core)
                 in uart16550_update_irq core))
      else if reg = 3 then Some (core\<lparr>ua_lcr := ucast val\<rparr>)
      else if reg = 4 then Some (core\<lparr>ua_mcr := ucast val\<rparr>)
      else if reg = 7 then Some (core\<lparr>ua_scr := ucast val\<rparr>)
      else Some core)"

section \<open>The contract of a character device\<close>

text \<open>
  A sequence of accesses of the guest, and of updates by the event loop.  The result has the bytes that
  were read from the receiver while it showed data, the bytes that the device accepted, and those that it did
  not accept although the transmitter was shown empty.
\<close>

datatype uart_op = Get u32 | Put u32 u8 | Tick

definition data_access :: "('c, 'i) uart16550_core \<Rightarrow> u32 \<Rightarrow> bool" where
  "data_access core reg \<longleftrightarrow> reg = 0 \<and> ua_lcr core AND UART16550_LCR_DLAB = 0"

definition accepts :: "('c, 'i) uart16550_core \<Rightarrow> u8 \<Rightarrow> bool" where
  "accepts core val = (case chardev_write (ua_chardev core) [val] of Some (n, _) \<Rightarrow> n = 1 | None \<Rightarrow> False)"

fun uart_run :: "uart_op list \<Rightarrow> ('c, 'i) uart16550_core \<Rightarrow> (u8 list \<times> u8 list \<times> u8 list \<times> ('c, 'i) uart16550_core) option" where
  "uart_run [] core = Some ([], [], [], core)"
| "uart_run (Get reg # ops) core = do {
     (val, core') \<leftarrow> uart16550_core_read core reg;
     (received, sent, lost, core'') \<leftarrow> uart_run ops core';
     Some (if data_access core reg \<and> uart16550_visible_flags core AND CHARDEV_RX \<noteq> 0 then val # received else received,
           sent, lost, core'')
   }"
| "uart_run (Put reg val # ops) core = do {
     core' \<leftarrow> uart16550_core_write core reg val;
     (received, sent, lost, core'') \<leftarrow> uart_run ops core';
     Some (received, if data_access core reg \<and> accepts core val then val # sent else sent,
           if data_access core reg \<and> \<not> accepts core val \<and> uart16550_visible_flags core AND CHARDEV_TX \<noteq> 0
           then val # lost else lost, core'')
   }"
| "uart_run (Tick # ops) core = do { core \<leftarrow> uart16550_core_update core; uart_run ops core }"

text \<open>
  What the port relies on: the bytes that remain to be read and those that were accepted, as the
  device sees them, that a device which shows data or space has some, and that the operations
  return on a device that is alive.
\<close>

locale char_backend =
  fixes c_ok :: "'c \<Rightarrow> bool"
    and c_live :: "'c \<Rightarrow> bool"
    and c_left :: "'c \<Rightarrow> u8 list"
    and c_sent :: "'c \<Rightarrow> u8 list"
    and c_poll :: "'c \<Rightarrow> u32"
    and c_read :: "'c \<Rightarrow> nat \<Rightarrow> (nat \<times> u8 list \<times> 'c) option"
    and c_write :: "'c \<Rightarrow> u8 list \<Rightarrow> (nat \<times> 'c) option"
    and c_update :: "'c \<Rightarrow> (u32 option \<times> 'c) option"
  assumes read_law: "\<lbrakk>c_ok c; c_read c n = Some (k, buf, c')\<rbrakk> \<Longrightarrow>
      c_ok c' \<and> c_left c = buf @ c_left c' \<and> c_sent c' = c_sent c \<and> (c_live c \<longrightarrow> c_live c')"
    and read_ready: "\<lbrakk>c_ok c; c_poll c AND CHARDEV_RX \<noteq> 0; c_read c 1 = Some (k, buf, c')\<rbrakk> \<Longrightarrow> length buf = 1"
    and write_law: "\<lbrakk>c_ok c; c_write c buf = Some (k, c')\<rbrakk> \<Longrightarrow>
      c_ok c' \<and> c_left c' = c_left c \<and> k \<le> length buf \<and> c_sent c' = c_sent c @ take k buf \<and> (c_live c \<longrightarrow> c_live c')"
    and write_ready: "\<lbrakk>c_ok c; c_poll c AND CHARDEV_TX \<noteq> 0; c_write c [b] = Some (k, c')\<rbrakk> \<Longrightarrow> k = 1"
    and update_law: "\<lbrakk>c_ok c; c_update c = Some (flags, c')\<rbrakk> \<Longrightarrow>
      c_ok c' \<and> c_left c' = c_left c \<and> c_sent c' = c_sent c \<and> (c_live c \<longrightarrow> c_live c')"
    and live: "\<lbrakk>c_ok c; c_live c\<rbrakk> \<Longrightarrow> c_read c n \<noteq> None \<and> c_write c buf \<noteq> None \<and> c_update c \<noteq> None"
begin

definition plugged :: "('c, 'i) uart16550_core \<Rightarrow> 'c \<Rightarrow> bool" where
  "plugged core c \<longleftrightarrow> c_ok c \<and> ua_chardev core =
     Some \<lparr>cd_data = c, cd_poll = Some c_poll, cd_read = Some c_read, cd_write = Some c_write, cd_update = Some c_update\<rparr>"

lemma plugged_poll: "plugged core c \<Longrightarrow> chardev_poll (ua_chardev core) = c_poll c"
  by (simp add: plugged_def chardev_poll_def)

lemma plugged_visible:
  assumes "plugged core c"
  shows "uart16550_visible_flags core AND CHARDEV_RX \<noteq> 0 \<Longrightarrow> c_poll c AND CHARDEV_RX \<noteq> 0"
    "uart16550_visible_flags core AND CHARDEV_TX = c_poll c AND CHARDEV_TX"
  using plugged_poll [OF assms] by (auto simp: uart16550_visible_flags_def Let_def and.assoc split: if_splits)

lemma plugged_notify [simp]: "plugged (uart16550_notify core flags) c = plugged core c"
  by (simp add: plugged_def uart16550_notify_def uart16550_update_irq_def uart16550_set_irq_def Let_def split: option.split)

lemma plugged_poll_chardev [simp]: "plugged (uart16550_poll_chardev core) c = plugged core c"
  by (simp add: uart16550_poll_chardev_def Let_def)

lemma plugged_update_irq [simp]: "plugged (uart16550_update_irq core) c = plugged core c"
  by (simp add: plugged_def uart16550_update_irq_def uart16550_set_irq_def Let_def split: option.split)

lemma plugged_fields [simp]:
  "plugged (core\<lparr>ua_ier := w\<rparr>) c = plugged core c" "plugged (core\<lparr>ua_lcr := w\<rparr>) c = plugged core c"
  "plugged (core\<lparr>ua_mcr := w\<rparr>) c = plugged core c" "plugged (core\<lparr>ua_scr := w\<rparr>) c = plugged core c"
  "plugged (core\<lparr>ua_dll := w\<rparr>) c = plugged core c" "plugged (core\<lparr>ua_dlm := w\<rparr>) c = plugged core c"
  "plugged (core\<lparr>ua_rx_armed := w\<rparr>) c = plugged core c"
  by (simp_all add: plugged_def)

lemma plugged_read:
  assumes p: "plugged core c" and r: "uart16550_core_read core reg = Some (val, core')"
  shows "\<exists>c'. plugged core' c' \<and> (c_live c \<longrightarrow> c_live c') \<and> c_sent c' = c_sent c \<and> c_left c =
    (if data_access core reg \<and> uart16550_visible_flags core AND CHARDEV_RX \<noteq> 0 then val # c_left c' else c_left c')"
proof (cases "data_access core reg \<and> uart16550_visible_flags core AND CHARDEV_RX \<noteq> 0")
  case True
  let ?cd = "\<lambda>c. \<lparr>cd_data = c, cd_poll = Some c_poll, cd_read = Some c_read, cd_write = Some c_write, cd_update = Some c_update\<rparr>"
  have ok: "c_ok c" and dev: "ua_chardev core = Some (?cd c)" using p by (simp_all add: plugged_def)
  from True r dev obtain k buf c' where read: "c_read c 1 = Some (k, buf, c')"
    and res: "val = (case buf of [] \<Rightarrow> 0 | b # _ \<Rightarrow> b)" "core' = uart16550_poll_chardev (core\<lparr>ua_chardev := Some (?cd c')\<rparr>)"
    by (auto simp: uart16550_core_read_def data_access_def chardev_read_def bind_eq_Some_conv)
  note law = read_law [OF ok read]
  have "length buf = 1" using read_ready [OF ok _ read] plugged_visible(1) [OF p] True by simp
  then have "buf = [val]" using res(1) by (auto simp: length_Suc_conv)
  moreover have "plugged core' c'" using law by (simp add: res(2)) (simp add: plugged_def)
  ultimately show ?thesis using law True by auto
next
  case False
  then have "core' = core" using r
    by (auto simp: uart16550_core_read_def data_access_def Let_def split: if_splits)
  then show ?thesis using p by (simp only: False if_False) blast
qed

lemma plugged_write:
  assumes p: "plugged core c" and r: "uart16550_core_write core reg val = Some core'"
  shows "\<exists>c'. plugged core' c' \<and> (c_live c \<longrightarrow> c_live c') \<and> c_left c' = c_left c
    \<and> c_sent c' = c_sent c @ (if data_access core reg \<and> accepts core val then [val] else [])
    \<and> \<not> (data_access core reg \<and> \<not> accepts core val \<and> uart16550_visible_flags core AND CHARDEV_TX \<noteq> 0)"
proof (cases "data_access core reg")
  case True
  let ?cd = "\<lambda>c. \<lparr>cd_data = c, cd_poll = Some c_poll, cd_read = Some c_read, cd_write = Some c_write, cd_update = Some c_update\<rparr>"
  have ok: "c_ok c" and dev: "ua_chardev core = Some (?cd c)" using p by (simp_all add: plugged_def)
  from True r dev obtain k c' where wr: "c_write c [val] = Some (k, c')"
    and res: "core' = uart16550_poll_chardev (core\<lparr>ua_chardev := Some (?cd c')\<rparr>)"
    by (auto simp: uart16550_core_write_def data_access_def chardev_write_def bind_eq_Some_conv)
  note law = write_law [OF ok wr]
  have a: "accepts core val \<longleftrightarrow> k = 1" by (simp add: accepts_def chardev_write_def dev wr)
  have "plugged core' c'" using law by (simp add: res) (simp add: plugged_def)
  moreover have "take k [val] = (if k = 1 then [val] else [])" using law by (cases k) auto
  ultimately show ?thesis using law a True write_ready [OF ok _ wr] plugged_visible(2) [OF p] by (intro exI [of _ c']) auto
next
  case False
  then have "plugged core' c" using r p
    by (auto simp: uart16550_core_write_def data_access_def Let_def split: if_splits)
  then show ?thesis using False by auto
qed

lemma plugged_tick:
  assumes p: "plugged core c" and r: "uart16550_core_update core = Some core'"
  shows "\<exists>c'. plugged core' c' \<and> (c_live c \<longrightarrow> c_live c') \<and> c_left c' = c_left c \<and> c_sent c' = c_sent c"
proof -
  let ?cd = "\<lambda>c. \<lparr>cd_data = c, cd_poll = Some c_poll, cd_read = Some c_read, cd_write = Some c_write, cd_update = Some c_update\<rparr>"
  have ok: "c_ok c" and dev: "ua_chardev core = Some (?cd c)" using p by (simp_all add: plugged_def)
  from r dev obtain flags c' where up: "c_update c = Some (flags, c')"
    and res: "core' = (case flags of Some fl \<Rightarrow> uart16550_notify (core\<lparr>ua_chardev := Some (?cd c')\<rparr>) fl | None \<Rightarrow> core\<lparr>ua_chardev := Some (?cd c')\<rparr>)"
    by (auto simp: uart16550_core_update_def chardev_update_def bind_eq_Some_conv Let_def)
  note law = update_law [OF ok up]
  have "plugged core' c'" using law by (cases flags) (simp_all add: res, simp_all add: plugged_def)
  with law show ?thesis by blast
qed

text \<open>Nothing is lost, repeated or reordered between the guest and the device.\<close>

lemma run_stream:
  "\<lbrakk>plugged core c; uart_run ops core = Some (received, sent, lost, core')\<rbrakk> \<Longrightarrow>
    \<exists>c'. plugged core' c' \<and> c_left c = received @ c_left c' \<and> c_sent c' = c_sent c @ sent \<and> lost = []"
proof (induction ops core arbitrary: c received sent lost rule: uart_run.induct)
  case (1 core)
  then show ?case by auto
next
  case (2 reg ops core)
  from 2(3) obtain val core1 r s l where g: "uart16550_core_read core reg = Some (val, core1)" "uart_run ops core1 = Some (r, s, l, core')"
    "received = (if data_access core reg \<and> uart16550_visible_flags core AND CHARDEV_RX \<noteq> 0 then val # r else r)" "sent = s" "lost = l"
    by (auto simp: bind_eq_Some_conv)
  from plugged_read [OF 2(2) g(1)] obtain c1 where c1: "plugged core1 c1" "c_sent c1 = c_sent c"
    "c_left c = (if data_access core reg \<and> uart16550_visible_flags core AND CHARDEV_RX \<noteq> 0 then val # c_left c1 else c_left c1)" by blast
  from 2(1) [OF g(1) refl c1(1) g(2)] c1 g(3-5) show ?case by auto
next
  case (3 reg val ops core)
  from 3(3) obtain core1 r s l where g: "uart16550_core_write core reg val = Some core1" "uart_run ops core1 = Some (r, s, l, core')"
    "received = r" "sent = (if data_access core reg \<and> accepts core val then val # s else s)"
    "lost = (if data_access core reg \<and> \<not> accepts core val \<and> uart16550_visible_flags core AND CHARDEV_TX \<noteq> 0 then val # l else l)"
    by (auto simp: bind_eq_Some_conv)
  from plugged_write [OF 3(2) g(1)] obtain c1 where c1: "plugged core1 c1" "c_left c1 = c_left c"
    "c_sent c1 = c_sent c @ (if data_access core reg \<and> accepts core val then [val] else [])"
    "\<not> (data_access core reg \<and> \<not> accepts core val \<and> uart16550_visible_flags core AND CHARDEV_TX \<noteq> 0)" by blast
  from 3(1) [OF g(1) c1(1) g(2)] c1 g(3-5) show ?case by auto
next
  case (4 ops core)
  from 4(3) obtain core1 where g: "uart16550_core_update core = Some core1" "uart_run ops core1 = Some (received, sent, lost, core')"
    by (auto simp: bind_eq_Some_conv)
  from plugged_tick [OF 4(2) g(1)] obtain c1 where c1: "plugged core1 c1" "c_left c1 = c_left c" "c_sent c1 = c_sent c" by blast
  from 4(1) [OF g(1) c1(1) g(2)] c1 show ?case by simp
qed

lemma steps_live:
  assumes "plugged core c" "c_live c"
  shows "uart16550_core_read core reg \<noteq> None" "uart16550_core_write core reg val \<noteq> None" "uart16550_core_update core \<noteq> None"
proof -
  have l: "c_ok c" and d: "ua_chardev core =
      Some \<lparr>cd_data = c, cd_poll = Some c_poll, cd_read = Some c_read, cd_write = Some c_write, cd_update = Some c_update\<rparr>"
    using assms(1) by (simp_all add: plugged_def)
  have "chardev_read (ua_chardev core) 1 \<noteq> None" "chardev_write (ua_chardev core) [val] \<noteq> None" "chardev_update (ua_chardev core) \<noteq> None"
    using live [OF l assms(2), of 1 "[val]"] by (auto simp: d chardev_read_def chardev_write_def chardev_update_def)
  then show "uart16550_core_read core reg \<noteq> None" "uart16550_core_write core reg val \<noteq> None" "uart16550_core_update core \<noteq> None"
    by (auto simp: uart16550_core_read_def uart16550_core_write_def uart16550_core_update_def Let_def)
qed

lemma run_live: "\<lbrakk>plugged core c; c_live c\<rbrakk> \<Longrightarrow> uart_run ops core \<noteq> None"
proof (induction ops core arbitrary: c rule: uart_run.induct)
  case (2 reg ops core)
  from steps_live(1) [OF 2(2,3)] obtain v where v: "uart16550_core_read core reg = Some v" by blast
  obtain val core1 where v': "v = (val, core1)" by fastforce
  with plugged_read [OF 2(2)] v 2(3) obtain c1 where "plugged core1 c1" "c_live c1" by blast
  from 2(1) [OF v v' [symmetric] this] show ?case using v v' by auto
next
  case (3 reg val ops core)
  from steps_live(2) [OF 3(2,3)] obtain core1 where v: "uart16550_core_write core reg val = Some core1" by blast
  with plugged_write [OF 3(2)] 3(3) obtain c1 where "plugged core1 c1" "c_live c1" by blast
  from 3(1) [OF v this] show ?case using v by auto
next
  case (4 ops core)
  from steps_live(3) [OF 4(2,3)] obtain core1 where v: "uart16550_core_update core = Some core1" by blast
  with plugged_tick [OF 4(2)] 4(3) obtain c1 where "plugged core1 c1" "c_live c1" by blast
  from 4(1) [OF v this] show ?case using v by auto
qed simp

end

section \<open>The terminal keeps the contract\<close>

definition term_ok :: "chardev_term \<Rightarrow> bool" where
  "term_ok term \<longleftrightarrow> rb_inv (tm_rx term) \<and> rb_inv (tm_tx term)
     \<and> (tm_flags term AND CHARDEV_RX \<noteq> 0 \<longrightarrow> rb_abs (tm_rx term) \<noteq> [])
     \<and> (tm_flags term AND CHARDEV_TX \<noteq> 0 \<longrightarrow> 0 < ringbuf_space (tm_tx term))"

definition term_left :: "chardev_term \<Rightarrow> u8 list" where
  "term_left term = rb_abs (tm_rx term) @ ht_input (tm_tty term)"

definition term_sent :: "chardev_term \<Rightarrow> u8 list" where
  "term_sent term = ht_output (tm_tty term) @ rb_abs (tm_tx term)"

lemma update_flags_fields:
  "\<exists>fl. snd (term_update_flags t) = t\<lparr>tm_flags := fl\<rparr> \<and> (fl AND CHARDEV_RX \<noteq> 0 \<longleftrightarrow> ringbuf_avail (tm_rx t) \<noteq> 0)
    \<and> (fl AND CHARDEV_TX \<noteq> 0 \<longleftrightarrow> ringbuf_space (tm_tx t) \<noteq> 0)"
  by (auto simp: term_update_flags_def Let_def)

lemma update_flags_ok:
  assumes "rb_inv (tm_rx t)" "rb_inv (tm_tx t)"
  shows "term_ok (snd (term_update_flags t))" "term_left (snd (term_update_flags t)) = term_left t"
    "term_sent (snd (term_update_flags t)) = term_sent t"
  using update_flags_fields [of t] assms length_rb_abs [of "tm_rx t"]
  by (auto simp: term_ok_def term_left_def term_sent_def ringbuf_avail_def simp del: length_rb_abs)

text \<open>The hotkey in a sequence of bytes, after a byte that was Ctrl+A or was not.\<close>

primrec hotkey :: "bool \<Rightarrow> u8 list \<Rightarrow> bool" where
  "hotkey a [] = False"
| "hotkey a (b # bs) = (a \<and> b = 0x78 \<or> hotkey (b = 1) bs)"

definition ctrl_after :: "bool \<Rightarrow> u8 list \<Rightarrow> bool" where
  "ctrl_after a bs = (if bs = [] then a else last bs = 1)"

lemma hotkey_append: "hotkey a (xs @ ys) \<longleftrightarrow> hotkey a xs \<or> hotkey (ctrl_after a xs) ys"
  by (induction xs arbitrary: a) (auto simp: ctrl_after_def)

lemma process_input:
  "term_process_input buf t = (if hotkey (tm_ctrl_a t) buf then None else Some (t\<lparr>tm_ctrl_a := ctrl_after (tm_ctrl_a t) buf\<rparr>))"
  by (induction buf arbitrary: t) (auto simp: ctrl_after_def)

definition unread_hotkey :: "chardev_term \<Rightarrow> bool" where
  "unread_hotkey t = hotkey (tm_ctrl_a t) (ht_input (tm_tty t))"

lemma pull_rx:
  assumes "rb_inv (tm_rx t)" "rb_inv (tm_tx t)"
  shows "term_pull_rx t = Some t' \<Longrightarrow> rb_inv (tm_rx t') \<and> rb_inv (tm_tx t') \<and> term_left t' = term_left t
      \<and> term_sent t' = term_sent t \<and> (\<not> unread_hotkey t \<longrightarrow> \<not> unread_hotkey t')"
    and "\<not> unread_hotkey t \<Longrightarrow> term_pull_rx t \<noteq> None"
proof -
  define n where "n = min (min 256 (ringbuf_space (tm_rx t))) (next_amount (ht_rsched (tm_tty t)))"
  define buf where "buf = take n (ht_input (tm_tty t))"
  obtain k rx where w: "ringbuf_write (tm_rx t) buf = (k, rx)" by fastforce
  let ?tty = "(tm_tty t)\<lparr>ht_input := drop n (ht_input (tm_tty t)), ht_rsched := tl (ht_rsched (tm_tty t))\<rparr>"
  let ?t' = "t\<lparr>tm_tty := ?tty, tm_ctrl_a := ctrl_after (tm_ctrl_a t) buf, tm_rx := rx\<rparr>"
  have pull: "term_pull_rx t = (if hotkey (tm_ctrl_a t) buf then None else Some ?t')"
    unfolding term_pull_rx_def term_read_raw_def n_def [symmetric] buf_def [symmetric] Let_def prod.case
    using w by (simp add: process_input n_def [symmetric] buf_def [symmetric])
  have hk: "unread_hotkey t \<longleftrightarrow> hotkey (tm_ctrl_a t) buf \<or> unread_hotkey ?t'"
    using hotkey_append [of "tm_ctrl_a t" buf "drop n (ht_input (tm_tty t))"] by (simp add: unread_hotkey_def buf_def)
  have "length buf \<le> n" by (simp add: buf_def)
  moreover have "n \<le> rb_size (tm_rx t) - rb_consumed (tm_rx t)" by (simp add: n_def ringbuf_space_def)
  ultimately have "k = length buf" using ringbuf_write_fields(1) [OF assms(1) w] by simp
  then have "rb_abs rx = rb_abs (tm_rx t) @ buf" using ringbuf_write_abs [OF assms(1) w] by simp
  moreover have "rb_inv rx" by (rule ringbuf_write_inv [OF assms(1) w])
  ultimately show "term_pull_rx t = Some t' \<Longrightarrow> rb_inv (tm_rx t') \<and> rb_inv (tm_tx t') \<and> term_left t' = term_left t
      \<and> term_sent t' = term_sent t \<and> (\<not> unread_hotkey t \<longrightarrow> \<not> unread_hotkey t')"
    using pull hk assms(2) by (auto simp: term_left_def term_sent_def buf_def split: if_splits)
  show "\<not> unread_hotkey t \<Longrightarrow> term_pull_rx t \<noteq> None" using pull hk by auto
qed

lemma push_tx:
  assumes "rb_inv (tm_tx t)"
  shows "rb_inv (tm_tx (term_push_tx t))" "tm_rx (term_push_tx t) = tm_rx t" "term_left (term_push_tx t) = term_left t"
    "term_sent (term_push_tx t) = term_sent t" "unread_hotkey (term_push_tx t) = unread_hotkey t"
proof -
  define buf where "buf = take 256 (rb_abs (tm_tx t))"
  define n where "n = min (length buf) (next_amount (ht_wsched (tm_tty t)))"
  have push: "term_push_tx t = t\<lparr>tm_tty := (tm_tty t)\<lparr>ht_output := ht_output (tm_tty t) @ take n buf, ht_wsched := tl (ht_wsched (tm_tty t))\<rparr>,
      tm_tx := snd (ringbuf_skip (tm_tx t) n)\<rparr>"
    unfolding term_push_tx_def ringbuf_peek_spec [OF assms] buf_def [symmetric] term_write_raw_def Let_def n_def [symmetric] prod.case
    by simp
  have "take n buf @ drop n (rb_abs (tm_tx t)) = rb_abs (tm_tx t)"
    using append_take_drop_id [of n "rb_abs (tm_tx t)"] by (simp add: buf_def n_def)
  then show "term_sent (term_push_tx t) = term_sent t"
    by (simp add: term_sent_def push ringbuf_skip_abs [OF assms])
  show "rb_inv (tm_tx (term_push_tx t))" "tm_rx (term_push_tx t) = tm_rx t" "term_left (term_push_tx t) = term_left t"
    "unread_hotkey (term_push_tx t) = unread_hotkey t"
    by (simp_all add: push ringbuf_skip_inv [OF assms] term_left_def unread_hotkey_def)
qed

lemma update_flags_hotkey: "unread_hotkey (snd (term_update_flags t)) = unread_hotkey t"
  using update_flags_fields [of t] by (auto simp: unread_hotkey_def)

text \<open>The operations, with the condition under which they return.\<close>

definition term_law :: "chardev_term \<Rightarrow> chardev_term \<Rightarrow> u8 list \<Rightarrow> u8 list \<Rightarrow> bool" where
  "term_law t t' received sent \<longleftrightarrow> term_ok t' \<and> term_left t = received @ term_left t' \<and> term_sent t' = term_sent t @ sent
     \<and> (\<not> unread_hotkey t \<longrightarrow> \<not> unread_hotkey t')"

lemma pull_if:
  assumes "rb_inv (tm_rx t)" "rb_inv (tm_tx t)"
  shows "(if b then term_pull_rx t else Some t) = Some t' \<Longrightarrow> rb_inv (tm_rx t') \<and> rb_inv (tm_tx t') \<and> term_left t' = term_left t
      \<and> term_sent t' = term_sent t \<and> (\<not> unread_hotkey t \<longrightarrow> \<not> unread_hotkey t')"
    and "\<not> unread_hotkey t \<Longrightarrow> (if b then term_pull_rx t else Some t) \<noteq> None"
  using pull_rx [OF assms] assms by (auto split: if_splits)

lemma term_read_law:
  assumes ok: "term_ok t"
  shows "term_read t n = Some (k, buf, t') \<Longrightarrow> term_law t t' buf [] \<and> (tm_flags t AND CHARDEV_RX \<noteq> 0 \<longrightarrow> n = 1 \<longrightarrow> length buf = 1)"
    and "\<not> unread_hotkey t \<Longrightarrow> term_read t n \<noteq> None"
proof -
  obtain k' buf' rx where r: "ringbuf_read (tm_rx t) n = (k', buf', rx)" by (cases "ringbuf_read (tm_rx t) n") auto
  have inv: "rb_inv (tm_rx t)" "rb_inv (tm_tx t)" using ok by (simp_all add: term_ok_def)
  note spec = ringbuf_read_spec [OF inv(1) r]
  let ?t1 = "t\<lparr>tm_rx := rx\<rparr>"
  have i1: "rb_inv (tm_rx ?t1)" "rb_inv (tm_tx ?t1)" using spec(4) inv by simp_all
  have left: "term_left t = buf' @ term_left ?t1" using spec(2,3) by (simp add: term_left_def)
  have same: "term_sent ?t1 = term_sent t" "unread_hotkey ?t1 = unread_hotkey t" by (simp_all add: term_sent_def unread_hotkey_def)
  note pull = pull_if [OF i1, of "ringbuf_avail (tm_rx ?t1) = 0"]
  have e: "term_read t n = (if tm_flags t AND CHARDEV_RX \<noteq> 0
      then Option.bind (if ringbuf_avail (tm_rx ?t1) = 0 then term_pull_rx ?t1 else Some ?t1) (\<lambda>t2. Some (k', buf', snd (term_update_flags t2)))
      else Some (0, [], t))"
    by (simp add: term_read_def term_poll_def r Let_def)
  show "term_law t t' buf [] \<and> (tm_flags t AND CHARDEV_RX \<noteq> 0 \<longrightarrow> n = 1 \<longrightarrow> length buf = 1)" if res: "term_read t n = Some (k, buf, t')"
  proof (cases "tm_flags t AND CHARDEV_RX \<noteq> 0")
    case True
    then obtain t2 where t2: "(if ringbuf_avail (tm_rx ?t1) = 0 then term_pull_rx ?t1 else Some ?t1) = Some t2"
      "buf = buf'" "t' = snd (term_update_flags t2)" using res True unfolding e by (auto simp: bind_eq_Some_conv)
    note p = pull(1) [OF t2(1)]
    have "length buf' = 1" if "n = 1" using spec(2) that ok True by (cases "rb_abs (tm_rx t)") (auto simp: term_ok_def)
    moreover have "term_law t t' buf []"
      unfolding term_law_def t2(2,3) using update_flags_ok [of t2] update_flags_hotkey [of t2] p left same by auto
    ultimately show ?thesis using t2(2) by simp
  next
    case False
    then have "t' = t" "buf = []" using res unfolding e by (simp_all only: if_False option.inject prod.inject)
    then show ?thesis using ok False by (simp add: term_law_def)
  qed
  show "term_read t n \<noteq> None" if "\<not> unread_hotkey t"
    using pull(2) same(2) that unfolding e by (auto simp: bind_eq_None_conv split: if_splits)
qed

lemma push_if:
  assumes "rb_inv (tm_rx t)" "rb_inv (tm_tx t)" "t' = (if b then term_push_tx t else t)"
  shows "rb_inv (tm_rx t') \<and> rb_inv (tm_tx t') \<and> term_left t' = term_left t \<and> term_sent t' = term_sent t \<and> unread_hotkey t' = unread_hotkey t"
  using push_tx [OF assms(2)] assms by simp

lemma term_write_law:
  assumes ok: "term_ok t"
  obtains k t' where "term_write t buf = Some (k, t')" "term_law t t' [] (take k buf)" "k \<le> length buf"
    "tm_flags t AND CHARDEV_TX \<noteq> 0 \<Longrightarrow> length buf = 1 \<Longrightarrow> k = 1"
proof -
  obtain k tx where w: "ringbuf_write (tm_tx t) buf = (k, tx)" by fastforce
  have inv: "rb_inv (tm_rx t)" "rb_inv (tm_tx t)" using ok by (simp_all add: term_ok_def)
  let ?t1 = "t\<lparr>tm_tx := tx\<rparr>"
  let ?t2 = "if ringbuf_space (tm_tx ?t1) = 0 then term_push_tx ?t1 else ?t1"
  have k: "k = min (ringbuf_space (tm_tx t)) (length buf)" using ringbuf_write_fields(1) [OF inv(2) w] by (simp add: ringbuf_space_def)
  have i1: "rb_inv (tm_rx ?t1)" "rb_inv (tm_tx ?t1)" using ringbuf_write_inv [OF inv(2) w] inv by simp_all
  note p = push_if [OF i1 refl, of "ringbuf_space (tm_tx ?t1) = 0"]
  have s1: "term_sent ?t1 = term_sent t @ take k buf" "term_left ?t1 = term_left t" "unread_hotkey ?t1 = unread_hotkey t"
    using ringbuf_write_abs [OF inv(2) w] by (simp_all add: term_sent_def term_left_def unread_hotkey_def)
  have "term_write t buf = Some (k, snd (term_update_flags ?t2))" by (simp add: term_write_def w Let_def)
  moreover have "term_law t (snd (term_update_flags ?t2)) [] (take k buf)"
    unfolding term_law_def using update_flags_ok [of ?t2] update_flags_hotkey [of ?t2] p s1 by simp
  moreover have "tm_flags t AND CHARDEV_TX \<noteq> 0 \<Longrightarrow> length buf = 1 \<Longrightarrow> k = 1" using ok k by (simp add: term_ok_def)
  ultimately show thesis using that k by simp
qed

lemma term_update_law:
  assumes ok: "term_ok t"
  shows "term_update t = Some (flags, t') \<Longrightarrow> term_law t t' [] []"
    and "\<not> unread_hotkey t \<Longrightarrow> term_update t \<noteq> None"
proof -
  have inv: "rb_inv (tm_rx t)" "rb_inv (tm_tx t)" using ok by (simp_all add: term_ok_def)
  note pull = pull_if [OF inv, of "ringbuf_space (tm_rx t) \<noteq> 0"]
  show "term_law t t' [] []" if "term_update t = Some (flags, t')"
  proof -
    from that obtain t1 where t1: "(if ringbuf_space (tm_rx t) \<noteq> 0 then term_pull_rx t else Some t) = Some t1"
      "t' = snd (term_update_flags (if ringbuf_avail (tm_tx t1) \<noteq> 0 then term_push_tx t1 else t1))"
      by (auto simp: term_update_def bind_eq_Some_conv Let_def case_prod_unfold split: if_splits)
    note p = pull(1) [OF t1(1)]
    have i: "rb_inv (tm_rx t1)" "rb_inv (tm_tx t1)" using p by simp_all
    note q = push_if [OF i refl, of "ringbuf_avail (tm_tx t1) \<noteq> 0"]
    show ?thesis unfolding term_law_def t1(2) using q p
      update_flags_ok [of "if ringbuf_avail (tm_tx t1) \<noteq> 0 then term_push_tx t1 else t1"]
      update_flags_hotkey [of "if ringbuf_avail (tm_tx t1) \<noteq> 0 then term_push_tx t1 else t1"] by simp
  qed
  show "term_update t \<noteq> None" if "\<not> unread_hotkey t"
    using pull(2) [OF that] by (auto simp: term_update_def bind_eq_None_conv Let_def case_prod_unfold)
qed

interpretation terminal: char_backend term_ok "\<lambda>t. \<not> unread_hotkey t" term_left term_sent term_poll term_read term_write term_update
proof
  fix c c' :: chardev_term and n k buf flags b
  show "term_ok c' \<and> term_left c = buf @ term_left c' \<and> term_sent c' = term_sent c \<and> (\<not> unread_hotkey c \<longrightarrow> \<not> unread_hotkey c')" if "term_ok c" "term_read c n = Some (k, buf, c')"
    using term_read_law(1) [OF that] by (simp add: term_law_def)
  show "length buf = 1" if "term_ok c" "term_poll c AND CHARDEV_RX \<noteq> 0" "term_read c 1 = Some (k, buf, c')"
    using term_read_law(1) [OF that(1,3)] that(2) by (simp add: term_poll_def)
  show "term_ok c' \<and> term_left c' = term_left c \<and> k \<le> length buf \<and> term_sent c' = term_sent c @ take k buf \<and> (\<not> unread_hotkey c \<longrightarrow> \<not> unread_hotkey c')"
    if "term_ok c" "term_write c buf = Some (k, c')"
    by (rule term_write_law [OF that(1), of buf]) (use that(2) in \<open>simp add: term_law_def\<close>)
  show "k = 1" if "term_ok c" "term_poll c AND CHARDEV_TX \<noteq> 0" "term_write c [b] = Some (k, c')"
    by (rule term_write_law [OF that(1), of "[b]"]) (use that(2,3) in \<open>simp add: term_poll_def\<close>)
  show "term_ok c' \<and> term_left c' = term_left c \<and> term_sent c' = term_sent c \<and> (\<not> unread_hotkey c \<longrightarrow> \<not> unread_hotkey c')"
    if "term_ok c" "term_update c = Some (flags, c')"
    using term_update_law(1) [OF that] by (simp add: term_law_def)
  show "term_read c n \<noteq> None \<and> term_write c buf \<noteq> None \<and> term_update c \<noteq> None" if "term_ok c" "\<not> unread_hotkey c"
    using term_read_law(2) [OF that] term_update_law(2) [OF that] by (auto intro: term_write_law [OF that(1), of buf])
qed

section \<open>Notifications\<close>

text \<open>
  The terminal notifies the port of the flags that have become set, and the port takes them for all
  flags.  After a byte has arrived, the port does not know any more that the transmitter is empty:
  enabling the interrupt of the transmitter then leaves the line low, although the identification register reports it.
\<close>

lemma uart_tx_interrupt_lost:
  "(case uart_run [Tick, Put 1 1, Put 1 0, Tick, Put 1 2]
      (uart16550_core_init (Some (chardev_fd_create \<lparr>ht_input = [104], ht_rsched = [0, 1], ht_output = [], ht_wsched = []\<rparr>)) (Some (\<lambda>_ level. level)) False) of
      Some (_, _, _, core) \<Rightarrow> ua_irq_ctx core = False \<and> ua_ier core = 2
        \<and> map_option fst (uart16550_core_read core 2) = Some 0xC2 \<and> map_option fst (uart16550_core_read core 5) = Some 0x61
    | None \<Rightarrow> False)"
  by code_simp

section \<open>Properties\<close>

text \<open>
  C29. The serial line is reliable.  Whatever the guest does with the registers of the port, and whenever
  the event loop updates the terminal, what the guest reads from the receiver while it shows data is
  what was typed, in order and without a gap, and what the guest writes to the transmitter while it is shown empty is what the terminal prints.
  The rest is in the buffers.  The port returns from every access, unless the user types the hotkey that ends the machine.
\<close>

theorem serial_stream:
  assumes "\<not> hotkey False (ht_input tty)"
  shows "\<exists>received sent core t. uart_run ops (uart16550_core_init (Some (chardev_fd_create tty)) irq_fn irq_ctx) = Some (received, sent, [], core)
    \<and> map_option cd_data (ua_chardev core) = Some t
    \<and> ht_input tty = received @ rb_abs (tm_rx t) @ ht_input (tm_tty t)
    \<and> ht_output tty @ sent = ht_output (tm_tty t) @ rb_abs (tm_tx t)"
proof -
  let ?t = "\<lparr>tm_rx = ringbuf_create 256, tm_tx = ringbuf_create 256, tm_flags = 0, tm_ctrl_a = False, tm_tty = tty\<rparr>"
  let ?core = "uart16550_core_init (Some (chardev_fd_create tty)) irq_fn irq_ctx"
  have "term_ok ?t" by (simp add: term_ok_def rb_inv_create)
  then have p: "terminal.plugged ?core ?t" by (simp add: terminal.plugged_def uart16550_core_init_def chardev_fd_create_def)
  have "\<not> unread_hotkey ?t" using assms by (simp add: unread_hotkey_def)
  with terminal.run_live [OF p] obtain received sent lost core where r: "uart_run ops ?core = Some (received, sent, lost, core)" by fast
  from terminal.run_stream [OF p r] obtain t where t: "terminal.plugged core t" "term_left ?t = received @ term_left t"
    "term_sent t = term_sent ?t @ sent" "lost = []" by blast
  show ?thesis
    by (rule exI [of _ received], rule exI [of _ sent], rule exI [of _ core], rule exI [of _ t])
      (use r t in \<open>simp add: terminal.plugged_def term_left_def term_sent_def\<close>)
qed

theorem serial_stream_witness:
  "\<not> hotkey False [104, 105] \<and>
   (case uart_run [Put 1 1, Tick, Get 5, Get 0, Put 0 111, Get 0, Tick]
      (uart16550_core_init (Some (chardev_fd_create \<lparr>ht_input = [104, 105], ht_rsched = [1, 5], ht_output = [], ht_wsched = [8]\<rparr>)) None ()) of
      Some (received, sent, lost, _) \<Rightarrow> received = [104, 105] \<and> sent = [111] \<and> lost = []
    | None \<Rightarrow> False)"
proof -
  let ?tty = "\<lparr>ht_input = [104, 105], ht_rsched = [1, 5], ht_output = [], ht_wsched = [8]\<rparr>"
  let ?run = "uart_run [Put 1 1, Tick, Get 5, Get 0, Put 0 111, Get 0, Tick]
      (uart16550_core_init (Some (chardev_fd_create ?tty)) None ())"
  have h: "\<not> hotkey False (ht_input ?tty)" by code_simp
  have v: "map_option fst ?run = Some [104, 105] \<and> map_option (\<lambda>r. fst (snd r)) ?run = Some [111]" by code_simp
  from serial_stream [OF h, of "[Put 1 1, Tick, Get 5, Get 0, Put 0 111, Get 0, Tick]" None "()"] obtain received sent core where
    r: "?run = Some (received, sent, [], core)" by blast
  with v h show ?thesis by simp
qed

end
