(* ===== verification/Spec2Isabelle.thy ===== *)
theory Spec2Isabelle
  imports Ringbuf Hashmap Confinement Pausing Plic Aplic MachineBus Serial
begin

text \<open>
  A verification development of RVVM, the RISC-V virtual machine.

  \<^bold>\<open>The program.\<close>  A machine has RAM, harts, and devices on a bus.  A hart is a thread: it runs the
  interpreter until an event, delivers traps and interrupts, and starts over.  The interpreter
  fetches and stores through a software TLB, which the MMU fills by walking the page tables of the
  guest, and the MMU hands what is not RAM to the devices.  Interrupt controllers among the devices
  raise the interrupt lines of the harts, and other threads of the host send events to them.

  \<^bold>\<open>The theories\<close>, each with the part of \<^verbatim>\<open>src/\<close> that it translates.
  \<^item> \<^verbatim>\<open>Prelude\<close>: integer types as machine words, shifts, little-endian accessors (\<^verbatim>\<open>util/mem_ops.h\<close>).
  \<^item> \<^verbatim>\<open>BitOps\<close>: \<^verbatim>\<open>util/bit_ops.h\<close>, the branches for compiler builtins and the portable ones.
  \<^item> \<^verbatim>\<open>Ringbuf\<close>, \<^verbatim>\<open>Hashmap\<close>, \<^verbatim>\<open>Timer\<close>: \<^verbatim>\<open>util/ringbuf.c\<close>, \<^verbatim>\<open>util/hashmap.c\<close>, \<^verbatim>\<open>util/rvtimer.c\<close>.
  \<^item> \<^verbatim>\<open>HartState\<close>: the record of a hart and what it reads of its machine (\<^verbatim>\<open>core/rvvm.h\<close>).
  \<^item> \<^verbatim>\<open>Tlb\<close>, \<^verbatim>\<open>Mmu\<close>: \<^verbatim>\<open>cpu/riscv_mmu.c\<close> and \<^verbatim>\<open>cpu/riscv_mmu.h\<close>: TLB, table walks, slow path, dispatch to devices.
  \<^item> \<^verbatim>\<open>Hart\<close>: \<^verbatim>\<open>cpu/riscv_hart.c\<close>: traps, interrupt lines, interrupt files, delivery.
  \<^item> \<^verbatim>\<open>Csr\<close>, \<^verbatim>\<open>Priv\<close>: \<^verbatim>\<open>cpu/riscv_csr.c\<close>, \<^verbatim>\<open>cpu/riscv_priv.c\<close>: registers and instructions of the privileged architecture.
  \<^item> \<^verbatim>\<open>Atomics\<close>, \<^verbatim>\<open>Base\<close>, \<^verbatim>\<open>Compressed\<close>: the instruction sets of \<^verbatim>\<open>cpu/riscv_atomics.h\<close> (with \<^verbatim>\<open>util/atomics.h\<close>),
    \<^verbatim>\<open>cpu/riscv_base.h\<close> and \<^verbatim>\<open>cpu/riscv_compressed.h\<close>, generic in the width of \<^verbatim>\<open>xlen_t\<close>.
  \<^item> \<^verbatim>\<open>Interpreter\<close>: \<^verbatim>\<open>cpu/riscv_interpreter.h\<close>, \<^verbatim>\<open>cpu/riscv_cpu.c\<close> and the loop of a hart; its step relation
    \<open>hart_step\<close> interleaves instructions with the events of other threads.
  \<^item> \<^verbatim>\<open>Invariants\<close>, \<^verbatim>\<open>Confinement\<close>, \<^verbatim>\<open>Pausing\<close>: properties of a hart that runs any program.
  \<^item> \<^verbatim>\<open>IrqLines\<close>, \<^verbatim>\<open>Plic\<close>, \<^verbatim>\<open>Aplic\<close>: \<^verbatim>\<open>devices/riscv-plic.c\<close>, \<^verbatim>\<open>devices/riscv-aplic.c\<close> and the front end \<^verbatim>\<open>devices/riscv-imsic.c\<close>.
  \<^item> \<^verbatim>\<open>MachineBus\<close>: attachment of devices, memory access of devices and messages (\<^verbatim>\<open>core/rvvm.c\<close>, \<^verbatim>\<open>core/rvvm_region.c\<close>).
  \<^item> \<^verbatim>\<open>Serial\<close>: \<^verbatim>\<open>devices/uart16550_core.c\<close>, \<^verbatim>\<open>devices/chardev.h\<close>, \<^verbatim>\<open>devices/chardev_term.c\<close>.

  \<^bold>\<open>Conventions.\<close>  A structure is a record and an operation a function that takes it and returns it
  updated.  Registers and fields keep their width as words.  The memory of the process is one
  map from 64-bit addresses to bytes, and a pointer is such an address; RAM is a range of it.  An
  illegal access, an operation that fails and an access outside of an array are values of an option
  type.  The build is the one for a 64-bit little-endian host with RV32 and RV64 guests, without JIT
  and FPU.  An atomic operation is one step, and a handler of a device runs alone.

  \<^bold>\<open>Interfaces.\<close>  Where a component relies on another one, a locale states what, and is interpreted on the
  definitions of the provider: \<open>byte_fifo\<close> on the ring buffer, \<open>map_contract\<close> on the hash map, \<open>translation_cache\<close> on
  the TLB, \<open>irq_lines\<close> on the lines of a hart, \<open>address_space\<close> on the bus, \<open>char_backend\<close> on the terminal.
  The chain \<open>csr_invariant\<close>, \<open>mmu_invariant\<close>, \<open>insn_invariant\<close>, \<open>hart_invariant\<close> carries a predicate through every
  instruction and both loops; it is interpreted on legal control state, on confinement to guest memory and on requests to pause.

  \<^bold>\<open>What is shown.\<close>
  \<^item> Isolation: a hart writes only guest memory (C1), its control state stays legal (C2, C11), walks respect
    the permissions of the page tables (C4), lower modes do not change what machine mode owns (C12, C14), the TLB answers
    only with current translations (C7), devices access only RAM (C27), and a domain of the
    interrupt controller only its own sources (C24).
  \<^item> Function: table walks against an inductive definition of the architecture (C3, C5), memory as a store (C6, C32), traps,
    returns and interrupts (C8, C9, C10, C13), compressed instructions against their expansions (C15, C19), atomics (C16, C17), arithmetic (C18, C31, C35), claims (C21) and the dispatch of the bus (C26).
  \<^item> Progress: a request to pause ends the loops (C20), a sleep ends with the timer (C30), interrupts are
    delivered (C22, C23), and the search for a zone on the bus ends (C28).
  \<^item> Refinement: ring buffer to list (C33), hash map to finite map (C34), serial port to two streams (C29).
  \<^item> Deviations: where the code does not do what its comments or the architecture say (C25, C36 to C40, and the
    lemmas \<^verbatim>\<open>mulh_portable_wrong\<close>, \<^verbatim>\<open>bit_next_pow2_rounds_down\<close>, \<^verbatim>\<open>amo_byte_minmax_unsigned\<close>, \<^verbatim>\<open>crossbar\<close>,
    \<^verbatim>\<open>aia_threshold_off_by_one\<close>, \<^verbatim>\<open>satp_mode_change_lost\<close>, \<^verbatim>\<open>sret_keeps_mprv\<close>, \<^verbatim>\<open>dma_wraps\<close>, \<^verbatim>\<open>rom_region_written\<close>, \<^verbatim>\<open>uart_tx_interrupt_lost\<close>).

  \<^bold>\<open>Fuel and bounds.\<close>  The loops of a hart run as long as the guest: they take fuel, every run with fuel is one
  of \<open>hart_step\<close>, and C20 shows that they return once a pause is queued, with fuel for one more round.  A
  sleep takes \<open>mc_wfi_rounds\<close> rounds at most.  A hash map of fewer than 256 keys needs 2 units of fuel,
  for an insertion and one resize.  The loop over the parts of an unaligned access
  takes the number of its bytes, of which each round uses up at least one.  The claim loop of the
  PLIC, the probes after a deletion and the search of the bus are partial functions that are shown to return.

  \<^bold>\<open>Not modelled.\<close>  The JIT compiler (\<^verbatim>\<open>rvjit/\<close>) and hardware virtualisation (\<^verbatim>\<open>vmm/\<close>) run code of the host;
  floating point (\<^verbatim>\<open>cpu/riscv_fpu.c\<close>, \<^verbatim>\<open>util/fpu_lib.c\<close>) uses the unit of the host; the vector
  unit is a declaration only.  Windows (\<^verbatim>\<open>gui/\<close>), networking, sound, block devices and files, snapshots, the
  GDB stub, user-mode emulation, the isolation of the process and the bindings are input and output of the host.
  Threads and locks are represented by the interleaving of steps, and races inside of a handler are not.  Device trees,
  life cycle and event loop of a machine, the removal of devices, and the remaining devices and buses under
  \<^verbatim>\<open>devices/\<close> (PCI, USB, I2C, SPI, GPIO, CAN, clocks, input devices, ACLINT) are left out so far.
\<close>

end
